(* ===== verification/Prelude.thy ===== *)
theory Prelude
  imports Main "HOL-Library.Word" "HOL-Library.Signed_Division"
begin

text \<open>
  Shared vocabulary of the development: the widths of the C integer types, the faults a C
  operation can end in, a bind for fallible operations, and the list lemmas the components
  have in common.

  \<^item> Unsigned quantities that are masked or compared bitwise are words (\<open>u8\<close>, \<open>u16\<close>,
    \<open>u32\<close>). Signed quantities are \<open>int\<close>, and a store into a C object of a narrower signed
    type is written with \<open>s8\<close>, \<open>s16\<close> or \<open>s32\<close>, which keep the low bits and read them as
    two's complement (what every compiler for this target does).
  \<^item> An operation that can leave the defined behaviour of C (null or wild pointer, read or
    write outside an array, division by zero, signed overflow, a shift by the width or more, failed
    \<open>RT_ASSERT\<close>), or that can loop for ever, returns a value of type \<open>fault + 'a\<close>.
\<close>

unbundle bit_operations_syntax

named_theorems fault_simps \<open>evaluation of fallible operations\<close>

section \<open>Machine integers\<close>

type_synonym u8 = "8 word"
type_synonym u16 = "16 word"
type_synonym u32 = "32 word"

definition s8 :: "int \<Rightarrow> int" where
  "s8 x = signed_take_bit 7 x"

definition s16 :: "int \<Rightarrow> int" where
  "s16 x = signed_take_bit 15 x"

definition s32 :: "int \<Rightarrow> int" where
  "s32 x = signed_take_bit 31 x"

lemma s8_id: "-128 \<le> x \<Longrightarrow> x < 128 \<Longrightarrow> s8 x = x"
  by (simp add: s8_def signed_take_bit_int_eq_self)

lemma s16_id: "-32768 \<le> x \<Longrightarrow> x < 32768 \<Longrightarrow> s16 x = x"
  by (simp add: s16_def signed_take_bit_int_eq_self)

lemma s32_id: "-2147483648 \<le> x \<Longrightarrow> x < 2147483648 \<Longrightarrow> s32 x = x"
  by (simp add: s32_def signed_take_bit_int_eq_self)

lemma s16_range: "-32768 \<le> s16 x \<and> s16 x < 32768"
  using signed_take_bit_int_greater_eq_minus_exp [of 15 x] signed_take_bit_int_less_exp [of 15 x]
  by (simp add: s16_def)

lemma s8_range: "-128 \<le> s8 x \<and> s8 x < 128"
  using signed_take_bit_int_greater_eq_minus_exp [of 7 x] signed_take_bit_int_less_exp [of 7 x]
  by (simp add: s8_def)

lemma unat_u8_less: "unat (x :: u8) < 256"
  using unsigned_less [of x, where ?'a = nat] by simp

lemma unat_u16_less: "unat (x :: u16) < 65536"
  using unsigned_less [of x, where ?'a = nat] by simp

lemma unat_u8_of_nat: "n < 256 \<Longrightarrow> unat (of_nat n :: u8) = n"
  by (simp add: unat_of_nat)

lemma u8_of_nat_unat: "unat (w :: u8) = n \<Longrightarrow> w = of_nat n"
  by auto

text \<open>\<open>RT_ALIGN\<close> and \<open>RT_ALIGN_DOWN\<close> with \<open>RT_ALIGN_SIZE\<close>, which is 4.\<close>

definition align4 :: "u32 \<Rightarrow> u32" where
  "align4 n = (n + 3) AND NOT 3"

definition align_down4 :: "u32 \<Rightarrow> u32" where
  "align_down4 n = n AND NOT 3"

section \<open>Faults\<close>

datatype fault =
    Null_Deref
  | Oob_Read
  | Oob_Write
  | Div_Zero
  | Signed_Overflow
  | Bad_Shift
  | Endless_Loop
  | Assert_Fail

definition rbind :: "fault + 'a \<Rightarrow> ('a \<Rightarrow> fault + 'b) \<Rightarrow> fault + 'b" where
  "rbind m f = (case m of Inl e \<Rightarrow> Inl e | Inr x \<Rightarrow> f x)"

lemma rbind_Inr [simp, fault_simps]: "rbind (Inr x) f = f x"
  by (simp add: rbind_def)

lemma rbind_Inl [simp, fault_simps]: "rbind (Inl e) f = Inl e"
  by (simp add: rbind_def)

lemma rbind_assoc: "rbind (rbind m f) g = rbind m (\<lambda>x. rbind (f x) g)"
  by (cases m) simp_all

lemma rbind_eq_Inr: "rbind m f = Inr y \<longleftrightarrow> (\<exists>x. m = Inr x \<and> f x = Inr y)"
  by (cases m) auto

lemma rbind_eq_Inl: "rbind m f = Inl e \<longleftrightarrow> m = Inl e \<or> (\<exists>x. m = Inr x \<and> f x = Inl e)"
  by (cases m) auto

text \<open>Array accesses with the bounds the C object has.\<close>

definition rd :: "'a list \<Rightarrow> nat \<Rightarrow> fault + 'a" where
  "rd xs i = (if i < length xs then Inr (xs ! i) else Inl Oob_Read)"

definition wr :: "'a list \<Rightarrow> nat \<Rightarrow> 'a \<Rightarrow> fault + 'a list" where
  "wr xs i v = (if i < length xs then Inr (xs[i := v]) else Inl Oob_Write)"

lemma rd_in [simp, fault_simps]: "i < length xs \<Longrightarrow> rd xs i = Inr (xs ! i)"
  by (simp add: rd_def)

lemma rd_out [simp, fault_simps]: "length xs \<le> i \<Longrightarrow> rd xs i = Inl Oob_Read"
  by (simp add: rd_def)

lemma wr_in [simp, fault_simps]: "i < length xs \<Longrightarrow> wr xs i v = Inr (xs[i := v])"
  by (simp add: wr_def)

lemma rd_eq_Inl: "rd xs i = Inl e \<longleftrightarrow> e = Oob_Read \<and> length xs \<le> i"
  by (auto simp: rd_def)

lemma wr_eq_Inl: "wr xs i v = Inl e \<longleftrightarrow> e = Oob_Write \<and> length xs \<le> i"
  by (auto simp: wr_def)

text \<open>Signed 32-bit arithmetic of the C abstract machine: overflow is a fault.\<close>

definition chk32 :: "int \<Rightarrow> fault + int" where
  "chk32 x = (if -2147483648 \<le> x \<and> x < 2147483648 then Inr x else Inl Signed_Overflow)"

definition cdiv :: "int \<Rightarrow> int \<Rightarrow> fault + int" where
  "cdiv a b = (if b = 0 then Inl Div_Zero else chk32 (a sdiv b))"

lemma chk32_in [simp, fault_simps]: "-2147483648 \<le> x \<Longrightarrow> x < 2147483648 \<Longrightarrow> chk32 x = Inr x"
  by (simp add: chk32_def)

lemma cdiv_zero [simp, fault_simps]: "cdiv a 0 = Inl Div_Zero"
  by (simp add: cdiv_def)

section \<open>Error codes of the kernel\<close>

text \<open>\<open>rt_err_t\<close> (\<^verbatim>\<open>rt-thread/include/rtdef.h\<close>); the kernel returns them negated.\<close>

definition RT_EOK :: int where "RT_EOK = 0"
definition RT_ERROR :: int where "RT_ERROR = 1"
definition RT_ETIMEOUT :: int where "RT_ETIMEOUT = 2"
definition RT_EFULL :: int where "RT_EFULL = 3"
definition RT_EEMPTY :: int where "RT_EEMPTY = 4"
definition RT_ENOSYS :: int where "RT_ENOSYS = 6"
definition RT_EBUSY :: int where "RT_EBUSY = 7"
definition RT_EIO :: int where "RT_EIO = 8"
definition RT_EINTR :: int where "RT_EINTR = 9"
definition RT_EINVAL :: int where "RT_EINVAL = 10"

lemmas rt_err_defs = RT_EOK_def RT_ERROR_def RT_ETIMEOUT_def RT_EFULL_def RT_EEMPTY_def
  RT_ENOSYS_def RT_EBUSY_def RT_EIO_def RT_EINTR_def RT_EINVAL_def

section \<open>Lists: block copies and suffixes\<close>

text \<open>\<open>memcpy (&xs[i], ys, length ys)\<close>.\<close>

definition splice_at :: "nat \<Rightarrow> 'a list \<Rightarrow> 'a list \<Rightarrow> 'a list" where
  "splice_at i ys xs = take i xs @ ys @ drop (i + length ys) xs"

lemma length_splice_at [simp]: "i + length ys \<le> length xs \<Longrightarrow> length (splice_at i ys xs) = length xs"
  by (simp add: splice_at_def)

lemma nth_splice_at:
  assumes "i + length ys \<le> length xs" "k < length xs"
  shows "splice_at i ys xs ! k = (if i \<le> k \<and> k < i + length ys then ys ! (k - i) else xs ! k)"
  using assms by (auto simp: splice_at_def nth_append)

text \<open>The last \<open>n\<close> elements of a list, all of it when it is shorter.\<close>

definition lastn :: "nat \<Rightarrow> 'a list \<Rightarrow> 'a list" where
  "lastn n xs = drop (length xs - n) xs"

lemma length_lastn [simp]: "length (lastn n xs) = min n (length xs)"
  by (simp add: lastn_def)

lemma lastn_all [simp]: "length xs \<le> n \<Longrightarrow> lastn n xs = xs"
  by (simp add: lastn_def)

lemma lastn_append_right: "n \<le> length ys \<Longrightarrow> lastn n (xs @ ys) = lastn n ys"
  by (simp add: lastn_def)

lemma nth_lastn: "k < min n (length xs) \<Longrightarrow> lastn n xs ! k = xs ! (length xs - min n (length xs) + k)"
  by (auto simp: lastn_def min_def)

lemma take_Suc_update: "n < length xs \<Longrightarrow> take (Suc n) (xs[n := x]) = take n xs @ [x]"
  by (simp add: take_Suc_conv_app_nth)

lemma mod_less_twice: "(a :: nat) < 2 * n \<Longrightarrow> a mod n = (if a < n then a else a - n)"
  by (simp add: mod_if)

text \<open>Insertion into an ordered list, behind the elements with an equal key.\<close>

definition place_after :: "('a \<Rightarrow> nat) \<Rightarrow> 'a \<Rightarrow> 'a list \<Rightarrow> 'a list" where
  "place_after key x xs = takeWhile (\<lambda>t. key t \<le> key x) xs @ x # dropWhile (\<lambda>t. key t \<le> key x) xs"

lemma place_after_simps [simp]:
  "place_after key x [] = [x]"
  "place_after key x (t # ts) = (if key t \<le> key x then t # place_after key x ts else x # t # ts)"
  by (simp_all add: place_after_def)

lemma set_place_after [simp]: "set (place_after key x xs) = insert x (set xs)"
  by (induction xs) auto

lemma distinct_place_after [simp]: "distinct (place_after key x xs) \<longleftrightarrow> x \<notin> set xs \<and> distinct xs"
  by (induction xs) auto

lemma sorted_place_after [simp]: "sorted (map key (place_after key x xs)) \<longleftrightarrow> sorted (map key xs)"
  by (induction xs) (auto dest: order_trans)

lemma place_after_cong:
  "(\<And>t. t \<in> insert x (set xs) \<Longrightarrow> key t = key' t) \<Longrightarrow> place_after key x xs = place_after key' x xs"
  by (induction xs) auto

lemma sorted_removeAll: "sorted (map f xs) \<Longrightarrow> sorted (map f (removeAll x xs))"
  by (induction xs) auto

lemma distinct_bounded: "distinct xs \<Longrightarrow> set xs \<subseteq> {..<n} \<Longrightarrow> length xs \<le> n"
  using card_mono [of "{..<n}" "set xs"] by (simp add: distinct_card)

end
