(* ===== verification/Ring_Buffer.thy ===== *)
theory Ring_Buffer
  imports Prelude
begin

text \<open>
  The byte ring buffer \<^verbatim>\<open>rt-thread/components/drivers/src/ringbuffer.c\<close>, through which
  the TCP thread hands received bytes to the control thread.

  \<^item> State: \<open>rt_ringbuffer\<close> has the fields of the C struct. The one-bit mirror fields are
    \<open>bool\<close> (\<open>~\<close> on a one-bit field is negation), the 15-bit indices are \<open>nat\<close> and each store
    to one goes through \<open>idx15\<close>. The C comparisons \<open>size - index > length\<close> are made in
    \<open>int\<close>, where \<open>a - b > c\<close> is \<open>a > b + c\<close>; they are written in that form on \<open>nat\<close>.
  \<^item> \<open>rb_contents\<close> is the abstraction: the bytes that are stored, oldest first, and
    \<open>rb_inv\<close> the invariant that init establishes and every operation keeps.
  \<^item> The lemmas show each operation as its list operation on \<open>rb_contents\<close>;
    \<open>put_force_contents\<close> also shows the case in which the overwriting put loses
    everything that is stored.
\<close>

section \<open>State\<close>

record rt_ringbuffer =
  buffer_ptr :: "u8 list"
  read_mirror :: bool
  read_index :: nat
  write_mirror :: bool
  write_index :: nat
  buffer_size :: nat

datatype rt_ringbuffer_state =
    RT_RINGBUFFER_EMPTY
  | RT_RINGBUFFER_FULL
  | RT_RINGBUFFER_HALFFULL

definition idx15 :: "nat \<Rightarrow> nat" where
  "idx15 n = n mod 32768"

definition RT_ALIGN_DOWN4 :: "nat \<Rightarrow> nat" where
  "RT_ALIGN_DOWN4 n = n - n mod 4"

section \<open>Operations\<close>

definition rt_ringbuffer_status :: "rt_ringbuffer \<Rightarrow> rt_ringbuffer_state" where
  "rt_ringbuffer_status rb =
     (if read_index rb = write_index rb then
        (if read_mirror rb = write_mirror rb then RT_RINGBUFFER_EMPTY
         else RT_RINGBUFFER_FULL)
      else RT_RINGBUFFER_HALFFULL)"

definition rt_ringbuffer_data_len :: "rt_ringbuffer \<Rightarrow> nat" where
  "rt_ringbuffer_data_len rb =
     (case rt_ringbuffer_status rb of
        RT_RINGBUFFER_EMPTY \<Rightarrow> 0
      | RT_RINGBUFFER_FULL \<Rightarrow> buffer_size rb
      | RT_RINGBUFFER_HALFFULL \<Rightarrow>
          (if write_index rb > read_index rb then write_index rb - read_index rb
           else buffer_size rb - (read_index rb - write_index rb)))"

definition rt_ringbuffer_space_len :: "rt_ringbuffer \<Rightarrow> nat" where
  "rt_ringbuffer_space_len rb = buffer_size rb - rt_ringbuffer_data_len rb"

definition rt_ringbuffer_init :: "u8 list \<Rightarrow> nat \<Rightarrow> rt_ringbuffer" where
  "rt_ringbuffer_init pool sz =
     \<lparr>buffer_ptr = pool, read_mirror = False, read_index = 0,
      write_mirror = False, write_index = 0, buffer_size = RT_ALIGN_DOWN4 sz\<rparr>"

text \<open>
  The block copy that \<open>rt_ringbuffer_put\<close> and \<open>rt_ringbuffer_put_force\<close> have in common:
  one \<open>memcpy\<close> when the data fits before the end of the array, two otherwise.
\<close>

definition rb_copy_in :: "rt_ringbuffer \<Rightarrow> u8 list \<Rightarrow> nat \<Rightarrow> rt_ringbuffer" where
  "rb_copy_in rb ptr len =
     (if buffer_size rb > write_index rb + len then
        rb\<lparr>buffer_ptr := splice_at (write_index rb) (take len ptr) (buffer_ptr rb),
           write_index := idx15 (write_index rb + len)\<rparr>
      else
        (let n = buffer_size rb - write_index rb;
             b1 = splice_at (write_index rb) (take n ptr) (buffer_ptr rb);
             b2 = splice_at 0 (take (len - n) (drop n ptr)) b1
         in rb\<lparr>buffer_ptr := b2, write_mirror := \<not> write_mirror rb,
               write_index := idx15 (len - n)\<rparr>))"

definition rt_ringbuffer_put :: "rt_ringbuffer \<Rightarrow> u8 list \<Rightarrow> nat \<Rightarrow> nat \<times> rt_ringbuffer" where
  "rt_ringbuffer_put rb ptr len =
     (let size = rt_ringbuffer_space_len rb mod 65536 in
      if size = 0 then (0, rb)
      else
        (let len = (if size < len then size else len)
         in (len, rb_copy_in rb ptr len)))"

definition rt_ringbuffer_put_force :: "rt_ringbuffer \<Rightarrow> u8 list \<Rightarrow> nat \<Rightarrow> nat \<times> rt_ringbuffer" where
  "rt_ringbuffer_put_force rb ptr len =
     (let space_length = rt_ringbuffer_space_len rb mod 65536;
          (ptr, len) = (if len > buffer_size rb then (drop (len - buffer_size rb) ptr, buffer_size rb)
                        else (ptr, len));
          rb' = rb_copy_in rb ptr len
      in if buffer_size rb > write_index rb + len then
           (len, if len > space_length then rb'\<lparr>read_index := write_index rb'\<rparr> else rb')
         else
           (len, if len > space_length
                 then rb'\<lparr>read_mirror := \<not> read_mirror rb', read_index := write_index rb'\<rparr>
                 else rb'))"

text \<open>Result: the count returned and the bytes stored through \<open>ptr\<close>.\<close>

definition rt_ringbuffer_get :: "rt_ringbuffer \<Rightarrow> nat \<Rightarrow> nat \<times> u8 list \<times> rt_ringbuffer" where
  "rt_ringbuffer_get rb len =
     (let size = rt_ringbuffer_data_len rb in
      if size = 0 then (0, [], rb)
      else
        (let len = (if size < len then size else len) in
         if buffer_size rb > read_index rb + len then
           (len, take len (drop (read_index rb) (buffer_ptr rb)),
            rb\<lparr>read_index := idx15 (read_index rb + len)\<rparr>)
         else
           (let n = buffer_size rb - read_index rb in
            (len,
             take n (drop (read_index rb) (buffer_ptr rb)) @ take (len - n) (buffer_ptr rb),
             rb\<lparr>read_mirror := \<not> read_mirror rb, read_index := idx15 (len - n)\<rparr>))))"

definition rt_ringbuffer_putchar :: "rt_ringbuffer \<Rightarrow> u8 \<Rightarrow> nat \<times> rt_ringbuffer" where
  "rt_ringbuffer_putchar rb ch =
     (if rt_ringbuffer_space_len rb = 0 then (0, rb)
      else
        (let rb = rb\<lparr>buffer_ptr := (buffer_ptr rb)[write_index rb := ch]\<rparr> in
         (1, if write_index rb = buffer_size rb - 1
             then rb\<lparr>write_mirror := \<not> write_mirror rb, write_index := 0\<rparr>
             else rb\<lparr>write_index := idx15 (write_index rb + 1)\<rparr>)))"

definition rt_ringbuffer_putchar_force :: "rt_ringbuffer \<Rightarrow> u8 \<Rightarrow> nat \<times> rt_ringbuffer" where
  "rt_ringbuffer_putchar_force rb ch =
     (let old_state = rt_ringbuffer_status rb;
          rb = rb\<lparr>buffer_ptr := (buffer_ptr rb)[write_index rb := ch]\<rparr>
      in (1,
        if write_index rb = buffer_size rb - 1 then
          (let rb = rb\<lparr>write_mirror := \<not> write_mirror rb, write_index := 0\<rparr> in
           if old_state = RT_RINGBUFFER_FULL
           then rb\<lparr>read_mirror := \<not> read_mirror rb, read_index := write_index rb\<rparr>
           else rb)
        else
          (let rb = rb\<lparr>write_index := idx15 (write_index rb + 1)\<rparr> in
           if old_state = RT_RINGBUFFER_FULL then rb\<lparr>read_index := write_index rb\<rparr>
           else rb)))"

definition rt_ringbuffer_getchar :: "rt_ringbuffer \<Rightarrow> (u8 \<times> rt_ringbuffer) option" where
  "rt_ringbuffer_getchar rb =
     (if rt_ringbuffer_data_len rb = 0 then None
      else
        (let ch = buffer_ptr rb ! read_index rb in
         Some (ch,
           if read_index rb = buffer_size rb - 1
           then rb\<lparr>read_mirror := \<not> read_mirror rb, read_index := 0\<rparr>
           else rb\<lparr>read_index := idx15 (read_index rb + 1)\<rparr>)))"

definition rt_ringbuffer_reset :: "rt_ringbuffer \<Rightarrow> rt_ringbuffer" where
  "rt_ringbuffer_reset rb =
     rb\<lparr>read_mirror := False, read_index := 0, write_mirror := False, write_index := 0\<rparr>"

definition rt_ringbuffer_get_size :: "rt_ringbuffer \<Rightarrow> nat" where
  "rt_ringbuffer_get_size rb = buffer_size rb"

text \<open>
  \<open>rt_malloc\<close> for the control block and for the pool: \<open>None\<close> is a failed allocation; the
  pool's bytes are whatever the heap holds.
\<close>

definition rt_ringbuffer_create ::
    "nat \<Rightarrow> unit option \<Rightarrow> u8 list option \<Rightarrow> rt_ringbuffer option" where
  "rt_ringbuffer_create sz rb_mem pool_mem =
     (let sz = RT_ALIGN_DOWN4 sz in
      case rb_mem of
        None \<Rightarrow> None
      | Some _ \<Rightarrow>
          (case pool_mem of
             None \<Rightarrow> None
           | Some pool \<Rightarrow> Some (rt_ringbuffer_init pool sz)))"

section \<open>Abstraction and invariant\<close>

definition rb_inv :: "rt_ringbuffer \<Rightarrow> bool" where
  "rb_inv rb \<longleftrightarrow>
     0 < buffer_size rb \<and> buffer_size rb < 32768 \<and>
     length (buffer_ptr rb) = buffer_size rb \<and>
     read_index rb < buffer_size rb \<and> write_index rb < buffer_size rb \<and>
     (if read_mirror rb = write_mirror rb then read_index rb \<le> write_index rb
      else write_index rb \<le> read_index rb)"

definition rb_contents :: "rt_ringbuffer \<Rightarrow> u8 list" where
  "rb_contents rb =
     map (\<lambda>k. buffer_ptr rb ! ((read_index rb + k) mod buffer_size rb))
       [0..<rt_ringbuffer_data_len rb]"

lemma length_rb_contents [simp]: "length (rb_contents rb) = rt_ringbuffer_data_len rb"
  by (simp add: rb_contents_def)

lemma data_len_eq:
  assumes "rb_inv rb"
  shows "rt_ringbuffer_data_len rb =
     (if read_mirror rb = write_mirror rb then write_index rb - read_index rb
      else buffer_size rb - (read_index rb - write_index rb))"
  using assms
  by (auto simp: rb_inv_def rt_ringbuffer_data_len_def rt_ringbuffer_status_def split: if_splits)

lemma data_len_le: "rb_inv rb \<Longrightarrow> rt_ringbuffer_data_len rb \<le> buffer_size rb"
  by (auto simp: data_len_eq rb_inv_def)

lemma space_len_mod: "rb_inv rb \<Longrightarrow> rt_ringbuffer_space_len rb mod 65536 = rt_ringbuffer_space_len rb"
  by (auto simp: rb_inv_def rt_ringbuffer_space_len_def)

lemma nth_rb_contents:
  assumes "rb_inv rb" "k < rt_ringbuffer_data_len rb"
  shows "rb_contents rb ! k =
    buffer_ptr rb ! (if read_index rb + k < buffer_size rb then read_index rb + k
                     else read_index rb + k - buffer_size rb)"
proof -
  have "read_index rb + k < 2 * buffer_size rb"
    using assms data_len_le [OF assms(1)] by (auto simp: rb_inv_def)
  then show ?thesis
    using assms by (simp add: rb_contents_def mod_less_twice)
qed

section \<open>The block copy\<close>

lemma rb_copy_in_simps:
  assumes "rb_inv rb" "len \<le> buffer_size rb"
  shows "read_index (rb_copy_in rb ptr len) = read_index rb"
    and "read_mirror (rb_copy_in rb ptr len) = read_mirror rb"
    and "buffer_size (rb_copy_in rb ptr len) = buffer_size rb"
    and "write_index (rb_copy_in rb ptr len) =
      (if write_index rb + len < buffer_size rb then write_index rb + len
       else write_index rb + len - buffer_size rb)"
    and "write_mirror (rb_copy_in rb ptr len) =
      (if write_index rb + len < buffer_size rb then write_mirror rb
       else \<not> write_mirror rb)"
  using assms by (auto simp: rb_copy_in_def rb_inv_def idx15_def Let_def)

lemma rb_copy_in_buffer:
  assumes "rb_inv rb" "len \<le> buffer_size rb" "len \<le> length ptr"
  shows "length (buffer_ptr (rb_copy_in rb ptr len)) = buffer_size rb"
    and "j < buffer_size rb \<Longrightarrow> buffer_ptr (rb_copy_in rb ptr len) ! j =
      (if write_index rb \<le> j \<and> j < write_index rb + len then ptr ! (j - write_index rb)
       else if j + buffer_size rb < write_index rb + len
            then ptr ! (j + buffer_size rb - write_index rb)
       else buffer_ptr rb ! j)"
proof -
  let ?S = "buffer_size rb" and ?w = "write_index rb"
  have b: "length (buffer_ptr rb) = ?S" "?w < ?S"
    using assms(1) by (auto simp: rb_inv_def)
  show "length (buffer_ptr (rb_copy_in rb ptr len)) = ?S"
    using assms b by (auto simp: rb_copy_in_def Let_def)
  assume j: "j < ?S"
  show "buffer_ptr (rb_copy_in rb ptr len) ! j =
      (if ?w \<le> j \<and> j < ?w + len then ptr ! (j - ?w)
       else if j + ?S < ?w + len then ptr ! (j + ?S - ?w)
       else buffer_ptr rb ! j)"
  proof (cases "?S > ?w + len")
    case True
    then show ?thesis
      using assms b j by (auto simp: rb_copy_in_def nth_splice_at)
  next
    case False
    define n where "n = ?S - ?w"
    have n: "n \<le> len" "n \<le> length ptr" "?w + n = ?S" "len - n \<le> ?w"
      using False assms b by (auto simp: n_def)
    have "buffer_ptr (rb_copy_in rb ptr len) =
        splice_at 0 (take (len - n) (drop n ptr)) (splice_at ?w (take n ptr) (buffer_ptr rb))"
      using False by (simp add: rb_copy_in_def n_def Let_def)
    also have "\<dots> ! j = (if j < len - n then ptr ! (n + j)
        else if ?w \<le> j then ptr ! (j - ?w) else buffer_ptr rb ! j)"
      using n assms(3) b j by (simp add: nth_splice_at)
    also have "\<dots> = (if ?w \<le> j \<and> j < ?w + len then ptr ! (j - ?w)
       else if j + ?S < ?w + len then ptr ! (j + ?S - ?w)
       else buffer_ptr rb ! j)"
    proof -
      have "j < len - n \<longleftrightarrow> j + ?S < ?w + len" using n by linarith
      moreover have "n + j = j + ?S - ?w" using n by linarith
      moreover have "j < ?w + len" if "?w \<le> j" using j n that by linarith
      moreover have "j < ?w" if "j < len - n" using n that by linarith
      ultimately show ?thesis by auto
    qed
    finally show ?thesis .
  qed
qed

lemma rb_copy_in_inv:
  assumes "rb_inv rb" "len \<le> rt_ringbuffer_space_len rb" "len \<le> length ptr"
  shows "rb_inv (rb_copy_in rb ptr len)"
proof -
  have le: "len \<le> buffer_size rb" using assms(2) by (simp add: rt_ringbuffer_space_len_def)
  show ?thesis
    using assms le rb_copy_in_simps [OF assms(1) le, of ptr] rb_copy_in_buffer(1) [OF assms(1) le assms(3)]
    by (auto simp: rb_inv_def rt_ringbuffer_space_len_def data_len_eq split: if_splits)
qed

lemma rb_copy_in_data_len:
  assumes "rb_inv rb" "len \<le> rt_ringbuffer_space_len rb" "len \<le> length ptr"
  shows "rt_ringbuffer_data_len (rb_copy_in rb ptr len) = rt_ringbuffer_data_len rb + len"
proof -
  have le: "len \<le> buffer_size rb" using assms(2) by (simp add: rt_ringbuffer_space_len_def)
  show ?thesis
    using assms le rb_copy_in_simps [OF assms(1) le, of ptr]
    by (auto simp: data_len_eq [OF rb_copy_in_inv] data_len_eq rb_inv_def rt_ringbuffer_space_len_def)
qed

lemma rb_copy_in_contents:
  assumes "rb_inv rb" "len \<le> rt_ringbuffer_space_len rb" "len \<le> length ptr"
  shows "rb_contents (rb_copy_in rb ptr len) = rb_contents rb @ take len ptr"
proof (rule nth_equalityI)
  let ?rb = "rb_copy_in rb ptr len" and ?D = "rt_ringbuffer_data_len rb"
  have le: "len \<le> buffer_size rb" using assms(2) by (simp add: rt_ringbuffer_space_len_def)
  note inv' = rb_copy_in_inv [OF assms]
  note D' = rb_copy_in_data_len [OF assms]
  note S = rb_copy_in_simps [OF assms(1) le, of ptr]
  show "length (rb_contents ?rb) = length (rb_contents rb @ take len ptr)"
    using assms by (simp add: D')
  fix k
  assume "k < length (rb_contents ?rb)"
  then have k: "k < ?D + len" by (simp add: D')
  let ?j = "if read_index rb + k < buffer_size rb then read_index rb + k
            else read_index rb + k - buffer_size rb"
  have cap: "?D + len \<le> buffer_size rb"
    using assms(2) data_len_le [OF assms(1)] by (simp add: rt_ringbuffer_space_len_def)
  have j: "?j < buffer_size rb" using k cap assms(1) by (auto simp: rb_inv_def)
  have "rb_contents ?rb ! k = buffer_ptr ?rb ! ?j"
    using k by (simp add: nth_rb_contents [OF inv'] D' S)
  also have "\<dots> = (rb_contents rb @ take len ptr) ! k"
  proof (cases "k < ?D")
    case True
    have "buffer_ptr ?rb ! ?j = buffer_ptr rb ! ?j"
      unfolding rb_copy_in_buffer(2) [OF assms(1) le assms(3) j]
      using True k cap assms(1) by (auto simp: rb_inv_def data_len_eq [OF assms(1)] split: if_splits)
    also have "\<dots> = rb_contents rb ! k"
      using True assms(1) by (simp add: nth_rb_contents)
    finally show ?thesis using True by (simp add: nth_append)
  next
    case False
    have "buffer_ptr ?rb ! ?j = ptr ! (k - ?D)"
      unfolding rb_copy_in_buffer(2) [OF assms(1) le assms(3) j]
      using False k cap assms(1)
      by (auto simp: rb_inv_def data_len_eq [OF assms(1)] intro!: arg_cong [where f = "nth ptr"] split: if_splits)
    then show ?thesis using False k by (simp add: nth_append)
  qed
  finally show "rb_contents ?rb ! k = (rb_contents rb @ take len ptr) ! k" .
qed

section \<open>Storing\<close>

lemma put_eq:
  assumes "rb_inv rb"
  shows "rt_ringbuffer_put rb ptr len =
    (let n = min len (rt_ringbuffer_space_len rb) in (n, if n = 0 \<and> rt_ringbuffer_space_len rb = 0 then rb else rb_copy_in rb ptr n))"
  using space_len_mod [OF assms] by (auto simp: rt_ringbuffer_put_def Let_def min_def)

lemma put_count: "rb_inv rb \<Longrightarrow> fst (rt_ringbuffer_put rb ptr len) = min len (rt_ringbuffer_space_len rb)"
  by (simp add: put_eq Let_def)

lemma put_inv: "rb_inv rb \<Longrightarrow> len \<le> length ptr \<Longrightarrow> rb_inv (snd (rt_ringbuffer_put rb ptr len))"
  by (auto simp: put_eq Let_def intro!: rb_copy_in_inv)

lemma put_contents:
  "rb_inv rb \<Longrightarrow> len \<le> length ptr \<Longrightarrow>
   rb_contents (snd (rt_ringbuffer_put rb ptr len)) =
     rb_contents rb @ take (min len (rt_ringbuffer_space_len rb)) ptr"
  by (auto simp: put_eq Let_def rb_copy_in_contents)

lemma put_size: "rb_inv rb \<Longrightarrow> buffer_size (snd (rt_ringbuffer_put rb ptr len)) = buffer_size rb"
  by (auto simp: put_eq Let_def rb_copy_in_simps rt_ringbuffer_space_len_def)

section \<open>Taking\<close>

lemma rb_contents_read:
  assumes "rb_inv rb" "n \<le> rt_ringbuffer_data_len rb"
    and "read_index rb' = (if read_index rb + n < buffer_size rb then read_index rb + n
                           else read_index rb + n - buffer_size rb)"
    and "read_mirror rb' = (if read_index rb + n < buffer_size rb then read_mirror rb
                            else \<not> read_mirror rb)"
    and "buffer_ptr rb' = buffer_ptr rb" "buffer_size rb' = buffer_size rb"
    and "write_index rb' = write_index rb" "write_mirror rb' = write_mirror rb"
  shows "rb_inv rb'" "rt_ringbuffer_data_len rb' = rt_ringbuffer_data_len rb - n"
    and "rb_contents rb' = drop n (rb_contents rb)"
proof -
  show inv': "rb_inv rb'"
    using assms by (auto simp: rb_inv_def data_len_eq split: if_splits)
  show D': "rt_ringbuffer_data_len rb' = rt_ringbuffer_data_len rb - n"
    using assms by (auto simp: data_len_eq [OF inv'] data_len_eq [OF assms(1)] rb_inv_def split: if_splits)
  show "rb_contents rb' = drop n (rb_contents rb)"
  proof (rule nth_equalityI)
    show "length (rb_contents rb') = length (drop n (rb_contents rb))" by (simp add: D')
    fix k
    assume "k < length (rb_contents rb')"
    then have k: "k < rt_ringbuffer_data_len rb - n" by (simp add: D')
    then have "n + k < rt_ringbuffer_data_len rb" by simp
    with assms(1) have "drop n (rb_contents rb) ! k =
      buffer_ptr rb ! (if read_index rb + (n + k) < buffer_size rb then read_index rb + (n + k)
                     else read_index rb + (n + k) - buffer_size rb)"
      by (simp add: nth_rb_contents)
    moreover have "rb_contents rb' ! k =
      buffer_ptr rb ! (if read_index rb' + k < buffer_size rb then read_index rb' + k
                     else read_index rb' + k - buffer_size rb)"
      using k by (simp add: nth_rb_contents [OF inv'] D' assms)
    moreover have "(if read_index rb' + k < buffer_size rb then read_index rb' + k
                     else read_index rb' + k - buffer_size rb)
        = (if read_index rb + (n + k) < buffer_size rb then read_index rb + (n + k)
                     else read_index rb + (n + k) - buffer_size rb)"
      using k data_len_le [OF assms(1)] assms(1,3) by (auto simp: rb_inv_def)
    ultimately show "rb_contents rb' ! k = drop n (rb_contents rb) ! k" by simp
  qed
qed

lemma rb_contents_prefix:
  assumes "rb_inv rb" "n \<le> rt_ringbuffer_data_len rb"
  shows "take n (rb_contents rb) =
    (if read_index rb + n < buffer_size rb then take n (drop (read_index rb) (buffer_ptr rb))
     else take (buffer_size rb - read_index rb) (drop (read_index rb) (buffer_ptr rb))
          @ take (n - (buffer_size rb - read_index rb)) (buffer_ptr rb))"
    (is "_ = ?r")
proof (rule nth_equalityI)
  have len: "length (buffer_ptr rb) = buffer_size rb" "read_index rb < buffer_size rb"
    "n \<le> buffer_size rb"
    using assms data_len_le [OF assms(1)] by (auto simp: rb_inv_def)
  show "length (take n (rb_contents rb)) = length ?r"
    using assms len by auto
  fix k
  assume "k < length (take n (rb_contents rb))"
  then have k: "k < n" "k < rt_ringbuffer_data_len rb" by auto
  then have "take n (rb_contents rb) ! k =
    buffer_ptr rb ! (if read_index rb + k < buffer_size rb then read_index rb + k
                     else read_index rb + k - buffer_size rb)"
    using assms by (simp add: nth_rb_contents)
  also have "\<dots> = ?r ! k"
    using k len by (auto simp: nth_append intro!: arg_cong [where f = "nth (buffer_ptr rb)"])
  finally show "take n (rb_contents rb) ! k = ?r ! k" .
qed

lemma get_eq:
  assumes "rb_inv rb" "rt_ringbuffer_get rb len = (n, bs, rb')"
  shows "n = min len (rt_ringbuffer_data_len rb)" "bs = take n (rb_contents rb)"
    "rb_contents rb' = drop n (rb_contents rb)" "rb_inv rb'" "buffer_size rb' = buffer_size rb"
proof -
  let ?D = "rt_ringbuffer_data_len rb"
  show n: "n = min len ?D"
    using assms(2) by (auto simp: rt_ringbuffer_get_def Let_def min_def split: if_splits)
  then have nD: "n \<le> ?D" by simp
  show "bs = take n (rb_contents rb)"
    using assms(2) rb_contents_prefix [OF assms(1) nD]
    by (auto simp: rt_ringbuffer_get_def Let_def n min_def split: if_splits)
  have r: "read_index rb' = (if read_index rb + n < buffer_size rb then read_index rb + n
                           else read_index rb + n - buffer_size rb)"
    "read_mirror rb' = (if read_index rb + n < buffer_size rb then read_mirror rb
                            else \<not> read_mirror rb)"
    "buffer_ptr rb' = buffer_ptr rb" "buffer_size rb' = buffer_size rb"
    "write_index rb' = write_index rb" "write_mirror rb' = write_mirror rb"
    using assms data_len_le [OF assms(1)]
    by (auto simp: rt_ringbuffer_get_def Let_def n min_def idx15_def rb_inv_def split: if_splits)
  show "rb_contents rb' = drop n (rb_contents rb)" "rb_inv rb'" "buffer_size rb' = buffer_size rb"
    using rb_contents_read [OF assms(1) nD r] r by auto
qed

lemma getchar_None: "rt_ringbuffer_getchar rb = None \<longleftrightarrow> rt_ringbuffer_data_len rb = 0"
  by (simp add: rt_ringbuffer_getchar_def Let_def)

lemma getchar_Some:
  assumes "rb_inv rb" "rt_ringbuffer_getchar rb = Some (ch, rb')"
  shows "rb_contents rb = ch # rb_contents rb'" "rb_inv rb'" "buffer_size rb' = buffer_size rb"
proof -
  have D: "1 \<le> rt_ringbuffer_data_len rb"
    using assms(2) by (auto simp: rt_ringbuffer_getchar_def split: if_splits)
  have r: "read_index rb' = (if read_index rb + 1 < buffer_size rb then read_index rb + 1
                           else read_index rb + 1 - buffer_size rb)"
    "read_mirror rb' = (if read_index rb + 1 < buffer_size rb then read_mirror rb
                            else \<not> read_mirror rb)"
    "buffer_ptr rb' = buffer_ptr rb" "buffer_size rb' = buffer_size rb"
    "write_index rb' = write_index rb" "write_mirror rb' = write_mirror rb"
    using assms
    by (auto simp: rt_ringbuffer_getchar_def Let_def idx15_def rb_inv_def split: if_splits)
  have "rb_contents rb ! 0 = ch"
    using assms D by (auto simp: nth_rb_contents rt_ringbuffer_getchar_def rb_inv_def Let_def split: if_splits)
  moreover have "rb_contents rb \<noteq> []" using D by (metis length_rb_contents list.size(3) not_one_le_zero)
  ultimately have "rb_contents rb = ch # drop 1 (rb_contents rb)"
    by (cases "rb_contents rb") auto
  then show "rb_contents rb = ch # rb_contents rb'"
    using rb_contents_read(3) [OF assms(1) D r] by simp
  show "rb_inv rb'" "buffer_size rb' = buffer_size rb"
    using rb_contents_read(1) [OF assms(1) D r] r by auto
qed

section \<open>Storing with overwriting\<close>

text \<open>The bytes that an overwriting put stores: the last \<open>buffer_size\<close> of the block.\<close>

definition force_block :: "rt_ringbuffer \<Rightarrow> u8 list \<Rightarrow> nat \<Rightarrow> u8 list" where
  "force_block rb ptr len = lastn (buffer_size rb) (take len ptr)"

lemma put_force_eq:
  assumes "rb_inv rb" "len \<le> length ptr"
  shows "rt_ringbuffer_put_force rb ptr len =
    (let ds = force_block rb ptr len; n = length ds; rb' = rb_copy_in rb ds n
     in (n, if n \<le> rt_ringbuffer_space_len rb then rb'
            else if write_index rb + n < buffer_size rb then rb'\<lparr>read_index := write_index rb'\<rparr>
            else rb'\<lparr>read_mirror := \<not> read_mirror rb', read_index := write_index rb'\<rparr>))"
proof -
  have cut: "rb_copy_in rb ps m = rb_copy_in rb (take m ps) m" if "m \<le> length ps" for ps m
    using assms(1) that by (auto simp: rb_copy_in_def Let_def take_drop rb_inv_def)
  show ?thesis
  proof (cases "len > buffer_size rb")
    case True
    have "take (buffer_size rb) (drop (len - buffer_size rb) ptr) = force_block rb ptr len"
      using True assms(2) by (simp add: force_block_def lastn_def drop_take)
    then show ?thesis
      using True assms space_len_mod [OF assms(1)] cut [of "buffer_size rb" "drop (len - buffer_size rb) ptr"]
      by (auto simp: rt_ringbuffer_put_force_def Let_def force_block_def)
  next
    case False
    then show ?thesis
      using assms space_len_mod [OF assms(1)] cut [of len ptr]
      by (auto simp: rt_ringbuffer_put_force_def Let_def force_block_def)
  qed
qed

lemma overwrite_full:
  assumes "rb_inv rb" "read_mirror rb \<noteq> write_mirror rb" "length ds \<le> buffer_size rb"
    and "length ds > rt_ringbuffer_space_len rb"
    and rb': "rb' = rb_copy_in rb ds (length ds)"
    and rb'': "rb'' = rb'\<lparr>read_mirror := \<not> write_mirror rb', read_index := write_index rb'\<rparr>"
  shows "rb_inv rb''" "rt_ringbuffer_data_len rb'' = buffer_size rb"
    "rb_contents rb'' = lastn (buffer_size rb) (rb_contents rb @ ds)"
proof -
  let ?S = "buffer_size rb" and ?n = "length ds" and ?w = "write_index rb" and ?r = "read_index rb"
  note S = rb_copy_in_simps [OF assms(1,3), of ds, folded rb']
  note B = rb_copy_in_buffer [OF assms(1,3), of ds, folded rb']
  show inv'': "rb_inv rb''"
    using assms(1,3) B(1) by (auto simp: rb'' S rb_inv_def)
  show D'': "rt_ringbuffer_data_len rb'' = ?S"
    unfolding data_len_eq [OF inv''] by (simp add: rb'' S)
  have i: "?w \<le> ?r" "?r < ?S" "0 < ?S" "rt_ringbuffer_data_len rb = ?S - (?r - ?w)" "?r - ?w < ?n"
    using assms by (auto simp: rb_inv_def data_len_eq [OF assms(1)] rt_ringbuffer_space_len_def)
  show "rb_contents rb'' = lastn ?S (rb_contents rb @ ds)"
  proof (rule nth_equalityI)
    show "length (rb_contents rb'') = length (lastn ?S (rb_contents rb @ ds))"
      using i by (simp add: D'')
    fix k
    assume "k < length (rb_contents rb'')"
    then have k: "k < ?S" by (simp add: D'')
    let ?w' = "if ?w + ?n < ?S then ?w + ?n else ?w + ?n - ?S"
    let ?j = "if ?w' + k < ?S then ?w' + k else ?w' + k - ?S"
    have j: "?j < ?S" using k i assms(3) by auto
    have f: "read_index rb'' = ?w'" "buffer_size rb'' = ?S" "buffer_ptr rb'' = buffer_ptr rb'"
      by (simp_all add: rb'' S)
    have "rb_contents rb'' ! k = buffer_ptr rb' ! ?j"
      using k nth_rb_contents [OF inv'', of k] by (simp only: D'' f)
    also have "\<dots> = lastn ?S (rb_contents rb @ ds) ! k"
    proof (cases "k < ?S - ?n")
      case True
      have c: "lastn ?S (rb_contents rb @ ds) ! k = rb_contents rb ! (?n - (?r - ?w) + k)"
        using True k i assms(3)
        by (auto simp: lastn_def nth_append intro!: arg_cong [where f = "nth (rb_contents rb)"])
      have "buffer_ptr rb' ! ?j = buffer_ptr rb ! ?j"
        unfolding B(2) [OF order_refl j] using True k i assms(3) by auto
      also have "\<dots> = rb_contents rb ! (?n - (?r - ?w) + k)"
        using True k i assms(1,3)
        by (auto simp: nth_rb_contents intro!: arg_cong [where f = "nth (buffer_ptr rb)"])
      finally show ?thesis using c by simp
    next
      case False
      have c: "lastn ?S (rb_contents rb @ ds) ! k = ds ! (k - (?S - ?n))"
        using False k i assms(3) by (auto simp: lastn_def nth_append intro!: arg_cong [where f = "nth ds"])
      show ?thesis
        unfolding c B(2) [OF order_refl j]
        using False k i assms(3) by (auto intro!: arg_cong [where f = "nth ds"])
    qed
    finally show "rb_contents rb'' ! k = lastn ?S (rb_contents rb @ ds) ! k" .
  qed
qed

lemma length_force_block:
  "len \<le> length ptr \<Longrightarrow> length (force_block rb ptr len) = min (buffer_size rb) len"
  by (simp add: force_block_def)

lemma put_force_fits:
  assumes "rb_inv rb" "len \<le> length ptr" "min (buffer_size rb) len \<le> rt_ringbuffer_space_len rb"
  shows "rb_inv (snd (rt_ringbuffer_put_force rb ptr len))"
    "rb_contents (snd (rt_ringbuffer_put_force rb ptr len)) = rb_contents rb @ force_block rb ptr len"
  using assms rb_copy_in_inv [OF assms(1), of _ "force_block rb ptr len"]
    rb_copy_in_contents [OF assms(1), of _ "force_block rb ptr len"]
  by (simp_all add: put_force_eq Let_def length_force_block)

lemma put_force_overwrites:
  assumes "rb_inv rb" "len \<le> length ptr" "\<not> min (buffer_size rb) len \<le> rt_ringbuffer_space_len rb"
    "read_mirror rb \<noteq> write_mirror rb"
  shows "rb_inv (snd (rt_ringbuffer_put_force rb ptr len))"
    "rb_contents (snd (rt_ringbuffer_put_force rb ptr len)) =
       lastn (buffer_size rb) (rb_contents rb @ force_block rb ptr len)"
proof -
  let ?ds = "force_block rb ptr len"
  let ?rb' = "rb_copy_in rb ?ds (length ?ds)"
  have n: "length ?ds \<le> buffer_size rb" "length ?ds > rt_ringbuffer_space_len rb"
    using assms by (auto simp: length_force_block)
  have rm: "read_mirror rb = (\<not> write_mirror rb)" using assms(4) by blast
  have "snd (rt_ringbuffer_put_force rb ptr len) =
      ?rb'\<lparr>read_mirror := \<not> write_mirror ?rb', read_index := write_index ?rb'\<rparr>"
  proof (cases "write_index rb + length ?ds < buffer_size rb")
    case True
    moreover have "read_mirror ?rb' = (\<not> write_mirror ?rb')"
      using True rm n(1) assms(1) by (simp add: rb_copy_in_simps)
    then have "?rb'\<lparr>read_index := write_index ?rb'\<rparr> =
        ?rb'\<lparr>read_mirror := \<not> write_mirror ?rb', read_index := write_index ?rb'\<rparr>"
      by (cases ?rb') simp
    ultimately show ?thesis
      using n(2) by (simp add: put_force_eq [OF assms(1,2)] Let_def)
  next
    case False
    moreover have "(\<not> read_mirror ?rb') = (\<not> write_mirror ?rb')"
      using False rm n(1) assms(1) by (simp add: rb_copy_in_simps)
    ultimately show ?thesis
      using n(2) by (simp add: put_force_eq [OF assms(1,2)] Let_def)
  qed
  then show "rb_inv (snd (rt_ringbuffer_put_force rb ptr len))"
    "rb_contents (snd (rt_ringbuffer_put_force rb ptr len)) = lastn (buffer_size rb) (rb_contents rb @ ?ds)"
    using overwrite_full(1,3) [OF assms(1,4) n refl refl] by simp_all
qed

lemma put_force_loses:
  assumes "rb_inv rb" "len \<le> length ptr" "\<not> min (buffer_size rb) len \<le> rt_ringbuffer_space_len rb"
    "read_mirror rb = write_mirror rb"
  shows "rb_inv (snd (rt_ringbuffer_put_force rb ptr len))"
    "rb_contents (snd (rt_ringbuffer_put_force rb ptr len)) = []"
proof -
  let ?ds = "force_block rb ptr len"
  let ?rb' = "rb_copy_in rb ?ds (length ?ds)"
  have n: "length ?ds \<le> buffer_size rb" "length ?ds > rt_ringbuffer_space_len rb"
    using assms by (auto simp: length_force_block)
  have wrap: "\<not> write_index rb + length ?ds < buffer_size rb"
    using n(2) assms(1,4) by (auto simp: rt_ringbuffer_space_len_def data_len_eq rb_inv_def)
  have eq: "snd (rt_ringbuffer_put_force rb ptr len) =
      ?rb'\<lparr>read_mirror := \<not> read_mirror ?rb', read_index := write_index ?rb'\<rparr>"
    using wrap n(2) by (simp add: put_force_eq [OF assms(1,2)] Let_def)
  show inv': "rb_inv (snd (rt_ringbuffer_put_force rb ptr len))"
    using assms(1,4) n(1) wrap rb_copy_in_buffer(1) [OF assms(1) n(1) order_refl]
    by (auto simp: eq rb_inv_def rb_copy_in_simps)
  have "rt_ringbuffer_data_len (snd (rt_ringbuffer_put_force rb ptr len)) = 0"
    unfolding data_len_eq [OF inv'] using assms(1,4) n(1) wrap by (simp add: eq rb_copy_in_simps)
  then show "rb_contents (snd (rt_ringbuffer_put_force rb ptr len)) = []"
    by (simp add: rb_contents_def)
qed

section \<open>Single characters, init and reset\<close>

lemma putchar_as_put:
  assumes "rb_inv rb" "rt_ringbuffer_space_len rb \<noteq> 0"
  shows "rt_ringbuffer_putchar rb ch = (1, rb_copy_in rb [ch] 1)"
  using assms
  by (auto simp: rt_ringbuffer_putchar_def rb_copy_in_def splice_at_def upd_conv_take_nth_drop
      idx15_def rb_inv_def Let_def)

lemma putchar_contents:
  assumes "rb_inv rb"
  shows "rb_inv (snd (rt_ringbuffer_putchar rb ch))"
    and "rb_contents (snd (rt_ringbuffer_putchar rb ch)) =
      (if rt_ringbuffer_space_len rb = 0 then rb_contents rb else rb_contents rb @ [ch])"
  using assms rb_copy_in_inv [OF assms, of 1 "[ch]"] rb_copy_in_contents [OF assms, of 1 "[ch]"]
  by (cases "rt_ringbuffer_space_len rb = 0"; simp add: putchar_as_put; simp add: rt_ringbuffer_putchar_def)+

lemma status_full:
  assumes "rb_inv rb"
  shows "rt_ringbuffer_status rb = RT_RINGBUFFER_FULL \<longleftrightarrow> rt_ringbuffer_space_len rb = 0"
  using assms
  by (auto simp: rt_ringbuffer_status_def rt_ringbuffer_space_len_def data_len_eq rb_inv_def split: if_splits)

lemma putchar_force_contents:
  assumes "rb_inv rb"
  shows "rb_inv (snd (rt_ringbuffer_putchar_force rb ch))"
    and "rb_contents (snd (rt_ringbuffer_putchar_force rb ch)) =
      lastn (buffer_size rb) (rb_contents rb @ [ch])"
proof -
  let ?rb' = "rb_copy_in rb [ch] (length [ch])"
  have S: "0 < buffer_size rb" "length [ch] \<le> buffer_size rb" using assms by (auto simp: rb_inv_def)
  have upd: "(buffer_ptr rb)[write_index rb := ch] = splice_at (write_index rb) [ch] (buffer_ptr rb)"
    using assms by (simp add: splice_at_def upd_conv_take_nth_drop rb_inv_def)
  have "rb_inv (snd (rt_ringbuffer_putchar_force rb ch)) \<and>
    rb_contents (snd (rt_ringbuffer_putchar_force rb ch)) = lastn (buffer_size rb) (rb_contents rb @ [ch])"
  proof (cases "rt_ringbuffer_space_len rb = 0")
    case False
    then have "rt_ringbuffer_putchar_force rb ch = rt_ringbuffer_putchar rb ch"
      using assms status_full [OF assms] by (auto simp: rt_ringbuffer_putchar_force_def rt_ringbuffer_putchar_def Let_def)
    then show ?thesis
      using assms False putchar_contents [OF assms, of ch] by (simp add: rt_ringbuffer_space_len_def)
  next
    case True
    then have full: "read_mirror rb \<noteq> write_mirror rb" "length [ch] > rt_ringbuffer_space_len rb"
      using assms by (auto simp: rt_ringbuffer_space_len_def data_len_eq rb_inv_def split: if_splits)
    have st: "rt_ringbuffer_status rb = RT_RINGBUFFER_FULL"
      using True by (simp add: status_full [OF assms])
    have "rt_ringbuffer_putchar_force rb ch =
        (1, ?rb'\<lparr>read_mirror := \<not> write_mirror ?rb', read_index := write_index ?rb'\<rparr>)"
    proof (cases "write_index rb = buffer_size rb - 1")
      case at_end: True
      then have "\<not> buffer_size rb > write_index rb + 1" "buffer_size rb - write_index rb = 1"
        using S by simp_all
      moreover have "length (buffer_ptr rb) = buffer_size rb" using assms by (simp add: rb_inv_def)
      ultimately show ?thesis
        using at_end full(1) S
        by (auto simp: rt_ringbuffer_putchar_force_def st rb_copy_in_def upd Let_def idx15_def
            splice_at_def upd_conv_take_nth_drop intro!: rt_ringbuffer.equality)
    next
      case inside: False
      then have "buffer_size rb > write_index rb + 1" using assms by (auto simp: rb_inv_def)
      then show ?thesis
        using inside full(1)
        by (auto simp: rt_ringbuffer_putchar_force_def st rb_copy_in_def upd Let_def
            intro!: rt_ringbuffer.equality)
    qed
    then show ?thesis using overwrite_full(1,3) [OF assms full(1) S(2) full(2) refl refl] by simp
  qed
  then show "rb_inv (snd (rt_ringbuffer_putchar_force rb ch))"
    "rb_contents (snd (rt_ringbuffer_putchar_force rb ch)) = lastn (buffer_size rb) (rb_contents rb @ [ch])"
    by simp_all
qed

lemma init_inv:
  assumes "4 \<le> sz" "sz < 32768" "length pool = RT_ALIGN_DOWN4 sz"
  shows "rb_inv (rt_ringbuffer_init pool sz)" "rb_contents (rt_ringbuffer_init pool sz) = []"
proof -
  have "sz mod 4 < 4" by simp
  with assms(1,2) have "0 < sz - sz mod 4" "sz - sz mod 4 < 32768" by linarith+
  then show inv: "rb_inv (rt_ringbuffer_init pool sz)"
    using assms(3) by (simp add: rb_inv_def rt_ringbuffer_init_def RT_ALIGN_DOWN4_def)
  show "rb_contents (rt_ringbuffer_init pool sz) = []"
    by (simp add: rb_contents_def data_len_eq [OF inv]) (simp add: rt_ringbuffer_init_def)
qed

lemma reset_inv:
  assumes "rb_inv rb"
  shows "rb_inv (rt_ringbuffer_reset rb)" "rb_contents (rt_ringbuffer_reset rb) = []"
proof -
  show inv: "rb_inv (rt_ringbuffer_reset rb)"
    using assms by (simp add: rb_inv_def rt_ringbuffer_reset_def)
  show "rb_contents (rt_ringbuffer_reset rb) = []"
    by (simp add: rb_contents_def data_len_eq [OF inv]) (simp add: rt_ringbuffer_reset_def)
qed

section \<open>The interface the receiver relies on\<close>

text \<open>
  A source of bytes that a reader empties one byte at a time: what
  \<open>protocol_recev_data\<close> needs of the ring buffer. The client lemma says that asking for the
  length and taking a byte while it is not zero hands out exactly the abstract contents, in
  order.
\<close>

locale byte_source =
  fixes avail :: "'s \<Rightarrow> nat"
    and take_byte :: "'s \<Rightarrow> (u8 \<times> 's) option"
    and bytes :: "'s \<Rightarrow> u8 list"
    and good :: "'s \<Rightarrow> bool"
  assumes avail_bytes: "good s \<Longrightarrow> avail s = length (bytes s)"
    and take_byte_iff: "take_byte s = None \<longleftrightarrow> avail s = 0"
    and take_byte_bytes: "good s \<Longrightarrow> take_byte s = Some (b, s') \<Longrightarrow> bytes s = b # bytes s'"
    and take_byte_good: "good s \<Longrightarrow> take_byte s = Some (b, s') \<Longrightarrow> good s'"
begin

lemma take_nil:
  assumes "good s" "bytes s = []"
  shows "avail s = 0" "take_byte s = None"
  using assms by (simp_all add: avail_bytes take_byte_iff)

lemma take_cons:
  assumes "good s" "bytes s = b # bs"
  obtains s' where "take_byte s = Some (b, s')" "bytes s' = bs" "good s'" "avail s \<noteq> 0"
proof -
  have "take_byte s \<noteq> None" using assms by (simp add: take_byte_iff avail_bytes)
  then obtain c s' where c: "take_byte s = Some (c, s')" by auto
  with assms take_byte_bytes have "c = b" "bytes s' = bs" by fastforce+
  with c that assms show thesis by (simp add: take_byte_good avail_bytes)
qed

end

interpretation rb_source: byte_source rt_ringbuffer_data_len rt_ringbuffer_getchar rb_contents rb_inv
  by unfold_locales (auto simp: getchar_None dest: getchar_Some)

section \<open>Buffers with given contents\<close>

text \<open>The 256-byte buffer of the application, filled with the given bytes.\<close>

definition rb_of :: "u8 list \<Rightarrow> rt_ringbuffer" where
  "rb_of bs = snd (rt_ringbuffer_put (rt_ringbuffer_init (replicate 256 0) 256) bs (length bs))"

lemma rb_of:
  assumes "length bs \<le> 256"
  shows "rb_inv (rb_of bs)" "rb_contents (rb_of bs) = bs"
proof -
  let ?rb = "rt_ringbuffer_init (replicate 256 0) 256"
  have i: "rb_inv ?rb" "rb_contents ?rb = []"
    using init_inv [of 256 "replicate 256 0"] by (simp_all add: RT_ALIGN_DOWN4_def)
  then have "rt_ringbuffer_data_len ?rb = 0" by (metis length_rb_contents list.size(3))
  then have "rt_ringbuffer_space_len ?rb = 256"
    by (simp add: rt_ringbuffer_space_len_def) (simp add: rt_ringbuffer_init_def RT_ALIGN_DOWN4_def)
  with i assms show "rb_inv (rb_of bs)" "rb_contents (rb_of bs) = bs"
    by (simp_all add: rb_of_def put_inv put_contents)
qed

section \<open>Properties\<close>

text \<open>C23: \<open>rt_ringbuffer_put\<close> refines the bounded queue: it returns how many bytes fit, stores
  exactly these behind the bytes already stored, in order, and keeps the representation
  invariant.\<close>

theorem ring_put_appends:
  assumes "rb_inv rb" "len \<le> length ptr" "rt_ringbuffer_put rb ptr len = (n, rb')"
  shows "n = min len (rt_ringbuffer_space_len rb) \<and> rb_contents rb' = rb_contents rb @ take n ptr \<and>
    rb_inv rb' \<and> buffer_size rb' = buffer_size rb"
  using put_count [OF assms(1), of ptr len] put_contents [OF assms(1,2)] put_inv [OF assms(1,2)]
    put_size [OF assms(1), of ptr len] assms(3)
  by simp

theorem ring_put_appends_witness:
  "\<exists>n rb'. rt_ringbuffer_put (rb_of [1, 2]) [7, 8, 9] 3 = (n, rb') \<and>
     n = min 3 (rt_ringbuffer_space_len (rb_of [1, 2])) \<and> rb_contents rb' = [1, 2] @ take n [7, 8, 9]"
proof -
  obtain n rb' where p: "rt_ringbuffer_put (rb_of [1, 2]) [7, 8, 9] 3 = (n, rb')"
    by (cases "rt_ringbuffer_put (rb_of [1, 2]) [7, 8, 9] 3")
  have i: "rb_inv (rb_of [1, 2])" "rb_contents (rb_of [1, 2]) = [1, 2]" by (rule rb_of, simp)+
  from ring_put_appends [OF i(1) _ p] i(2) p show ?thesis by simp
qed

text \<open>C24: \<open>rt_ringbuffer_get\<close> hands out the oldest bytes, as many as asked for and stored, and
  leaves the others stored in order.\<close>

theorem ring_get_takes_oldest:
  assumes "rb_inv rb" "rt_ringbuffer_get rb len = (n, bs, rb')"
  shows "n = min len (rt_ringbuffer_data_len rb) \<and> bs @ rb_contents rb' = rb_contents rb \<and>
    length bs = n \<and> rb_inv rb'"
  using get_eq [OF assms] by simp

theorem ring_get_takes_oldest_witness:
  "\<exists>n bs rb'. rt_ringbuffer_get (rb_of [1, 2, 3]) 2 = (n, bs, rb') \<and>
     n = min 2 (rt_ringbuffer_data_len (rb_of [1, 2, 3])) \<and> bs @ rb_contents rb' = [1, 2, 3]"
proof -
  obtain n bs rb' where g: "rt_ringbuffer_get (rb_of [1, 2, 3]) 2 = (n, bs, rb')"
    by (cases "rt_ringbuffer_get (rb_of [1, 2, 3]) 2")
  have i: "rb_inv (rb_of [1, 2, 3])" "rb_contents (rb_of [1, 2, 3]) = [1, 2, 3]" by (rule rb_of, simp)+
  from ring_get_takes_oldest [OF i(1) g] i(2) g show ?thesis by simp
qed

text \<open>C33: \<open>rt_ringbuffer_put_force\<close> in full. While the block fits it is a put; when it does not and
  the read and write positions are in different mirrors, the last \<open>buffer_size\<close> bytes of old
  and new data are kept; when they are in the same mirror the buffer is empty afterwards, so
  that the old and the new bytes are all lost.\<close>

theorem ring_put_force_cases:
  assumes "rb_inv rb" "len \<le> length ptr" "rt_ringbuffer_put_force rb ptr len = (n, rb')"
  shows "rb_inv rb' \<and> n = min (buffer_size rb) len \<and>
    rb_contents rb' =
      (if n \<le> rt_ringbuffer_space_len rb then rb_contents rb @ force_block rb ptr len
       else if read_mirror rb \<noteq> write_mirror rb
            then lastn (buffer_size rb) (rb_contents rb @ force_block rb ptr len)
       else [])"
proof -
  have n: "n = min (buffer_size rb) len"
    using assms by (auto simp: put_force_eq Let_def length_force_block)
  have rb': "rb' = snd (rt_ringbuffer_put_force rb ptr len)" using assms(3) by simp
  show ?thesis
    using put_force_fits [OF assms(1,2)] put_force_overwrites [OF assms(1,2)]
      put_force_loses [OF assms(1,2)]
    by (auto simp: n rb')
qed

theorem ring_put_force_cases_witness:
  "\<exists>n rb'. rt_ringbuffer_put_force (rb_of (replicate 200 1)) (replicate 100 2) 100 = (n, rb') \<and>
     n = 100 \<and> rb_contents rb' = []"
proof -
  let ?rb = "rb_of (replicate 200 1)"
  obtain n rb' where p: "rt_ringbuffer_put_force ?rb (replicate 100 2) 100 = (n, rb')"
    by (cases "rt_ringbuffer_put_force ?rb (replicate 100 2) 100")
  have i: "rb_inv ?rb" "rb_contents ?rb = replicate 200 1" by (rule rb_of, simp)+
  have s: "buffer_size ?rb = 256" "read_mirror ?rb = write_mirror ?rb"
    by (simp_all add: rb_of_def rt_ringbuffer_put_def rt_ringbuffer_init_def rb_copy_in_def
        rt_ringbuffer_space_len_def rt_ringbuffer_data_len_def rt_ringbuffer_status_def
        RT_ALIGN_DOWN4_def Let_def)
  have "rt_ringbuffer_data_len ?rb = 200" by (metis i(2) length_rb_contents length_replicate)
  then have "rt_ringbuffer_space_len ?rb = 56" by (simp add: rt_ringbuffer_space_len_def s)
  with ring_put_force_cases [OF i(1) _ p] s p show ?thesis by simp
qed

text \<open>\<open>rt_ringbuffer_putchar_force\<close> keeps the newest \<open>buffer_size\<close> bytes: it appends, and drops
  the oldest byte exactly when the buffer was full.\<close>

theorem ring_putchar_force_keeps_newest:
  assumes "rb_inv rb"
  shows "rb_contents (snd (rt_ringbuffer_putchar_force rb ch)) = lastn (buffer_size rb) (rb_contents rb @ [ch])
    \<and> rb_inv (snd (rt_ringbuffer_putchar_force rb ch))"
  using putchar_force_contents [OF assms] by blast

theorem ring_putchar_force_keeps_newest_witness:
  "rb_contents (snd (rt_ringbuffer_putchar_force (rb_of [4, 5]) 6)) = lastn (buffer_size (rb_of [4, 5])) [4, 5, 6]"
proof -
  have i: "rb_inv (rb_of [4, 5])" "rb_contents (rb_of [4, 5]) = [4, 5]" by (rule rb_of, simp)+
  from ring_putchar_force_keeps_newest [OF i(1), of 6] i(2) show ?thesis by simp
qed

end
