(* ===== verification/Protocol_Parser.thy ===== *)
theory Protocol_Parser
  imports Ring_Buffer
begin

text \<open>
  The remote-control protocol: \<^verbatim>\<open>application/roc_car/applications/protocol.h\<close>,
  \<^verbatim>\<open>protocol_parser.h\<close> and \<^verbatim>\<open>protocol_parser.c\<close>. A frame is

    \<open>0xAA len type addr function data... sum_hi sum_lo 0x55\<close>

  where \<open>len\<close> counts the bytes between the two delimiters.

  \<^item> State: \<open>parser\<close> is the global \<open>pareser_package\<close> together with the global \<open>package\<close>
    that its pointer \<open>recv\<close> is either null (\<open>recv_set = False\<close>, before the first
    \<open>protocol_parser_reinit\<close>) or points to. \<open>m_header\<close> and \<open>recv->data\<close> point into the
    parser's own buffer and are offsets in it. The enums \<open>type\<close> and \<open>function\<close> hold the byte
    that was cast to them.
  \<^item> \<open>protocol_recev_data\<close> is a loop over a ring buffer. Its body is \<open>recv_byte\<close>; the loop has
    fuel, one more than the bytes that are stored, which \<open>protocol_recev_data_bytes\<close> shows
    to be enough. \<open>recv_bytes\<close> is the same loop over the list of stored bytes.
  \<^item> Accesses to the 128-byte buffer go through \<open>rd\<close> and \<open>wr\<close>, so that the accesses of the
    code that fall outside it are faults of the model.
\<close>

section \<open>Constants and state\<close>

definition PROTOCOL_START_CODE :: u8 where "PROTOCOL_START_CODE = 0xAA"
definition PROTOCOL_END_CODE :: u8 where "PROTOCOL_END_CODE = 0x55"
definition BUFFER_SIZE :: nat where "BUFFER_SIZE = 128"

definition BT_PAD_RIGHT :: u16 where "BT_PAD_RIGHT = 0x0004"
definition BT_PAD_UP :: u16 where "BT_PAD_UP = 0x0008"
definition BT_PAD_LEFT :: u16 where "BT_PAD_LEFT = 0x0010"
definition BT_PAD_DOWN :: u16 where "BT_PAD_DOWN = 0x0020"
definition BT_GREEN :: u16 where "BT_GREEN = 0x1000"
definition BT_BLUE :: u16 where "BT_BLUE = 0x4000"

text \<open>\<open>E_CONTOROL_FUNC\<close>: the codes the control loop looks at, by their position in the enum.\<close>

definition E_ROBOT_CONTROL_DIRECTION :: u8 where "E_ROBOT_CONTROL_DIRECTION = 5"
definition E_ROBOT_CONTROL_SPEED :: u8 where "E_ROBOT_CONTROL_SPEED = 6"
definition E_BUTTON :: u8 where "E_BUTTON = 13"

lemmas protocol_consts =
  PROTOCOL_START_CODE_def PROTOCOL_END_CODE_def BUFFER_SIZE_def
  BT_PAD_RIGHT_def BT_PAD_UP_def BT_PAD_LEFT_def BT_PAD_DOWN_def BT_GREEN_def BT_BLUE_def
  E_ROBOT_CONTROL_DIRECTION_def E_ROBOT_CONTROL_SPEED_def E_BUTTON_def

record st_protocol =
  pr_start_code :: u8
  pr_len :: u8
  pr_type :: u8
  pr_addr :: u8
  pr_function :: u8
  pr_data :: "nat option"
  pr_sum :: u16
  pr_end_code :: u8

record parser =
  buffer :: "u8 list"
  recv_set :: bool
  package :: st_protocol
  protocol_data_len :: u8
  m_recv_flag :: bool
  m_send_success :: bool
  m_header :: "nat option"
  m_package_length :: u8
  m_check_sum :: u16

definition package_zero :: st_protocol where
  "package_zero = \<lparr>pr_start_code = 0, pr_len = 0, pr_type = 0, pr_addr = 0, pr_function = 0,
     pr_data = None, pr_sum = 0, pr_end_code = 0\<rparr>"

text \<open>The globals as the C startup code leaves them: all zero.\<close>

definition parser_boot :: parser where
  "parser_boot = \<lparr>buffer = replicate BUFFER_SIZE 0, recv_set = False, package = package_zero,
     protocol_data_len = 0, m_recv_flag = False, m_send_success = False, m_header = None,
     m_package_length = 0, m_check_sum = 0\<rparr>"

section \<open>Receiving\<close>

text \<open>The local variables of \<open>protocol_recev_data\<close>; the two \<open>uint8_t\<close> are kept below 256.\<close>

record recv_locals =
  avilable :: bool
  preRecvLen :: nat
  m_RecvDataIndex :: nat
  ptr_p :: nat

definition recv_start :: recv_locals where
  "recv_start = \<lparr>avilable = False, preRecvLen = 0, m_RecvDataIndex = 0, ptr_p = 0\<rparr>"

text \<open>
  The search for a start code after an overlong frame: \<open>i\<close> counts down from
  \<open>m_RecvDataIndex\<close> to 1.
\<close>

fun resync :: "u8 list \<Rightarrow> nat \<Rightarrow> recv_locals \<Rightarrow> fault + recv_locals" where
  "resync buf 0 l = Inr l"
| "resync buf (Suc k) l =
     rbind (rd buf (Suc k)) (\<lambda>b.
       if b = PROTOCOL_START_CODE then
         rbind (rd buf (Suc k + 1)) (\<lambda>c.
           resync buf k (l\<lparr>ptr_p := Suc k, preRecvLen := unat c,
                          m_RecvDataIndex := (m_RecvDataIndex l + 256 - Suc k) mod 256\<rparr>))
       else resync buf k l)"

text \<open>
  One pass of the loop body for the byte \<open>dat\<close>: \<open>Some b\<close> is \<open>return b\<close>, \<open>None\<close> goes round.
\<close>

definition recv_byte ::
    "parser \<Rightarrow> recv_locals \<Rightarrow> u8 \<Rightarrow> fault + (bool option \<times> parser \<times> recv_locals)" where
  "recv_byte ps l dat =
     (if \<not> avilable l \<and> dat = PROTOCOL_START_CODE then
        rbind (wr (buffer ps) 0 dat) (\<lambda>buf.
          Inr (None, ps\<lparr>buffer := buf\<rparr>,
               l\<lparr>avilable := True, preRecvLen := 0, m_RecvDataIndex := 0, ptr_p := 1\<rparr>))
      else if avilable l then
        (if dat = PROTOCOL_END_CODE \<and> preRecvLen l = m_RecvDataIndex l then
           rbind (wr (buffer ps) (ptr_p l) dat) (\<lambda>buf.
             Inr (Some True,
                  ps\<lparr>buffer := buf, m_package_length := of_nat (preRecvLen l + 2),
                     m_recv_flag := True\<rparr>, l))
         else
           rbind (wr (buffer ps) (ptr_p l) dat) (\<lambda>buf.
             let ps = ps\<lparr>buffer := buf\<rparr>;
                 l = l\<lparr>ptr_p := ptr_p l + 1, m_RecvDataIndex := (m_RecvDataIndex l + 1) mod 256\<rparr>;
                 l = (if m_RecvDataIndex l = 1 then l\<lparr>preRecvLen := unat dat\<rparr> else l)
             in if m_RecvDataIndex l = 1 \<and> preRecvLen l > BUFFER_SIZE - 2
                then Inr (Some False, ps, l)
                else
                  rbind (if m_RecvDataIndex l > preRecvLen l \<and> preRecvLen l \<noteq> 0
                         then rbind (resync buf (m_RecvDataIndex l) l) (\<lambda>l. Inr (l\<lparr>avilable := False\<rparr>))
                         else Inr l) (\<lambda>l.
                    if m_RecvDataIndex l \<ge> BUFFER_SIZE - 1 then Inr (Some False, ps, l)
                    else Inr (None, ps, l))))
      else Inr (None, ps, l))"

text \<open>
  The loop, over any source with a length and a byte-taking operation. The result is the
  returned flag, the parser and what is left in the source; \<open>None\<close> is out of fuel. The
  source gives no byte only when its length is zero, so the inner \<open>None\<close> case is never met.
\<close>

fun recv_loop ::
    "('s \<Rightarrow> nat) \<Rightarrow> ('s \<Rightarrow> (u8 \<times> 's) option) \<Rightarrow> nat \<Rightarrow> parser \<Rightarrow> recv_locals \<Rightarrow> 's \<Rightarrow>
     (fault + (bool \<times> parser \<times> 's)) option" where
  "recv_loop avail take_byte 0 ps l s = None"
| "recv_loop avail take_byte (Suc n) ps l s =
     (if avail s \<noteq> 0 then
        (case take_byte s of
           None \<Rightarrow> Some (Inr (avilable l, ps, s))
         | Some (dat, s') \<Rightarrow>
             (case recv_byte ps l dat of
                Inl e \<Rightarrow> Some (Inl e)
              | Inr (Some b, ps', l') \<Rightarrow> Some (Inr (b, ps', s'))
              | Inr (None, ps', l') \<Rightarrow> recv_loop avail take_byte n ps' l' s'))
      else Some (Inr (avilable l, ps, s)))"

definition protocol_recev_data ::
    "parser \<Rightarrow> rt_ringbuffer \<Rightarrow> (fault + (bool \<times> parser \<times> rt_ringbuffer)) option" where
  "protocol_recev_data ps tcp_dat =
     recv_loop rt_ringbuffer_data_len rt_ringbuffer_getchar
       (Suc (rt_ringbuffer_data_len tcp_dat)) ps recv_start tcp_dat"

section \<open>Parsing\<close>

fun check_sum_loop :: "u8 list \<Rightarrow> nat \<Rightarrow> nat \<Rightarrow> u16 \<Rightarrow> fault + u16" where
  "check_sum_loop buf a 0 s = Inr s"
| "check_sum_loop buf a (Suc n) s =
     rbind (rd buf a) (\<lambda>b. check_sum_loop buf (Suc a) n (s + ucast b))"

definition protocol_check_sum :: "parser \<Rightarrow> fault + u16" where
  "protocol_check_sum ps =
     (if recv_set ps then
        (let r = package ps;
             sum = ucast (pr_len r) + ucast (pr_type r) + ucast (pr_addr r) + ucast (pr_function r)
         in if protocol_data_len ps = 0 then Inr sum
            else (case pr_data r of
                    None \<Rightarrow> Inl Null_Deref
                  | Some d \<Rightarrow> check_sum_loop (buffer ps) d (unat (protocol_data_len ps)) sum))
      else Inr 0)"

definition be16 :: "u8 \<Rightarrow> u8 \<Rightarrow> u16" where
  "be16 hi lo = (push_bit 8 (ucast hi)) OR (ucast lo)"

definition protocol_parser :: "parser \<Rightarrow> fault + (bool \<times> parser)" where
  "protocol_parser ps =
     (if \<not> m_recv_flag ps then Inr (False, ps)
      else if \<not> recv_set ps then Inl Null_Deref
      else
        rbind (rd (buffer ps) 0) (\<lambda>b0.
        rbind (rd (buffer ps) 1) (\<lambda>b1.
        rbind (rd (buffer ps) 2) (\<lambda>b2.
        rbind (rd (buffer ps) 3) (\<lambda>b3.
        rbind (rd (buffer ps) 4) (\<lambda>b4.
        let dl = b1 - 6 in
        rbind (rd (buffer ps) (5 + unat dl)) (\<lambda>hi.
        rbind (rd (buffer ps) (5 + unat dl + 1)) (\<lambda>lo.
        let ps = ps\<lparr>m_header := Some 0, protocol_data_len := dl,
                    package := (package ps)\<lparr>pr_start_code := b0, pr_len := b1, pr_type := b2,
                       pr_addr := b3, pr_function := b4, pr_data := Some 5, pr_sum := be16 hi lo\<rparr>\<rparr>
        in rbind (protocol_check_sum ps) (\<lambda>s. Inr (s = pr_sum (package ps), ps))))))))))"

definition protocol_parser_reinit :: "parser \<Rightarrow> parser" where
  "protocol_parser_reinit ps =
     ps\<lparr>buffer := replicate BUFFER_SIZE 0, recv_set := True, protocol_data_len := 0,
        m_recv_flag := False, m_send_success := False, m_header := None,
        m_package_length := 0, m_check_sum := 0\<rparr>"

section \<open>Accessors\<close>

definition with_recv :: "parser \<Rightarrow> (st_protocol \<Rightarrow> fault + 'a) \<Rightarrow> fault + 'a" where
  "with_recv ps f = (if recv_set ps then f (package ps) else Inl Null_Deref)"

definition recv_data_at :: "parser \<Rightarrow> nat \<Rightarrow> fault + u8" where
  "recv_data_at ps i =
     with_recv ps (\<lambda>r. case pr_data r of None \<Rightarrow> Inl Null_Deref | Some d \<Rightarrow> rd (buffer ps) (d + i))"

definition protocol_get_robot_type :: "parser \<Rightarrow> fault + u8" where
  "protocol_get_robot_type ps = with_recv ps (\<lambda>r. Inr (pr_type r))"

definition protocol_get_robot_addr :: "parser \<Rightarrow> fault + u8" where
  "protocol_get_robot_addr ps = with_recv ps (\<lambda>r. Inr (pr_addr r))"

definition protocol_get_function :: "parser \<Rightarrow> fault + u8" where
  "protocol_get_function ps = with_recv ps (\<lambda>r. Inr (pr_function r))"

definition protocol_get_speed :: "parser \<Rightarrow> fault + int" where
  "protocol_get_speed ps =
     with_recv ps (\<lambda>r.
       if pr_function r = E_ROBOT_CONTROL_SPEED
       then rbind (recv_data_at ps 0) (\<lambda>b. Inr (sint b))
       else Inr 0)"

text \<open>The \<open>rt_int16_t\<close> result keeps the sixteen bits; the caller takes it as \<open>rt_uint16_t\<close>.\<close>

definition protocol_get_degree :: "parser \<Rightarrow> fault + u16" where
  "protocol_get_degree ps =
     with_recv ps (\<lambda>r.
       if pr_function r = E_ROBOT_CONTROL_DIRECTION
       then rbind (recv_data_at ps 0) (\<lambda>hi. rbind (recv_data_at ps 1) (\<lambda>lo. Inr (be16 hi lo)))
       else Inr 0)"

definition protocol_get_button_value :: "parser \<Rightarrow> fault + u16" where
  "protocol_get_button_value ps =
     with_recv ps (\<lambda>r.
       if pr_function r = E_BUTTON
       then rbind (recv_data_at ps 0) (\<lambda>hi. rbind (recv_data_at ps 1) (\<lambda>lo. Inr (be16 hi lo)))
       else Inr 0xFFFF)"

definition protocol_get_button :: "parser \<Rightarrow> u16 \<Rightarrow> fault + bool" where
  "protocol_get_button ps button = rbind (protocol_get_button_value ps) (\<lambda>v. Inr (v = button))"

definition protocol_get_data_length :: "parser \<Rightarrow> u8" where
  "protocol_get_data_length ps = protocol_data_len ps"

definition protocol_get_package_length :: "parser \<Rightarrow> fault + u8" where
  "protocol_get_package_length ps = with_recv ps (\<lambda>r. Inr (pr_len r))"

definition protocol_send_package :: "st_protocol \<Rightarrow> int \<Rightarrow> bool" where
  "protocol_send_package send_dat len = True"

section \<open>The receive loop over the stored bytes\<close>

fun recv_bytes :: "parser \<Rightarrow> recv_locals \<Rightarrow> u8 list \<Rightarrow> fault + (bool \<times> parser \<times> u8 list)" where
  "recv_bytes ps l [] = Inr (avilable l, ps, [])"
| "recv_bytes ps l (b # bs) =
     rbind (recv_byte ps l b) (\<lambda>(r, ps', l').
       case r of Some v \<Rightarrow> Inr (v, ps', bs) | None \<Rightarrow> recv_bytes ps' l' bs)"

context byte_source
begin

lemma recv_loop_bytes:
  "good s \<Longrightarrow> length (bytes s) < n \<Longrightarrow>
   (case recv_bytes ps l (bytes s) of
      Inl e \<Rightarrow> recv_loop avail take_byte n ps l s = Some (Inl e)
    | Inr (b, ps', rest) \<Rightarrow>
        (\<exists>s'. recv_loop avail take_byte n ps l s = Some (Inr (b, ps', s')) \<and> good s' \<and> bytes s' = rest))"
proof (induction n arbitrary: s ps l)
  case 0
  then show ?case by simp
next
  case (Suc n)
  show ?case
  proof (cases "bytes s")
    case Nil
    then show ?thesis using Suc.prems take_nil by simp
  next
    case (Cons b bs)
    from take_cons [OF Suc.prems(1) Cons] obtain s' where
      s': "take_byte s = Some (b, s')" "bytes s' = bs" "good s'" "avail s \<noteq> 0" .
    show ?thesis
    proof (cases "recv_byte ps l b")
      case (Inl e)
      then show ?thesis using s' Cons by simp
    next
      case (Inr t)
      obtain r ps' l' where t: "t = (r, ps', l')" by (cases t)
      have "length (bytes s') < n" using Suc.prems(2) Cons s' by simp
      from Suc.IH [OF s'(3) this, of ps' l'] show ?thesis
        using s' Cons Inr t by (cases r) (auto split: sum.splits)
    qed
  qed
qed

end

lemma protocol_recev_data_bytes:
  assumes "rb_inv rb"
  shows "case recv_bytes ps recv_start (rb_contents rb) of
      Inl e \<Rightarrow> protocol_recev_data ps rb = Some (Inl e)
    | Inr (b, ps', rest) \<Rightarrow>
        (\<exists>rb'. protocol_recev_data ps rb = Some (Inr (b, ps', rb')) \<and> rb_inv rb' \<and> rb_contents rb' = rest)"
  unfolding protocol_recev_data_def
  by (rule rb_source.recv_loop_bytes) (use assms in simp_all)

lemma recv_bytes_Inr_loop:
  assumes "rb_inv rb" "recv_bytes ps recv_start (rb_contents rb) = Inr (b, ps', rest)"
  obtains rb' where "protocol_recev_data ps rb = Some (Inr (b, ps', rb'))" "rb_inv rb'" "rb_contents rb' = rest"
  using protocol_recev_data_bytes [OF assms(1), of ps] assms(2) by auto

section \<open>Memory safety of the receive loop\<close>

text \<open>
  Between two passes, a frame that is being received has its next free position one past the
  index of its last byte, and that index is at most 126.
\<close>

definition recv_inv :: "parser \<Rightarrow> recv_locals \<Rightarrow> bool" where
  "recv_inv ps l \<longleftrightarrow> length (buffer ps) = BUFFER_SIZE \<and>
     (avilable l \<longrightarrow> ptr_p l = m_RecvDataIndex l + 1 \<and> m_RecvDataIndex l < 127 \<and>
        preRecvLen l < 127 \<and>
        (m_RecvDataIndex l = 0 \<or> preRecvLen l = 0 \<or> m_RecvDataIndex l \<le> preRecvLen l))"

lemma recv_inv_start: "length (buffer ps) = BUFFER_SIZE \<Longrightarrow> recv_inv ps recv_start"
  by (simp add: recv_inv_def recv_start_def)

lemma resync_fault:
  "resync buf k l = Inl e \<Longrightarrow> length buf = 128 \<Longrightarrow> k \<le> 127 \<Longrightarrow>
     e = Oob_Read \<and> k = 127 \<and> buf ! 127 = PROTOCOL_START_CODE"
proof (induction k arbitrary: l)
  case 0
  then show ?case by simp
next
  case (Suc k)
  then have k: "k < 127" "Suc k < length buf" by simp_all
  show ?case
  proof (cases "buf ! Suc k = PROTOCOL_START_CODE")
    case True
    show ?thesis
    proof (cases "k = 126")
      case k126: True
      then have out: "length buf \<le> Suc k + 1" using Suc.prems(2) by simp
      from Suc.prems(1) k(2) True out have "e = Oob_Read" by simp
      then show ?thesis using k126 True by simp
    next
      case False
      then have "Suc k + 1 < length buf" using Suc.prems by simp
      with Suc.prems(1) k True
      have "resync buf k (l\<lparr>ptr_p := Suc k, preRecvLen := unat (buf ! Suc (Suc k)),
               m_RecvDataIndex := (m_RecvDataIndex l + 256 - Suc k) mod 256\<rparr>) = Inl e"
        by simp
      from Suc.IH [OF this Suc.prems(2)] k show ?thesis by simp
    qed
  next
    case False
    with Suc.prems(1) k have "resync buf k l = Inl e" by simp
    from Suc.IH [OF this Suc.prems(2)] k show ?thesis by simp
  qed
qed

text \<open>The only fault of one pass: the frame fills the buffer and its last byte is a start code.\<close>

lemma recv_byte_fault:
  assumes inv: "recv_inv ps l" and f: "recv_byte ps l dat = Inl e"
  shows "e = Oob_Read \<and> dat = PROTOCOL_START_CODE \<and> avilable l \<and> m_RecvDataIndex l = 126 \<and> preRecvLen l = 126"
proof -
  have len: "length (buffer ps) = 128" using inv by (simp add: recv_inv_def BUFFER_SIZE_def)
  have av: "avilable l"
    using f len by (auto simp: recv_byte_def split: if_splits)
  then have p: "ptr_p l = m_RecvDataIndex l + 1" "m_RecvDataIndex l < 127" "preRecvLen l < 127"
    "m_RecvDataIndex l = 0 \<or> preRecvLen l = 0 \<or> m_RecvDataIndex l \<le> preRecvLen l"
    using inv by (auto simp: recv_inv_def)
  let ?m = "m_RecvDataIndex l + 1" and ?buf = "(buffer ps)[ptr_p l := dat]"
  let ?l = "l\<lparr>ptr_p := ptr_p l + 1, m_RecvDataIndex := ?m\<rparr>"
  let ?l1 = "if ?m = 1 then ?l\<lparr>preRecvLen := unat dat\<rparr> else ?l"
  have r: "resync ?buf ?m ?l1 = Inl e" "?m > preRecvLen ?l1" "preRecvLen ?l1 \<noteq> 0"
    using f av p len
    by (auto simp: recv_byte_def Let_def rbind_eq_Inl wr_eq_Inl simp del: resync.simps split: if_splits)
  from resync_fault [OF r(1)] len p(2)
  have e: "e = Oob_Read" "?m = 127" "?buf ! 127 = PROTOCOL_START_CODE"
    by auto
  then show ?thesis
    using r(2,3) len p av by auto
qed

lemma recv_byte_inv:
  assumes "recv_inv ps l" "recv_byte ps l dat = Inr (r, ps', l')"
  shows "length (buffer ps') = BUFFER_SIZE" "r = None \<Longrightarrow> recv_inv ps' l'"
    "recv_set ps' = recv_set ps"
proof -
  have "length (buffer ps') = BUFFER_SIZE \<and> (r = None \<longrightarrow> recv_inv ps' l') \<and> recv_set ps' = recv_set ps"
    using assms
    by (auto simp: recv_inv_def recv_byte_def Let_def rbind_eq_Inr wr_def BUFFER_SIZE_def
        simp del: resync.simps split: if_splits)
  then show "length (buffer ps') = BUFFER_SIZE" "r = None \<Longrightarrow> recv_inv ps' l'"
    "recv_set ps' = recv_set ps" by auto
qed

lemma recv_bytes_fault:
  "recv_inv ps l \<Longrightarrow> recv_bytes ps l bs = Inl e \<Longrightarrow> e = Oob_Read \<and> (126 \<in> set bs \<or> avilable l \<and> preRecvLen l = 126)"
proof (induction bs arbitrary: ps l)
  case Nil
  then show ?case by simp
next
  case (Cons b bs)
  show ?case
  proof (cases "recv_byte ps l b")
    case (Inl e')
    with Cons.prems recv_byte_fault [OF Cons.prems(1) Inl] show ?thesis by simp
  next
    case (Inr t)
    obtain r ps' l' where t: "t = (r, ps', l')" by (cases t)
    note step = Inr [unfolded t]
    have r: "r = None" and rest: "recv_bytes ps' l' bs = Inl e"
      using Cons.prems(2) step by (auto split: option.splits)
    have IH: "e = Oob_Read \<and> (126 \<in> set bs \<or> avilable l' \<and> preRecvLen l' = 126)"
      using Cons.IH [OF recv_byte_inv(2) [OF Cons.prems(1) step r] rest] .
    have "avilable l' \<and> preRecvLen l' = 126 \<longrightarrow> b = 126 \<or> avilable l \<and> preRecvLen l = 126"
      using step r
      by (auto simp: recv_byte_def Let_def rbind_eq_Inr word_unat_eq_iff simp del: resync.simps split: if_splits)
    with IH show ?thesis by auto
  qed
qed

section \<open>Receiving a well-formed frame\<close>

lemma recv_bytes_skip:
  "\<not> avilable l \<Longrightarrow> PROTOCOL_START_CODE \<notin> set noise \<Longrightarrow>
   recv_bytes ps l (noise @ rest) = recv_bytes ps l rest"
  by (induction noise) (auto simp: recv_byte_def)

lemma recv_byte_body:
  assumes "avilable l" "1 \<le> m_RecvDataIndex l" "m_RecvDataIndex l < preRecvLen l"
    "preRecvLen l \<le> 126" "ptr_p l = m_RecvDataIndex l + 1" "length (buffer ps) = 128"
  shows "recv_byte ps l b = Inr (None, ps\<lparr>buffer := (buffer ps)[ptr_p l := b]\<rparr>,
     l\<lparr>ptr_p := ptr_p l + 1, m_RecvDataIndex := m_RecvDataIndex l + 1\<rparr>)"
  using assms by (simp add: recv_byte_def Let_def BUFFER_SIZE_def)

lemma splice_at_Cons:
  "i + length (b # bs) \<le> length xs \<Longrightarrow> splice_at (Suc i) bs (xs[i := b]) = splice_at i (b # bs) xs"
  by (simp add: splice_at_def take_Suc_conv_app_nth)

lemma recv_bytes_body:
  assumes "avilable l" "1 \<le> m_RecvDataIndex l" "m_RecvDataIndex l + length bs \<le> preRecvLen l"
    "preRecvLen l \<le> 126" "ptr_p l = m_RecvDataIndex l + 1" "length (buffer ps) = 128"
  shows "recv_bytes ps l (bs @ rest) =
    recv_bytes (ps\<lparr>buffer := splice_at (ptr_p l) bs (buffer ps)\<rparr>)
      (l\<lparr>ptr_p := ptr_p l + length bs, m_RecvDataIndex := m_RecvDataIndex l + length bs\<rparr>) rest"
  using assms
proof (induction bs arbitrary: ps l)
  case Nil
  then show ?case by (cases l) (simp add: splice_at_def)
next
  case (Cons b bs)
  let ?ps = "ps\<lparr>buffer := (buffer ps)[ptr_p l := b]\<rparr>"
  let ?l = "l\<lparr>ptr_p := ptr_p l + 1, m_RecvDataIndex := m_RecvDataIndex l + 1\<rparr>"
  have "recv_bytes ps l ((b # bs) @ rest) = recv_bytes ?ps ?l (bs @ rest)"
    using Cons.prems recv_byte_body [of l ps b] by simp
  also have "\<dots> = recv_bytes (?ps\<lparr>buffer := splice_at (ptr_p ?l) bs (buffer ?ps)\<rparr>)
      (?l\<lparr>ptr_p := ptr_p ?l + length bs, m_RecvDataIndex := m_RecvDataIndex ?l + length bs\<rparr>) rest"
    by (rule Cons.IH) (use Cons.prems in simp_all)
  also have "splice_at (ptr_p ?l) bs (buffer ?ps) = splice_at (ptr_p l) (b # bs) (buffer ps)"
    using Cons.prems splice_at_Cons [of "ptr_p l" b bs "buffer ps"] by simp
  finally show ?case by simp
qed

text \<open>
  The bytes between the delimiters. The length byte must not be the end code: with the count
  still zero, \<open>0x55\<close> right after the start code is taken for the end of an empty frame.
\<close>

definition body_ok :: "u8 list \<Rightarrow> bool" where
  "body_ok body \<longleftrightarrow> body \<noteq> [] \<and> unat (hd body) = length body \<and> length body \<le> 126 \<and>
     hd body \<noteq> PROTOCOL_END_CODE"

definition frame_bytes :: "u8 list \<Rightarrow> u8 list" where
  "frame_bytes body = PROTOCOL_START_CODE # body @ [PROTOCOL_END_CODE]"

lemma recv_bytes_frame_prefix:
  assumes "\<not> avilable l" "length (buffer ps) = 128" "body_ok (b # bs @ bs')"
  shows "recv_bytes ps l (PROTOCOL_START_CODE # b # bs @ rest) =
    recv_bytes (ps\<lparr>buffer := splice_at 0 (PROTOCOL_START_CODE # b # bs) (buffer ps)\<rparr>)
      (l\<lparr>avilable := True, preRecvLen := length bs + length bs' + 1,
         ptr_p := length bs + 2, m_RecvDataIndex := length bs + 1\<rparr>) rest"
proof -
  have b: "unat b = length bs + length bs' + 1" "unat b \<le> 126" "b \<noteq> PROTOCOL_END_CODE"
    using assms(3) by (auto simp: body_ok_def)
  let ?l0 = "l\<lparr>avilable := True, preRecvLen := 0, m_RecvDataIndex := 0, ptr_p := 1\<rparr>"
  let ?ps0 = "ps\<lparr>buffer := (buffer ps)[0 := PROTOCOL_START_CODE]\<rparr>"
  let ?l1 = "?l0\<lparr>preRecvLen := unat b, m_RecvDataIndex := 1, ptr_p := 2\<rparr>"
  let ?ps1 = "?ps0\<lparr>buffer := (buffer ?ps0)[1 := b]\<rparr>"
  have "recv_byte ps l PROTOCOL_START_CODE = Inr (None, ?ps0, ?l0)"
    using assms by (simp add: recv_byte_def)
  moreover have "recv_byte ?ps0 ?l0 b = Inr (None, ?ps1, ?l1)"
    using assms(2) b by (simp add: recv_byte_def Let_def BUFFER_SIZE_def numeral_2_eq_2)
  ultimately have "recv_bytes ps l (PROTOCOL_START_CODE # b # bs @ rest) = recv_bytes ?ps1 ?l1 (bs @ rest)"
    by simp
  also have "\<dots> = recv_bytes (?ps1\<lparr>buffer := splice_at (ptr_p ?l1) bs (buffer ?ps1)\<rparr>)
      (?l1\<lparr>ptr_p := ptr_p ?l1 + length bs, m_RecvDataIndex := m_RecvDataIndex ?l1 + length bs\<rparr>) rest"
    by (rule recv_bytes_body) (use assms(2) b in simp_all)
  also have "splice_at (ptr_p ?l1) bs (buffer ?ps1) = splice_at 0 (PROTOCOL_START_CODE # b # bs) (buffer ps)"
    using assms(2) b splice_at_Cons [of 0 PROTOCOL_START_CODE "b # bs" "buffer ps"]
      splice_at_Cons [of 1 b bs "(buffer ps)[0 := PROTOCOL_START_CODE]"]
    by (simp add: numeral_2_eq_2)
  finally show ?thesis using b by (simp add: numeral_2_eq_2)
qed

lemma splice_at_end:
  assumes "i = length ys" "length ys + 1 \<le> length xs"
  shows "(splice_at 0 ys xs)[i := b] = splice_at 0 (ys @ [b]) xs"
  using assms by (simp add: splice_at_def list_update_append Cons_nth_drop_Suc [symmetric])

lemma recv_bytes_frame:
  assumes "\<not> avilable l" "length (buffer ps) = 128" "body_ok body" "PROTOCOL_START_CODE \<notin> set noise"
  shows "recv_bytes ps l (noise @ frame_bytes body @ rest) =
    Inr (True, ps\<lparr>buffer := splice_at 0 (frame_bytes body) (buffer ps),
                 m_package_length := of_nat (length body + 2), m_recv_flag := True\<rparr>, rest)"
proof -
  obtain b bs where body: "body = b # bs" using assms(3) by (auto simp: body_ok_def neq_Nil_conv)
  have len: "length body \<le> 126" using assms(3) by (simp add: body_ok_def)
  let ?ps = "ps\<lparr>buffer := splice_at 0 (PROTOCOL_START_CODE # body) (buffer ps)\<rparr>"
  let ?l = "l\<lparr>avilable := True, preRecvLen := length bs + 1, ptr_p := length bs + 2, m_RecvDataIndex := length bs + 1\<rparr>"
  have "recv_bytes ps l (noise @ frame_bytes body @ rest) =
      recv_bytes ps l (PROTOCOL_START_CODE # b # bs @ PROTOCOL_END_CODE # rest)"
    using assms(1,4) by (simp add: recv_bytes_skip frame_bytes_def body)
  also have "\<dots> = recv_bytes ?ps ?l (PROTOCOL_END_CODE # rest)"
    using recv_bytes_frame_prefix [OF assms(1,2), of b bs "[]"] assms(3) by (simp add: body)
  also have "\<dots> = Inr (True, ?ps\<lparr>buffer := (buffer ?ps)[length bs + 2 := PROTOCOL_END_CODE],
                 m_package_length := of_nat (length bs + 1 + 2), m_recv_flag := True\<rparr>, rest)"
    using assms(2) len by (simp add: recv_byte_def body)
  also have "(buffer ?ps)[length bs + 2 := PROTOCOL_END_CODE] = splice_at 0 (frame_bytes body) (buffer ps)"
    using splice_at_end [of "length bs + 2" "PROTOCOL_START_CODE # body" "buffer ps" PROTOCOL_END_CODE]
      assms(2) len by (simp add: body frame_bytes_def)
  finally show ?thesis by (simp add: body)
qed

section \<open>Parsing a frame\<close>

lemma be16_hi: "ucast (drop_bit 8 (be16 hi lo)) = hi"
  by (rule bit_word_eqI) (auto simp: be16_def bit_simps dest: bit_imp_le_length)

lemma be16_lo: "ucast (be16 hi lo) = lo"
  by (rule bit_word_eqI) (auto simp: be16_def bit_simps)

lemma be16_inject: "be16 a b = be16 c d \<longleftrightarrow> a = c \<and> b = d"
  by (metis be16_hi be16_lo)

lemma be16_split: "be16 (ucast (drop_bit 8 s)) (ucast s) = s"
  by (rule bit_word_eqI) (auto simp: be16_def bit_simps)

definition body_sum :: "u8 list \<Rightarrow> u16" where
  "body_sum bs = sum_list (map ucast bs)"

lemma body_sum_simps [simp]:
  "body_sum [] = 0" "body_sum (b # bs) = ucast b + body_sum bs"
  "body_sum (xs @ ys) = body_sum xs + body_sum ys"
  by (simp_all add: body_sum_def)

lemma body_sum_update:
  "i < length bs \<Longrightarrow> body_sum (bs[i := b]) + ucast (bs ! i) = body_sum bs + ucast b"
  by (induction bs arbitrary: i) (auto simp: algebra_simps split: nat.splits)

lemma check_sum_loop_eq:
  "a + n \<le> length buf \<Longrightarrow> check_sum_loop buf a n s = Inr (s + body_sum (take n (drop a buf)))"
proof (induction n arbitrary: a s)
  case 0
  then show ?case by simp
next
  case (Suc n)
  have "drop a buf = buf ! a # drop (Suc a) buf"
    using Suc.prems by (simp add: Cons_nth_drop_Suc)
  with Suc show ?case by (simp add: algebra_simps)
qed

definition parsed :: "parser \<Rightarrow> u8 \<Rightarrow> u8 \<Rightarrow> u8 \<Rightarrow> u8 \<Rightarrow> u8 list \<Rightarrow> u8 \<Rightarrow> u8 \<Rightarrow> parser" where
  "parsed ps n ty ad fn data hi lo =
     ps\<lparr>m_header := Some 0, protocol_data_len := of_nat (length data),
        package := (package ps)\<lparr>pr_start_code := PROTOCOL_START_CODE, pr_len := n, pr_type := ty,
           pr_addr := ad, pr_function := fn, pr_data := Some 5, pr_sum := be16 hi lo\<rparr>\<rparr>"

lemma protocol_parser_frame:
  assumes buf: "buffer ps = frame_bytes (n # ty # ad # fn # data @ [hi, lo]) @ tail"
    and n: "unat n = length data + 6" and flags: "m_recv_flag ps" "recv_set ps"
  shows "protocol_parser ps =
    Inr (body_sum (n # ty # ad # fn # data) = be16 hi lo, parsed ps n ty ad fn data hi lo)"
proof -
  have n256: "length data + 6 < 256" using unat_u8_less [of n] n by simp
  have neq: "n = of_nat (length data + 6)" using n by (rule u8_of_nat_unat)
  then have dl: "n - 6 = of_nat (length data)" by simp
  have udl: "unat (of_nat (length data) :: u8) = length data"
    using n256 by (simp add: unat_u8_of_nat)
  have at: "buffer ps ! 0 = PROTOCOL_START_CODE" "buffer ps ! 1 = n" "buffer ps ! 2 = ty"
    "buffer ps ! 3 = ad" "buffer ps ! 4 = fn" "buffer ps ! (5 + length data) = hi"
    "buffer ps ! (5 + length data + 1) = lo" "length (buffer ps) > 5 + length data + 1"
    "take (length data) (drop 5 (buffer ps)) = data"
    by (simp_all add: buf frame_bytes_def nth_append numeral_eq_Suc)
  have rd0: "rd (buffer ps) 0 = Inr PROTOCOL_START_CODE"
    by (simp add: buf frame_bytes_def rd_def)
  let ?ps = "parsed ps n ty ad fn data hi lo"
  have cs: "protocol_check_sum ?ps = Inr (body_sum (n # ty # ad # fn # data))"
  proof (cases "data = []")
    case True
    then show ?thesis using flags by (simp add: protocol_check_sum_def parsed_def)
  next
    case False
    have "(of_nat (length data) :: u8) \<noteq> 0"
      using False udl by (metis length_0_conv unat_0)
    then show ?thesis
      using at flags udl by (simp add: protocol_check_sum_def parsed_def check_sum_loop_eq algebra_simps)
  qed
  have "protocol_parser ps = rbind (protocol_check_sum ?ps) (\<lambda>s. Inr (s = pr_sum (package ?ps), ?ps))"
    using flags at by (simp add: protocol_parser_def Let_def dl udl parsed_def rd0)
  then show ?thesis by (simp add: cs) (simp add: parsed_def)
qed

section \<open>The sender's encoding\<close>

text \<open>What a sender transmits for the given fields, by the comments of \<open>ST_PROTOCOL\<close>.\<close>

definition encode_body :: "u8 \<Rightarrow> u8 \<Rightarrow> u8 \<Rightarrow> u8 list \<Rightarrow> u8 list" where
  "encode_body ty ad fn data =
     (let b = of_nat (length data + 6) # ty # ad # fn # data; s = body_sum b
      in b @ [ucast (drop_bit 8 s), ucast s])"

lemma length_encode_body [simp]: "length (encode_body ty ad fn data) = length data + 6"
  by (simp add: encode_body_def Let_def)

lemma body_ok_encode:
  assumes "length data \<le> 120" "length data \<noteq> 79"
  shows "body_ok (encode_body ty ad fn data)"
proof -
  have u: "unat (of_nat (length data + 6) :: u8) = length data + 6"
    using assms(1) by (intro unat_u8_of_nat) simp
  moreover have "(of_nat (length data + 6) :: u8) \<noteq> 0x55"
  proof
    assume "(of_nat (length data + 6) :: u8) = 0x55"
    with u have "length data + 6 = unat (0x55 :: u8)" by simp
    with assms(2) show False by simp
  qed
  ultimately show ?thesis
    using assms(1) by (simp add: body_ok_def encode_body_def Let_def PROTOCOL_END_CODE_def)
qed

lemma splice_at_0_append: "length ys \<le> length xs \<Longrightarrow> splice_at 0 ys xs = ys @ drop (length ys) xs"
  by (simp add: splice_at_def)

end
