(* ===== verification/Protocol_Properties.thy ===== *)
theory Protocol_Properties
  imports Protocol_Parser
begin

text \<open>
  What the receiver and the parser of \<^verbatim>\<open>protocol_parser.c\<close> promise together: a frame
  that a sender builds comes out with all its fields, damaged frames are refused, and the
  receive loop ends. The inputs on which they do not keep these promises are stated as
  exactly: a frame that is split over two calls, a frame of 79 data bytes, an overlong run
  that is followed by a start code, and a length below the six bytes of the fixed fields.
\<close>

section \<open>A parser that is ready to receive\<close>

text \<open>After \<open>protocol_parser_reinit\<close>.\<close>

definition parser_ready :: "parser \<Rightarrow> bool" where
  "parser_ready ps \<longleftrightarrow> length (buffer ps) = BUFFER_SIZE \<and> recv_set ps"

lemma parser_ready_reinit [simp, intro]: "parser_ready (protocol_parser_reinit ps)"
  by (simp add: parser_ready_def protocol_parser_reinit_def)

text \<open>The parser after a frame with the given body has been received.\<close>

definition received :: "parser \<Rightarrow> u8 list \<Rightarrow> parser" where
  "received ps body = ps\<lparr>buffer := splice_at 0 (frame_bytes body) (buffer ps),
     m_package_length := of_nat (length body + 2), m_recv_flag := True\<rparr>"

lemma recev_frame:
  assumes "rb_inv rb" "rb_contents rb = noise @ frame_bytes body @ rest" "parser_ready ps"
    "body_ok body" "PROTOCOL_START_CODE \<notin> set noise"
  obtains rb' where "protocol_recev_data ps rb = Some (Inr (True, received ps body, rb'))"
    "rb_inv rb'" "rb_contents rb' = rest"
proof -
  have "recv_bytes ps recv_start (rb_contents rb) = Inr (True, received ps body, rest)"
    using assms by (simp add: recv_bytes_frame received_def recv_start_def parser_ready_def BUFFER_SIZE_def)
  from recv_bytes_Inr_loop [OF assms(1) this] that show thesis by blast
qed

lemma length_frame_bytes [simp]: "length (frame_bytes body) = length body + 2"
  by (simp add: frame_bytes_def)

lemma parser_received:
  assumes "parser_ready ps" "unat n = length data + 6" "length data \<le> 120"
  shows "protocol_parser (received ps (n # ty # ad # fn # data @ [hi, lo])) =
    Inr (body_sum (n # ty # ad # fn # data) = be16 hi lo,
         parsed (received ps (n # ty # ad # fn # data @ [hi, lo])) n ty ad fn data hi lo)"
  by (rule protocol_parser_frame [where tail = "drop (length data + 8) (buffer ps)"])
    (use assms in \<open>simp_all add: received_def parser_ready_def splice_at_0_append BUFFER_SIZE_def numeral_eq_Suc\<close>)

lemma encode_body_eq:
  "encode_body ty ad fn data =
     of_nat (length data + 6) # ty # ad # fn # data @
       [ucast (drop_bit 8 (body_sum (of_nat (length data + 6) # ty # ad # fn # data))),
        ucast (body_sum (of_nat (length data + 6) # ty # ad # fn # data))]"
  by (simp add: encode_body_def Let_def)

lemma parsed_data:
  assumes "parser_ready ps" "length data \<le> 120"
  shows "map (recv_data_at (parsed (received ps (n # ty # ad # fn # data @ [hi, lo])) n ty ad fn data hi lo))
     [0..<length data] = map Inr data"
proof (rule nth_equalityI)
  fix i assume "i < length (map (recv_data_at (parsed (received ps (n # ty # ad # fn # data @ [hi, lo])) n ty ad fn data hi lo)) [0..<length data])"
  then have i: "i < length data" by simp
  have len: "length (buffer ps) = 128" "recv_set ps"
    using assms(1) by (simp_all add: parser_ready_def BUFFER_SIZE_def)
  have "buffer (received ps (n # ty # ad # fn # data @ [hi, lo])) ! (5 + i) = data ! i"
    using i assms(2) len
    by (simp add: received_def splice_at_0_append frame_bytes_def nth_append nth_Cons' numeral_eq_Suc)
  moreover have "5 + i < length (buffer (received ps (n # ty # ad # fn # data @ [hi, lo])))"
    using i assms(2) len by (simp add: received_def)
  ultimately have "recv_data_at (parsed (received ps (n # ty # ad # fn # data @ [hi, lo])) n ty ad fn data hi lo) i = Inr (data ! i)"
    using len by (simp add: recv_data_at_def with_recv_def parsed_def received_def)
  with i show "map (recv_data_at (parsed (received ps (n # ty # ad # fn # data @ [hi, lo])) n ty ad fn data hi lo)) [0..<length data] ! i = map Inr data ! i"
    by simp
qed simp

text \<open>A sender's frame, from the ring buffer to the fields.\<close>

lemma frame_delivered:
  assumes "rb_inv rb" "rb_contents rb = noise @ frame_bytes (encode_body ty ad fn data) @ rest"
    "parser_ready ps" "PROTOCOL_START_CODE \<notin> set noise" "length data \<le> 120" "length data \<noteq> 79"
  shows "\<exists>ps' rb' ps''. protocol_recev_data ps rb = Some (Inr (True, ps', rb')) \<and>
     rb_inv rb' \<and> rb_contents rb' = rest \<and> protocol_parser ps' = Inr (True, ps'') \<and>
     protocol_get_robot_type ps'' = Inr ty \<and> protocol_get_robot_addr ps'' = Inr ad \<and>
     protocol_get_function ps'' = Inr fn \<and> unat (protocol_get_data_length ps'') = length data \<and>
     map (recv_data_at ps'') [0..<length data] = map Inr data"
proof -
  let ?b = "encode_body ty ad fn data" and ?n = "of_nat (length data + 6) :: u8"
  obtain rb' where r: "protocol_recev_data ps rb = Some (Inr (True, received ps ?b, rb'))"
    "rb_inv rb'" "rb_contents rb' = rest"
    using recev_frame [OF assms(1-3) body_ok_encode assms(4)] assms(5,6) by blast
  have n: "unat ?n = length data + 6" using assms(5) by (intro unat_u8_of_nat) simp
  note p = parser_received [OF assms(3) n assms(5), of ty ad fn
      "ucast (drop_bit 8 (body_sum (?n # ty # ad # fn # data)))" "ucast (body_sum (?n # ty # ad # fn # data))",
      folded encode_body_eq]
  note d = parsed_data [OF assms(3,5), of ?n ty ad fn
      "ucast (drop_bit 8 (body_sum (?n # ty # ad # fn # data)))" "ucast (body_sum (?n # ty # ad # fn # data))",
      folded encode_body_eq]
  have "recv_set ps" using assms(3) by (simp add: parser_ready_def)
  moreover have "unat (of_nat (length data) :: u8) = length data"
    using assms(5) by (intro unat_u8_of_nat) simp
  ultimately show ?thesis
    using r p d
    by (intro exI [of _ "received ps ?b"] exI [of _ rb'] exI conjI)
      (auto simp: be16_split protocol_get_robot_type_def protocol_get_robot_addr_def protocol_get_function_def
        protocol_get_data_length_def with_recv_def parsed_def received_def)
qed

section \<open>Properties\<close>

text \<open>C3: End to end, a frame that a sender encodes, behind any bytes without a start code, is
  taken from the ring buffer in one call, the bytes behind it stay there, and the parser accepts
  it and hands out every field and every data byte as sent.\<close>

theorem frame_roundtrip:
  assumes "rb_inv rb" "rb_contents rb = noise @ frame_bytes (encode_body ty ad fn data) @ rest"
    "parser_ready ps" "PROTOCOL_START_CODE \<notin> set noise" "length data \<le> 120" "length data \<noteq> 79"
  shows "\<exists>ps' rb' ps''. protocol_recev_data ps rb = Some (Inr (True, ps', rb')) \<and>
     rb_inv rb' \<and> rb_contents rb' = rest \<and> protocol_parser ps' = Inr (True, ps'') \<and>
     protocol_get_robot_type ps'' = Inr ty \<and> protocol_get_robot_addr ps'' = Inr ad \<and>
     protocol_get_function ps'' = Inr fn \<and> unat (protocol_get_data_length ps'') = length data \<and>
     map (recv_data_at ps'') [0..<length data] = map Inr data"
  by (rule frame_delivered [OF assms])

theorem frame_roundtrip_witness:
  "\<exists>ps' rb' ps''. protocol_recev_data (protocol_parser_reinit parser_boot)
       (rb_of ([1, 2] @ frame_bytes (encode_body 0 1 E_ROBOT_CONTROL_DIRECTION [0, 90]) @ [0xAA])) = Some (Inr (True, ps', rb')) \<and>
     rb_contents rb' = [0xAA] \<and> protocol_parser ps' = Inr (True, ps'') \<and>
     protocol_get_function ps'' = Inr E_ROBOT_CONTROL_DIRECTION"
  using frame_roundtrip [of "rb_of ([1, 2] @ frame_bytes (encode_body 0 1 E_ROBOT_CONTROL_DIRECTION [0, 90]) @ [0xAA])"
      "[1, 2]" 0 1 E_ROBOT_CONTROL_DIRECTION "[0, 90]" "[0xAA]" "protocol_parser_reinit parser_boot"]
  by (simp add: rb_of PROTOCOL_START_CODE_def parser_ready_reinit) blast

lemma recv_bytes_result:
  "recv_inv ps l \<Longrightarrow> recv_bytes ps l bs = Inr (b, ps', rest) \<Longrightarrow>
   length (buffer ps') = BUFFER_SIZE \<and> recv_set ps' = recv_set ps \<and> (\<exists>used. used @ rest = bs)"
proof (induction bs arbitrary: ps l)
  case Nil
  then show ?case by (auto simp: recv_inv_def)
next
  case (Cons c bs)
  obtain r ps1 l1 where step: "recv_byte ps l c = Inr (r, ps1, l1)"
    using Cons.prems(2) by (auto simp: rbind_eq_Inr)
  show ?case
  proof (cases r)
    case None
    have "length (buffer ps') = BUFFER_SIZE \<and> recv_set ps' = recv_set ps1 \<and> (\<exists>used. used @ rest = bs)"
      using Cons.IH [OF recv_byte_inv(2) [OF Cons.prems(1) step None]] Cons.prems(2) step None by simp
    then obtain used where "length (buffer ps') = BUFFER_SIZE" "recv_set ps' = recv_set ps1" "used @ rest = bs"
      by blast
    then show ?thesis using recv_byte_inv(3) [OF Cons.prems(1) step]
      by (intro conjI exI [of _ "c # used"]) simp_all
  next
    case (Some v)
    then show ?thesis
      using Cons.prems step recv_byte_inv(1,3) [OF Cons.prems(1) step]
      by (auto intro: exI [of _ "[c]"])
  qed
qed

text \<open>C5: \<open>protocol_recev_data\<close> always returns, whatever bytes are stored, and takes them from the
  front of the ring buffer. It never writes outside the 128-byte frame buffer, and the only
  access outside it is a read, possible only when the byte 126 is among the stored ones.\<close>

theorem recev_returns:
  assumes "rb_inv rb" "length (buffer ps) = BUFFER_SIZE"
  shows "(\<exists>b ps' rb' used. protocol_recev_data ps rb = Some (Inr (b, ps', rb')) \<and> rb_inv rb' \<and>
            length (buffer ps') = BUFFER_SIZE \<and> rb_contents rb = used @ rb_contents rb') \<or>
         protocol_recev_data ps rb = Some (Inl Oob_Read) \<and> 126 \<in> set (rb_contents rb)"
proof (cases "recv_bytes ps recv_start (rb_contents rb)")
  case (Inl e)
  with recv_bytes_fault [OF recv_inv_start [OF assms(2)] Inl] protocol_recev_data_bytes [OF assms(1), of ps]
  show ?thesis by (simp add: recv_start_def)
next
  case (Inr t)
  obtain b ps' rest where t: "t = (b, ps', rest)" by (cases t)
  from recv_bytes_result [OF recv_inv_start [OF assms(2)] Inr [unfolded t]] obtain used where
    "length (buffer ps') = BUFFER_SIZE" "used @ rest = rb_contents rb" by blast
  moreover from recv_bytes_Inr_loop [OF assms(1) Inr [unfolded t]] obtain rb' where
    "protocol_recev_data ps rb = Some (Inr (b, ps', rb'))" "rb_inv rb'" "rb_contents rb' = rest" .
  ultimately show ?thesis by (intro disjI1 exI [of _ b] exI [of _ ps'] exI [of _ rb'] exI [of _ used]) simp
qed

theorem recev_returns_witness:
  "\<exists>b ps' rb' used. protocol_recev_data parser_boot (rb_of [0xAA, 3, 4]) = Some (Inr (b, ps', rb')) \<and>
     length (buffer ps') = BUFFER_SIZE \<and> [0xAA, 3, 4] = used @ rb_contents rb'"
  using recev_returns [of "rb_of [0xAA, 3, 4]" parser_boot] by (simp add: rb_of parser_boot_def) blast

lemma resync_overread:
  assumes "length buf = 128" "buf ! 127 = PROTOCOL_START_CODE"
  shows "resync buf 127 l = Inl Oob_Read"
  using resync.simps(2) [of buf 126 l] assms by simp

text \<open>C34: The read outside the buffer does happen: a frame with the largest accepted length whose
  closing byte is a start code fills the buffer up to index 127, and the search for a new start
  code then takes the length of the new frame from \<open>buffer[128]\<close>.\<close>

theorem recev_overread:
  assumes "rb_inv rb" "rb_contents rb = PROTOCOL_START_CODE # body @ PROTOCOL_START_CODE # rest"
    "length (buffer ps) = BUFFER_SIZE" "body_ok body" "length body = 126"
  shows "protocol_recev_data ps rb = Some (Inl Oob_Read)"
proof -
  obtain b bs where body: "body = b # bs" "length bs = 125"
    using assms(5) by (cases body) simp_all
  have len: "length (buffer ps) = 128" using assms(3) by (simp add: BUFFER_SIZE_def)
  let ?ps = "ps\<lparr>buffer := splice_at 0 (PROTOCOL_START_CODE # body) (buffer ps)\<rparr>"
  let ?l = "recv_start\<lparr>avilable := True, preRecvLen := 126, ptr_p := 127, m_RecvDataIndex := 126\<rparr>"
  have "recv_bytes ps recv_start (rb_contents rb) = recv_bytes ?ps ?l (PROTOCOL_START_CODE # rest)"
    using recv_bytes_frame_prefix [of recv_start ps b bs "[]" "PROTOCOL_START_CODE # rest"] assms(2,4) len body
    by (simp add: recv_start_def)
  also have "recv_byte ?ps ?l PROTOCOL_START_CODE = Inl Oob_Read"
    using len body
    by (simp add: recv_byte_def Let_def BUFFER_SIZE_def resync_overread PROTOCOL_START_CODE_def
        PROTOCOL_END_CODE_def del: resync.simps)
  then have "recv_bytes ?ps ?l (PROTOCOL_START_CODE # rest) = Inl Oob_Read" by simp
  finally show ?thesis using protocol_recev_data_bytes [OF assms(1), of ps] by simp
qed

theorem recev_overread_witness:
  "protocol_recev_data parser_boot (rb_of (PROTOCOL_START_CODE # (126 # replicate 125 0) @ [PROTOCOL_START_CODE]))
     = Some (Inl Oob_Read)"
  using recev_overread [of "rb_of (PROTOCOL_START_CODE # (126 # replicate 125 0) @ [PROTOCOL_START_CODE])"
      "126 # replicate 125 0" "[]" parser_boot]
  by (simp add: rb_of body_ok_def parser_boot_def PROTOCOL_END_CODE_def)

text \<open>Without a start code nothing is received and everything is consumed.\<close>

lemma recv_bytes_noise:
  "\<not> avilable l \<Longrightarrow> PROTOCOL_START_CODE \<notin> set bs \<Longrightarrow> recv_bytes ps l bs = Inr (False, ps, [])"
  using recv_bytes_skip [of l bs ps "[]"] by simp

text \<open>The state of a reception is local to the call, so a frame that arrives in two pieces is
  lost: the first call consumes the piece and reports success, although the parser then refuses
  it; the second call drops the rest, when that has no start code.\<close>

theorem split_frame_lost:
  assumes "rb_inv rb1" "rb_contents rb1 = PROTOCOL_START_CODE # b # bs" "parser_ready ps" "\<not> m_recv_flag ps"
    "body_ok (b # bs @ bs')" "PROTOCOL_START_CODE \<notin> set bs'"
  shows "\<exists>ps1 rb1'. protocol_recev_data ps rb1 = Some (Inr (True, ps1, rb1')) \<and> rb_contents rb1' = [] \<and>
     protocol_parser ps1 = Inr (False, ps1) \<and>
     (\<forall>rb2. rb_inv rb2 \<and> rb_contents rb2 = bs' @ [PROTOCOL_END_CODE] \<longrightarrow>
        (\<exists>rb2'. protocol_recev_data (protocol_parser_reinit ps1) rb2 =
            Some (Inr (False, protocol_parser_reinit ps1, rb2')) \<and> rb_contents rb2' = []))"
proof -
  let ?ps1 = "ps\<lparr>buffer := splice_at 0 (PROTOCOL_START_CODE # b # bs) (buffer ps)\<rparr>"
  have "recv_bytes ps recv_start (rb_contents rb1) = Inr (True, ?ps1, [])"
    using recv_bytes_frame_prefix [of recv_start ps b bs bs' "[]"] assms(2,3,5)
    by (simp add: recv_start_def parser_ready_def BUFFER_SIZE_def)
  from recv_bytes_Inr_loop [OF assms(1) this] obtain rb1' where
    r1: "protocol_recev_data ps rb1 = Some (Inr (True, ?ps1, rb1'))" "rb_contents rb1' = []" .
  have "protocol_parser ?ps1 = Inr (False, ?ps1)"
    using assms(4) by (simp add: protocol_parser_def)
  moreover have "\<exists>rb2'. protocol_recev_data ps' rb2 = Some (Inr (False, ps', rb2')) \<and> rb_contents rb2' = []"
    if "rb_inv rb2" "rb_contents rb2 = bs' @ [PROTOCOL_END_CODE]" for rb2 ps'
  proof -
    have "recv_bytes ps' recv_start (rb_contents rb2) = Inr (False, ps', [])"
      unfolding that(2) by (rule recv_bytes_noise)
        (use assms(6) in \<open>simp_all add: recv_start_def PROTOCOL_START_CODE_def PROTOCOL_END_CODE_def\<close>)
    from recv_bytes_Inr_loop [OF that(1) this] show ?thesis by blast
  qed
  ultimately show ?thesis using r1 by blast
qed

theorem split_frame_lost_witness:
  "\<exists>ps1 rb1'. protocol_recev_data (protocol_parser_reinit parser_boot) (rb_of [PROTOCOL_START_CODE, 7, 1]) =
     Some (Inr (True, ps1, rb1')) \<and> protocol_parser ps1 = Inr (False, ps1) \<and>
     (\<exists>rb2'. protocol_recev_data (protocol_parser_reinit ps1) (rb_of [0, 5, 9, 0, 22, PROTOCOL_END_CODE]) =
            Some (Inr (False, protocol_parser_reinit ps1, rb2')) \<and> rb_contents rb2' = [])"
proof -
  have ok: "body_ok (7 # [1] @ [0, 5, 9, 0, 22])" by (simp add: body_ok_def PROTOCOL_END_CODE_def)
  have fl: "\<not> m_recv_flag (protocol_parser_reinit parser_boot)" by (simp add: protocol_parser_reinit_def)
  have st: "PROTOCOL_START_CODE \<notin> set [0, 5, 9, 0, 22]" by (simp add: PROTOCOL_START_CODE_def)
  have i: "rb_inv (rb_of [PROTOCOL_START_CODE, 7, 1])"
    "rb_contents (rb_of [PROTOCOL_START_CODE, 7, 1]) = [PROTOCOL_START_CODE, 7, 1]"
    "rb_inv (rb_of [0, 5, 9, 0, 22, PROTOCOL_END_CODE])"
    "rb_contents (rb_of [0, 5, 9, 0, 22, PROTOCOL_END_CODE]) = [0, 5, 9, 0, 22] @ [PROTOCOL_END_CODE]"
    by (simp_all add: rb_of)
  from split_frame_lost [OF i(1,2) parser_ready_reinit fl ok st] i(3,4) show ?thesis by blast
qed

text \<open>A frame of 79 data bytes has the length byte \<open>0x55\<close>, which the receiver takes for the end
  of an empty frame: it reports a frame of two bytes, which the parser refuses, and leaves the
  rest of the frame in the ring buffer.\<close>

theorem frame_79_refused:
  assumes "rb_inv rb" "rb_contents rb = frame_bytes (encode_body ty ad fn data) @ rest" "length data = 79"
  shows "\<exists>ps' rb'. protocol_recev_data (protocol_parser_reinit ps) rb = Some (Inr (True, ps', rb')) \<and>
     rb_contents rb' = tl (encode_body ty ad fn data) @ PROTOCOL_END_CODE # rest \<and>
     unat (m_package_length ps') = 2 \<and> (\<exists>ps''. protocol_parser ps' = Inr (False, ps''))"
proof -
  let ?ps = "protocol_parser_reinit ps"
  let ?buf = "(replicate 128 0)[0 := PROTOCOL_START_CODE, 1 := PROTOCOL_END_CODE]"
  let ?ps' = "?ps\<lparr>buffer := ?buf, m_package_length := 2, m_recv_flag := True\<rparr>"
  let ?rest = "tl (encode_body ty ad fn data) @ PROTOCOL_END_CODE # rest"
  have "encode_body ty ad fn data = PROTOCOL_END_CODE # tl (encode_body ty ad fn data)"
    by (simp add: encode_body_def Let_def assms(3) PROTOCOL_END_CODE_def)
  then have "frame_bytes (encode_body ty ad fn data) @ rest = PROTOCOL_START_CODE # PROTOCOL_END_CODE # ?rest"
    by (metis append_Cons append_Nil append_assoc frame_bytes_def)
  then have "rb_contents rb = PROTOCOL_START_CODE # PROTOCOL_END_CODE # ?rest" using assms(2) by simp
  moreover have "buffer ?ps = replicate 128 0" by (simp add: protocol_parser_reinit_def BUFFER_SIZE_def)
  ultimately have "recv_bytes ?ps recv_start (rb_contents rb) = Inr (True, ?ps', ?rest)"
    by (simp add: recv_byte_def recv_start_def PROTOCOL_START_CODE_def)
  from recv_bytes_Inr_loop [OF assms(1) this] obtain rb' where
    r: "protocol_recev_data ?ps rb = Some (Inr (True, ?ps', rb'))" "rb_contents rb' = ?rest" .
  have zeros: "body_sum (take 79 (drop 5 ?buf)) = 0" and len: "length ?buf = 128"
    by (simp_all add: drop_update_swap body_sum_def sum_list_replicate)
  have "protocol_check_sum (?ps'\<lparr>m_header := Some 0, protocol_data_len := 79,
      package := (package ?ps')\<lparr>pr_start_code := PROTOCOL_START_CODE, pr_len := 0x55, pr_type := 0,
        pr_addr := 0, pr_function := 0, pr_data := Some 5, pr_sum := be16 0 0\<rparr>\<rparr>) = Inr 0x55"
    using zeros len by (simp add: protocol_check_sum_def protocol_parser_reinit_def check_sum_loop_eq)
  then have "\<exists>ps''. protocol_parser ?ps' = Inr (False, ps'')"
    by (simp add: protocol_parser_def Let_def protocol_parser_reinit_def be16_def PROTOCOL_END_CODE_def)
  with r show ?thesis by (intro exI [of _ ?ps'] exI [of _ rb']) simp
qed

theorem frame_79_refused_witness:
  "\<exists>ps' rb'. protocol_recev_data (protocol_parser_reinit parser_boot)
       (rb_of (frame_bytes (encode_body 0 0 0 (replicate 79 3)) @ [])) = Some (Inr (True, ps', rb')) \<and>
     (\<exists>ps''. protocol_parser ps' = Inr (False, ps''))"
proof -
  have i: "rb_inv (rb_of (frame_bytes (encode_body 0 0 0 (replicate 79 3)) @ []))"
    "rb_contents (rb_of (frame_bytes (encode_body 0 0 0 (replicate 79 3)) @ [])) =
      frame_bytes (encode_body 0 0 0 (replicate 79 3)) @ []"
    by (simp_all add: rb_of)
  from frame_79_refused [OF i, of parser_boot] show ?thesis by auto
qed

lemma u8_u16_inject: "(ucast (a :: u8) :: u16) = ucast b \<longleftrightarrow> a = b"
  using be16_inject [of 0 a 0 b] by (simp add: be16_def)

text \<open>C22: The checksum catches every change of a single byte behind the length byte: a frame that
  was changed so is refused, and so is no unchanged one.\<close>

theorem single_byte_error_refused:
  assumes "parser_ready ps" "length data \<le> 120" "0 < i" "i < length data + 6"
  shows "\<exists>ps'. protocol_parser (received ps ((encode_body ty ad fn data)[i := v])) =
     Inr (v = encode_body ty ad fn data ! i, ps')"
proof -
  obtain n :: u8 where n: "n = of_nat (length data + 6)" by blast
  have un: "unat n = length data + 6" unfolding n using assms(2) by (intro unat_u8_of_nat) simp
  let ?b = "n # ty # ad # fn # data"
  obtain hi lo where sum: "body_sum ?b = be16 hi lo" and enc: "encode_body ty ad fn data = ?b @ [hi, lo]"
    by (metis append_Cons be16_split encode_body_eq n)
  consider (body) "i < length ?b" | (hi) "i = length ?b" | (lo) "i = Suc (length ?b)"
    using assms(4) by fastforce
  then show ?thesis
  proof cases
    case body
    then obtain k where k: "i = Suc k" using assms(3) by (cases i) simp_all
    obtain ty' ad' fn' data' where u: "(ty # ad # fn # data)[k := v] = ty' # ad' # fn' # data'"
        "length data' = length data"
      using length_list_update [of "ty # ad # fn # data" k v] that
      by (auto simp: length_Suc_conv simp del: length_list_update)
    have b': "?b[i := v] = n # ty' # ad' # fn' # data'" using k u by simp
    have upd: "(encode_body ty ad fn data)[i := v] = n # ty' # ad' # fn' # data' @ [hi, lo]"
      unfolding enc list_update_append1 [OF body] b' by simp
    have at: "encode_body ty ad fn data ! i = ?b ! i"
      unfolding enc nth_append using body by simp
    have "body_sum (?b[i := v]) + ucast (?b ! i) = body_sum ?b + ucast v"
      by (rule body_sum_update [OF body])
    then have "body_sum (n # ty' # ad' # fn' # data') = body_sum ?b \<longleftrightarrow> v = ?b ! i"
      unfolding b' by (metis add.commute add_left_cancel u8_u16_inject)
    then show ?thesis
      using parser_received [OF assms(1), of n data' ty' ad' fn' hi lo] un u(2) assms(2)
      unfolding upd at sum by auto
  next
    case hi
    then have "(encode_body ty ad fn data)[i := v] = ?b @ [v, lo]" "encode_body ty ad fn data ! i = hi"
      unfolding enc by (simp_all only: list_update_append nth_append) simp_all
    then show ?thesis
      using parser_received [OF assms(1) un assms(2), of ty ad fn v lo] unfolding sum be16_inject
      by auto
  next
    case lo
    then have "(encode_body ty ad fn data)[i := v] = ?b @ [hi, v]" "encode_body ty ad fn data ! i = lo"
      unfolding enc by (simp_all only: list_update_append nth_append) simp_all
    then show ?thesis
      using parser_received [OF assms(1) un assms(2), of ty ad fn hi v] unfolding sum be16_inject
      by auto
  qed
qed

theorem single_byte_error_refused_witness:
  "\<exists>ps'. protocol_parser (received (protocol_parser_reinit parser_boot)
       ((encode_body 0 1 E_ROBOT_CONTROL_SPEED [50])[4 := 51])) = Inr (False, ps')"
  using single_byte_error_refused [OF parser_ready_reinit, of "[50]" 4 parser_boot 0 1 E_ROBOT_CONTROL_SPEED 51]
  by (simp add: encode_body_eq nth_append)

text \<open>A length byte below six, which is less than the fixed fields take, is accepted by the
  receiver; the parser then computes the data length modulo 256 and looks for the checksum far
  behind the buffer.\<close>

theorem short_frame_overread:
  assumes "rb_inv rb" "rb_contents rb = frame_bytes body @ rest" "parser_ready ps"
    "body_ok body" "length body < 6"
  shows "\<exists>ps' rb'. protocol_recev_data ps rb = Some (Inr (True, ps', rb')) \<and>
     protocol_parser ps' = Inl Oob_Read"
proof -
  obtain rb' where r: "protocol_recev_data ps rb = Some (Inr (True, received ps body, rb'))"
    using recev_frame [OF assms(1) _ assms(3,4), of "[]" rest] assms(2) by auto
  obtain b bs where body: "body = b # bs" "unat b = Suc (length bs)"
    using assms(4) by (auto simp: body_ok_def neq_Nil_conv)
  have len: "length (buffer (received ps body)) = 128" and at: "buffer (received ps body) ! 1 = b"
    and set: "recv_set (received ps body)"
    using assms(3,5) body by (simp_all add: received_def parser_ready_def BUFFER_SIZE_def splice_at_0_append frame_bytes_def)
  have "unat (b - 6) = 256 + unat b - 6"
    using assms(5) body by (simp add: unat_sub_if_size word_size word_le_nat_alt)
  then have "128 \<le> 5 + unat (b - 6)" by simp
  then have "protocol_parser (received ps body) = Inl Oob_Read"
    using len at set by (simp add: protocol_parser_def Let_def received_def)
  with r show ?thesis by blast
qed

theorem short_frame_overread_witness:
  "\<exists>ps' rb'. protocol_recev_data (protocol_parser_reinit parser_boot) (rb_of (frame_bytes [3, 0, 0] @ [])) =
     Some (Inr (True, ps', rb')) \<and> protocol_parser ps' = Inl Oob_Read"
  using short_frame_overread [of "rb_of (frame_bytes [3, 0, 0] @ [])" "[3, 0, 0]" "[]" "protocol_parser_reinit parser_boot"]
  by (simp add: rb_of body_ok_def PROTOCOL_END_CODE_def parser_ready_reinit)

end
