(* ===== verification/Hardware.thy ===== *)
theory Hardware
  imports Prelude
begin

text \<open>
  The boundary of the robot code: the device, pin and memory calls it makes on the drivers of
  RT-Thread, recorded as events in the order of the calls, and the effect of the events on the
  outputs of the board. The clock of the kernel that the drivers are timed by is read through
  \<open>rt_tick_get\<close> (a \<open>now\<close> argument) and \<open>rt_tick_from_millisecond\<close>
  (\<^verbatim>\<open>rt-thread/src/clock.c\<close>).

  Devices and pins are named by numbers. \<open>PIN_LOW\<close> and \<open>PIN_HIGH\<close> are 0 and 1.
\<close>

section \<open>Calls on the drivers\<close>

type_synonym dev = nat

datatype hw_event =
    Pwm_Set dev int u32 u32
  | Pwm_Enable dev int
  | Pwm_Disable dev int
  | Pin_Write int int
  | Pin_Mode int nat
  | Pin_Attach_Irq int nat
  | Pin_Detach_Irq int
  | Pin_Irq_Enable int bool
  | Mem_Alloc
  | Mem_Free
  | Delay_Ms u16

definition PIN_LOW :: int where "PIN_LOW = 0"
definition PIN_HIGH :: int where "PIN_HIGH = 1"

text \<open>The modes of \<^verbatim>\<open>components/drivers/include/drivers/pin.h\<close>.\<close>

definition PIN_MODE_OUTPUT :: nat where "PIN_MODE_OUTPUT = 0"
definition PIN_MODE_INPUT :: nat where "PIN_MODE_INPUT = 1"
definition PIN_MODE_INPUT_PULLUP :: nat where "PIN_MODE_INPUT_PULLUP = 2"
definition PIN_IRQ_MODE_FALLING :: nat where "PIN_IRQ_MODE_FALLING = 1"
definition PIN_IRQ_MODE_RISING_FALLING :: nat where "PIN_IRQ_MODE_RISING_FALLING = 2"

lemmas pin_consts = PIN_LOW_def PIN_HIGH_def PIN_MODE_OUTPUT_def PIN_MODE_INPUT_def
  PIN_MODE_INPUT_PULLUP_def PIN_IRQ_MODE_FALLING_def PIN_IRQ_MODE_RISING_FALLING_def

text \<open>The outputs of the board, and what the events make of them.\<close>

record board =
  pwm_pulse :: "dev \<times> int \<Rightarrow> u32"
  pwm_on :: "dev \<times> int \<Rightarrow> bool"
  pin_level :: "int \<Rightarrow> int"
  heap_live :: int

fun board_step :: "hw_event \<Rightarrow> board \<Rightarrow> board" where
  "board_step (Pwm_Set d c period pulse) b = b\<lparr>pwm_pulse := (pwm_pulse b)((d, c) := pulse)\<rparr>"
| "board_step (Pwm_Enable d c) b = b\<lparr>pwm_on := (pwm_on b)((d, c) := True)\<rparr>"
| "board_step (Pwm_Disable d c) b = b\<lparr>pwm_on := (pwm_on b)((d, c) := False)\<rparr>"
| "board_step (Pin_Write p v) b = b\<lparr>pin_level := (pin_level b)(p := v)\<rparr>"
| "board_step Mem_Alloc b = b\<lparr>heap_live := heap_live b + 1\<rparr>"
| "board_step Mem_Free b = b\<lparr>heap_live := heap_live b - 1\<rparr>"
| "board_step _ b = b"

fun board_run :: "hw_event list \<Rightarrow> board \<Rightarrow> board" where
  "board_run [] b = b"
| "board_run (e # es) b = board_run es (board_step e b)"

lemma board_run_append [simp]: "board_run (es @ fs) b = board_run fs (board_run es b)"
  by (induction es arbitrary: b) auto

definition board_reset :: board where
  "board_reset = \<lparr>pwm_pulse = (\<lambda>_. 0), pwm_on = (\<lambda>_. False), pin_level = (\<lambda>_. 0), heap_live = 0\<rparr>"

section \<open>Ticks\<close>

definition RT_TICK_PER_SECOND :: int where "RT_TICK_PER_SECOND = 1000"
definition RT_WAITING_FOREVER :: int where "RT_WAITING_FOREVER = -1"

definition rt_tick_from_millisecond :: "int \<Rightarrow> u32" where
  "rt_tick_from_millisecond ms =
     (if ms < 0 then word_of_int RT_WAITING_FOREVER
      else (let tick = word_of_int (RT_TICK_PER_SECOND * (ms div 1000))
            in tick + word_of_int ((RT_TICK_PER_SECOND * (ms mod 1000) + 999) div 1000)))"

lemma tick_from_ms:
  assumes "0 \<le> ms"
  shows "rt_tick_from_millisecond ms = word_of_int ms"
proof -
  have "(1000 * (ms mod 1000) + 999) div 1000 = ms mod 1000" by simp
  then have "1000 * (ms div 1000) + (1000 * (ms mod 1000) + 999) div 1000 = ms" by simp
  then show ?thesis
    using assms by (simp only: rt_tick_from_millisecond_def Let_def RT_TICK_PER_SECOND_def wi_hom_add) simp
qed

end
