(* ===== verification/Motor.thy ===== *)
theory Motor
  imports Hardware
begin

text \<open>
  The motor drivers of the robot package, \<^verbatim>\<open>motor/motor.c\<close>,
  \<^verbatim>\<open>motor/single_pwm_motor.c\<close> and \<^verbatim>\<open>motor/dual_pwm_motor.c\<close>.

  The function pointers of \<open>struct motor\<close> are set by the two constructors only; a motor is
  therefore one of two datatype constructors and the calls through the pointers are case
  distinctions. A null motor is \<open>None\<close>. Each operation returns the driver calls it makes.
\<close>

section \<open>State\<close>

definition MOTOR_PWM_PERIOD :: int where "MOTOR_PWM_PERIOD = 50000"

record single_pwm_motor =
  pwm_dev :: dev
  channel :: int
  pin1 :: int
  pin2 :: int

record dual_pwm_motor =
  pwm1_dev :: dev
  pwm1_channel :: int
  pwm2_dev :: dev
  pwm2_channel :: int

datatype motor = Single_Pwm single_pwm_motor | Dual_Pwm dual_pwm_motor

definition assert_ptr :: "'a option \<Rightarrow> ('a \<Rightarrow> fault + 'b) \<Rightarrow> fault + 'b" where
  "assert_ptr p f = (case p of None \<Rightarrow> Inl Assert_Fail | Some x \<Rightarrow> f x)"

lemma assert_ptr_simps [simp, fault_simps]:
  "assert_ptr None f = Inl Assert_Fail" "assert_ptr (Some x) f = f x"
  by (simp_all add: assert_ptr_def)

section \<open>Speed\<close>

text \<open>\<open>rt_uint32_t pluse = MOTOR_PWM_PERIOD * thousands / 1000\<close> and its clamp.\<close>

definition motor_pluse :: "int \<Rightarrow> fault + u32" where
  "motor_pluse thousands =
     rbind (chk32 (MOTOR_PWM_PERIOD * thousands)) (\<lambda>v.
     rbind (cdiv v 1000) (\<lambda>q.
       let pluse = (word_of_int q :: u32)
       in Inr (if pluse > word_of_int MOTOR_PWM_PERIOD then word_of_int MOTOR_PWM_PERIOD else pluse)))"

definition single_pwm_motor_set_speed :: "single_pwm_motor option \<Rightarrow> int \<Rightarrow> fault + hw_event list" where
  "single_pwm_motor_set_speed mot thousands =
     assert_ptr mot (\<lambda>m.
       let set = (\<lambda>pulse. Pwm_Set (pwm_dev m) (channel m) (word_of_int MOTOR_PWM_PERIOD) pulse)
       in if thousands = 0 then
            Inr [set 0, Pin_Write (pin1 m) PIN_LOW, Pin_Write (pin2 m) PIN_LOW]
          else
            let (thousands, pins) =
                  (if thousands < 0
                   then (s16 (- thousands), [Pin_Write (pin1 m) PIN_HIGH, Pin_Write (pin2 m) PIN_LOW])
                   else (thousands, [Pin_Write (pin1 m) PIN_LOW, Pin_Write (pin2 m) PIN_HIGH]))
            in rbind (motor_pluse thousands) (\<lambda>pluse. Inr (pins @ [set pluse])))"

definition dual_pwm_motor_set_speed :: "dual_pwm_motor option \<Rightarrow> int \<Rightarrow> fault + hw_event list" where
  "dual_pwm_motor_set_speed mot thousands =
     assert_ptr mot (\<lambda>m.
       let set1 = Pwm_Set (pwm1_dev m) (pwm1_channel m) (word_of_int MOTOR_PWM_PERIOD);
           set2 = Pwm_Set (pwm2_dev m) (pwm2_channel m) (word_of_int MOTOR_PWM_PERIOD)
       in if thousands = 0 then Inr [set1 0, set2 0]
          else if thousands > 0 then
            rbind (motor_pluse thousands) (\<lambda>pluse. Inr [set1 pluse, set2 0])
          else
            rbind (motor_pluse (- thousands)) (\<lambda>pluse. Inr [set1 0, set2 pluse]))"

section \<open>Enabling, creation, dispatch\<close>

definition single_pwm_motor_enable :: "single_pwm_motor option \<Rightarrow> fault + hw_event list" where
  "single_pwm_motor_enable mot = assert_ptr mot (\<lambda>m. Inr [Pwm_Enable (pwm_dev m) (channel m)])"

definition single_pwm_motor_disable :: "single_pwm_motor option \<Rightarrow> fault + hw_event list" where
  "single_pwm_motor_disable mot = assert_ptr mot (\<lambda>m. Inr [Pwm_Disable (pwm_dev m) (channel m)])"

definition dual_pwm_motor_enable :: "dual_pwm_motor option \<Rightarrow> fault + hw_event list" where
  "dual_pwm_motor_enable mot = assert_ptr mot (\<lambda>m.
     Inr [Pwm_Enable (pwm1_dev m) (pwm1_channel m), Pwm_Enable (pwm2_dev m) (pwm2_channel m)])"

definition dual_pwm_motor_disable :: "dual_pwm_motor option \<Rightarrow> fault + hw_event list" where
  "dual_pwm_motor_disable mot = assert_ptr mot (\<lambda>m.
     Inr [Pwm_Disable (pwm1_dev m) (pwm1_channel m), Pwm_Disable (pwm2_dev m) (pwm2_channel m)])"

text \<open>\<open>motor_create\<close>: the allocation, which succeeds or not (\<open>mem_ok\<close>).\<close>

definition motor_create :: "bool \<Rightarrow> hw_event list \<times> bool" where
  "motor_create mem_ok = (if mem_ok then ([Mem_Alloc], True) else ([], False))"

text \<open>\<open>dev_find\<close> is \<open>rt_device_find\<close> on the devices that are registered.\<close>

definition single_pwm_motor_create ::
    "bool \<Rightarrow> (string \<Rightarrow> dev option) \<Rightarrow> string \<Rightarrow> int \<Rightarrow> int \<Rightarrow> int \<Rightarrow> hw_event list \<times> single_pwm_motor option" where
  "single_pwm_motor_create mem_ok dev_find pwm ch p1 p2 =
     (let (ev, ok) = motor_create mem_ok
      in if \<not> ok then (ev, None)
         else (case dev_find pwm of
                 None \<Rightarrow> (ev @ [Mem_Free], None)
               | Some d \<Rightarrow>
                   (ev @ [Pin_Mode p1 PIN_MODE_OUTPUT, Pin_Mode p2 PIN_MODE_OUTPUT],
                    Some \<lparr>pwm_dev = d, channel = ch, pin1 = p1, pin2 = p2\<rparr>)))"

definition dual_pwm_motor_create ::
    "bool \<Rightarrow> (string \<Rightarrow> dev option) \<Rightarrow> string \<Rightarrow> int \<Rightarrow> string \<Rightarrow> int \<Rightarrow> hw_event list \<times> dual_pwm_motor option" where
  "dual_pwm_motor_create mem_ok dev_find pwm1 ch1 pwm2 ch2 =
     (let (ev, ok) = motor_create mem_ok
      in if \<not> ok then (ev, None)
         else (case dev_find pwm1 of
                 None \<Rightarrow> (ev @ [Mem_Free], None)
               | Some d1 \<Rightarrow>
                   (case dev_find pwm2 of
                      None \<Rightarrow> (ev @ [Mem_Free], None)
                    | Some d2 \<Rightarrow>
                        (ev, Some \<lparr>pwm1_dev = d1, pwm1_channel = ch1, pwm2_dev = d2, pwm2_channel = ch2\<rparr>))))"

definition motor_enable :: "motor option \<Rightarrow> fault + hw_event list" where
  "motor_enable mot = assert_ptr mot (\<lambda>m.
     case m of Single_Pwm s \<Rightarrow> single_pwm_motor_enable (Some s) | Dual_Pwm d \<Rightarrow> dual_pwm_motor_enable (Some d))"

definition motor_disable :: "motor option \<Rightarrow> fault + hw_event list" where
  "motor_disable mot = assert_ptr mot (\<lambda>m.
     case m of Single_Pwm s \<Rightarrow> single_pwm_motor_disable (Some s) | Dual_Pwm d \<Rightarrow> dual_pwm_motor_disable (Some d))"

definition motor_run :: "motor option \<Rightarrow> int \<Rightarrow> fault + hw_event list" where
  "motor_run mot thousands = assert_ptr mot (\<lambda>m.
     case m of Single_Pwm s \<Rightarrow> single_pwm_motor_set_speed (Some s) thousands
             | Dual_Pwm d \<Rightarrow> dual_pwm_motor_set_speed (Some d) thousands)"

definition motor_stop :: "motor option \<Rightarrow> fault + hw_event list" where
  "motor_stop mot = assert_ptr mot (\<lambda>m. motor_run (Some m) 0)"

definition motor_destroy :: "motor option \<Rightarrow> fault + hw_event list" where
  "motor_destroy mot = assert_ptr mot (\<lambda>m. rbind (motor_disable (Some m)) (\<lambda>ev. Inr (ev @ [Mem_Free])))"

section \<open>What the motor is made to do\<close>

text \<open>
  The drive of a motor: the sign is the direction that its control lines select, the amount the
  pulse width. A motor whose two lines are equal is braked.
\<close>

definition single_drive :: "single_pwm_motor \<Rightarrow> board \<Rightarrow> int" where
  "single_drive m b =
     (if pin_level b (pin1 m) = PIN_LOW \<and> pin_level b (pin2 m) = PIN_HIGH then uint (pwm_pulse b (pwm_dev m, channel m))
      else if pin_level b (pin1 m) = PIN_HIGH \<and> pin_level b (pin2 m) = PIN_LOW then - uint (pwm_pulse b (pwm_dev m, channel m))
      else 0)"

definition dual_drive :: "dual_pwm_motor \<Rightarrow> board \<Rightarrow> int" where
  "dual_drive m b = uint (pwm_pulse b (pwm1_dev m, pwm1_channel m)) - uint (pwm_pulse b (pwm2_dev m, pwm2_channel m))"

definition motor_drive :: "motor \<Rightarrow> board \<Rightarrow> int" where
  "motor_drive m b = (case m of Single_Pwm s \<Rightarrow> single_drive s b | Dual_Pwm d \<Rightarrow> dual_drive d b)"

text \<open>The two lines, or the two channels, of a motor are different ones.\<close>

definition motor_wired :: "motor \<Rightarrow> bool" where
  "motor_wired m = (case m of Single_Pwm s \<Rightarrow> pin1 s \<noteq> pin2 s
     | Dual_Pwm d \<Rightarrow> (pwm1_dev d, pwm1_channel d) \<noteq> (pwm2_dev d, pwm2_channel d))"

text \<open>The specification: thousandths of the period, saturated, with the sign of the argument.\<close>

definition duty :: "int \<Rightarrow> int" where
  "duty thousands = sgn thousands * (50 * min 1000 \<bar>thousands\<bar>)"

lemma uint_u32: "0 \<le> x \<Longrightarrow> x < 4294967296 \<Longrightarrow> uint (word_of_int x :: u32) = x"
  by (simp add: uint_word_of_int_eq take_bit_int_eq_self)

lemma sdiv_exact: "0 < b \<Longrightarrow> (b * c) sdiv b = (c :: int)"
  by (simp add: signed_divide_int_def abs_mult sgn_mult sgn_mult_abs)

lemma motor_pluse_pos:
  assumes "0 \<le> t" "t \<le> 32768"
  shows "motor_pluse t = Inr (word_of_int (50 * min 1000 t))"
proof -
  have "50000 * t = 1000 * (50 * t)" by simp
  then have "(50000 * t) sdiv 1000 = 50 * t" by (simp only: sdiv_exact)
  then have "cdiv (50000 * t) 1000 = Inr (50 * t)" using assms by (simp add: cdiv_def)
  moreover have "(word_of_int (50 * t) :: u32) > word_of_int 50000 \<longleftrightarrow> t > 1000"
    using assms by (simp only: word_less_alt uint_u32) simp
  ultimately show ?thesis
    using assms by (auto simp: motor_pluse_def MOTOR_PWM_PERIOD_def min_def)
qed

lemma motor_pluse_wrapped: "motor_pluse (-32768) = Inr 50000"
  by (simp add: motor_pluse_def MOTOR_PWM_PERIOD_def cdiv_def chk32_def signed_divide_int_def word_less_alt)

lemma motor_pluse_neg:
  assumes "-32768 \<le> t" "t < 0"
  shows "motor_pluse (s16 (- t)) = Inr (word_of_int (50 * min 1000 (- t)))"
proof (cases "t = -32768")
  case True
  then show ?thesis
    by (simp add: motor_pluse_wrapped s16_def signed_take_bit_eq_take_bit_shift take_bit_eq_mod)
next
  case False
  then show ?thesis using assms by (simp add: s16_id motor_pluse_pos)
qed

lemma single_set_speed_drive:
  assumes "-32768 \<le> t" "t < 32768" "pin1 m \<noteq> pin2 m"
  shows "\<exists>ev. single_pwm_motor_set_speed (Some m) t = Inr ev \<and> single_drive m (board_run ev b) = duty t"
proof -
  have u: "uint (word_of_int (50 * min 1000 \<bar>t\<bar>) :: u32) = 50 * min 1000 \<bar>t\<bar>"
    by (rule uint_u32) simp_all
  consider "t = 0" | "t > 0" | "t < 0" by linarith
  then show ?thesis
  proof cases
    case 1
    then show ?thesis using assms(3)
      by (simp add: single_pwm_motor_set_speed_def single_drive_def pin_consts duty_def)
  next
    case 2
    with assms motor_pluse_pos [of t] show ?thesis using u
      by (simp add: single_pwm_motor_set_speed_def single_drive_def pin_consts duty_def)
  next
    case 3
    with assms motor_pluse_neg [of t] show ?thesis using u
      by (simp add: single_pwm_motor_set_speed_def single_drive_def pin_consts duty_def)
  qed
qed

lemma dual_set_speed_drive:
  assumes "-32768 \<le> t" "t < 32768" "(pwm1_dev m, pwm1_channel m) \<noteq> (pwm2_dev m, pwm2_channel m)"
  shows "\<exists>ev. dual_pwm_motor_set_speed (Some m) t = Inr ev \<and> dual_drive m (board_run ev b) = duty t"
proof -
  have u: "uint (word_of_int (50 * min 1000 \<bar>t\<bar>) :: u32) = 50 * min 1000 \<bar>t\<bar>"
    by (rule uint_u32) simp_all
  consider "t = 0" | "t > 0" | "t < 0" by linarith
  then show ?thesis
  proof cases
    case 1
    then show ?thesis using assms(3)
      by (auto simp: dual_pwm_motor_set_speed_def dual_drive_def duty_def)
  next
    case 2
    with assms motor_pluse_pos [of t] show ?thesis using u
      by (auto simp: dual_pwm_motor_set_speed_def dual_drive_def duty_def)
  next
    case 3
    with assms motor_pluse_pos [of "- t"] show ?thesis using u
      by (auto simp: dual_pwm_motor_set_speed_def dual_drive_def duty_def)
  qed
qed

section \<open>Properties\<close>

text \<open>C28: \<open>motor_run\<close> never fails on a motor and any 16-bit speed, the most negative one
  included: the motor is driven in the direction of the sign with the pulse width of the speed
  in thousandths of the period, saturated at the full period, and at speed 0 it is not driven.\<close>

theorem motor_run_duty:
  assumes "-32768 \<le> t" "t < 32768" "motor_wired m"
  shows "\<exists>ev. motor_run (Some m) t = Inr ev \<and> motor_drive m (board_run ev b) = duty t"
  using assms
  by (cases m) (simp_all add: motor_run_def motor_drive_def motor_wired_def
      single_set_speed_drive dual_set_speed_drive)

theorem motor_run_duty_witness:
  "\<exists>ev. motor_run (Some (Single_Pwm \<lparr>pwm_dev = 4, channel = 1, pin1 = 60, pin2 = 29\<rparr>)) (-32768) = Inr ev \<and>
     motor_drive (Single_Pwm \<lparr>pwm_dev = 4, channel = 1, pin1 = 60, pin2 = 29\<rparr>) (board_run ev board_reset) = -50000"
  using motor_run_duty [of "-32768" "Single_Pwm \<lparr>pwm_dev = 4, channel = 1, pin1 = 60, pin2 = 29\<rparr>" board_reset]
  by (simp add: motor_wired_def duty_def)

text \<open>Creating a motor leaks nothing: when it returns null, whatever it had allocated is freed
  again, and when it returns a motor exactly one block is live.\<close>

theorem motor_create_no_leak:
  shows "heap_live (board_run (fst (single_pwm_motor_create mem_ok dev_find pwm ch p1 p2)) b) - heap_live b =
      (if snd (single_pwm_motor_create mem_ok dev_find pwm ch p1 p2) = None then 0 else 1) \<and>
    heap_live (board_run (fst (dual_pwm_motor_create mem_ok dev_find pwm ch pwm' ch')) b) - heap_live b =
      (if snd (dual_pwm_motor_create mem_ok dev_find pwm ch pwm' ch') = None then 0 else 1)"
  by (auto simp: single_pwm_motor_create_def dual_pwm_motor_create_def motor_create_def split: option.splits)

end
