(* ===== verification/Encoder.thy ===== *)
theory Encoder
  imports Motor
begin

text \<open>
  The wheel encoders, \<^verbatim>\<open>encoder/encoder.c\<close>, \<^verbatim>\<open>encoder/ab_phase_encoder.c\<close>
  and \<^verbatim>\<open>encoder/single_phase_encoder.c\<close>.

  \<^item> \<open>encoder\<close> is \<open>struct encoder\<close> without its function pointers, which the two constructors
    fix; \<open>any_encoder\<close> says which of the two an encoder is.
  \<^item> \<open>encoder_create\<close> does not clear the block it allocates. The fields that no constructor
    sets (\<open>sample_time\<close>, \<open>last_time\<close>, \<open>cps\<close>, \<open>dir\<close>) come from the argument \<open>junk\<close>.
  \<^item> The interrupt handlers and the measuring functions use signed 32-bit arithmetic; its
    overflow and the division by zero are faults.
\<close>

section \<open>State\<close>

datatype encoder_direction = ENCODER_DIR_FORWARD | ENCODER_DIR_BACKWARD

record encoder =
  pulse_count :: int
  pulse_revol :: u16
  sample_time :: u16
  last_time :: u32
  last_count :: int
  cps :: int
  dir :: encoder_direction

record ab_phase_encoder =
  ab_enc :: encoder
  pin_a :: int
  pin_b :: int
  last_value :: int

record single_phase_encoder =
  sp_enc :: encoder
  sp_pin :: int

datatype any_encoder = Ab_Phase ab_phase_encoder | Single_Phase single_phase_encoder

definition enc_of :: "any_encoder \<Rightarrow> encoder" where
  "enc_of e = (case e of Ab_Phase a \<Rightarrow> ab_enc a | Single_Phase s \<Rightarrow> sp_enc s)"

definition enc_update :: "(encoder \<Rightarrow> encoder) \<Rightarrow> any_encoder \<Rightarrow> any_encoder" where
  "enc_update f e = (case e of Ab_Phase a \<Rightarrow> Ab_Phase (a\<lparr>ab_enc := f (ab_enc a)\<rparr>)
     | Single_Phase s \<Rightarrow> Single_Phase (s\<lparr>sp_enc := f (sp_enc s)\<rparr>))"

lemma enc_of_update [simp]: "enc_of (enc_update f e) = f (enc_of e)"
  by (cases e) (simp_all add: enc_of_def enc_update_def)

section \<open>Interrupt handlers\<close>

definition AB_PHASE_ENCODER_TABLE :: "int list" where
  "AB_PHASE_ENCODER_TABLE = [2, 0, 3, 1]"

text \<open>\<open>a\<close> and \<open>b\<close> are what \<open>rt_pin_read\<close> returns for the two pins.\<close>

definition ab_encoder_isr :: "ab_phase_encoder \<Rightarrow> int \<Rightarrow> int \<Rightarrow> fault + ab_phase_encoder" where
  "ab_encoder_isr enc_sub a b =
     rbind (chk32 (a * 2 + b)) (\<lambda>val.
     rbind (if last_value enc_sub < 0 then Inl Oob_Read
            else rd AB_PHASE_ENCODER_TABLE (nat (last_value enc_sub))) (\<lambda>next_val.
     rbind (if next_val = val
            then rbind (chk32 (pulse_count (ab_enc enc_sub) + 1)) (\<lambda>c.
                   Inr (enc_sub\<lparr>ab_enc := (ab_enc enc_sub)\<lparr>pulse_count := c, dir := ENCODER_DIR_FORWARD\<rparr>\<rparr>))
            else rbind (chk32 (pulse_count (ab_enc enc_sub) - 1)) (\<lambda>c.
                   Inr (enc_sub\<lparr>ab_enc := (ab_enc enc_sub)\<lparr>pulse_count := c, dir := ENCODER_DIR_BACKWARD\<rparr>\<rparr>))) (\<lambda>enc_sub.
       Inr (enc_sub\<lparr>last_value := s16 val\<rparr>))))"

definition single_encoder_isr :: "single_phase_encoder \<Rightarrow> fault + single_phase_encoder" where
  "single_encoder_isr s =
     rbind (chk32 (pulse_count (sp_enc s) + 1)) (\<lambda>c. Inr (s\<lparr>sp_enc := (sp_enc s)\<lparr>pulse_count := c\<rparr>\<rparr>))"

section \<open>Enabling and creation\<close>

definition ab_phase_encoder_enable ::
    "(int \<Rightarrow> int) \<Rightarrow> u32 \<Rightarrow> ab_phase_encoder \<Rightarrow> hw_event list \<times> ab_phase_encoder" where
  "ab_phase_encoder_enable pin_read now e =
     ([Pin_Mode (pin_a e) PIN_MODE_INPUT, Pin_Mode (pin_b e) PIN_MODE_INPUT,
       Pin_Attach_Irq (pin_a e) PIN_IRQ_MODE_RISING_FALLING, Pin_Attach_Irq (pin_b e) PIN_IRQ_MODE_RISING_FALLING,
       Pin_Irq_Enable (pin_a e) True, Pin_Irq_Enable (pin_b e) True],
      e\<lparr>last_value := s16 (pin_read (pin_a e) * 2 + pin_read (pin_b e)),
        ab_enc := (ab_enc e)\<lparr>last_time := now\<rparr>\<rparr>)"

definition ab_phase_encoder_disable :: "ab_phase_encoder \<Rightarrow> hw_event list" where
  "ab_phase_encoder_disable e = [Pin_Irq_Enable (pin_a e) False, Pin_Irq_Enable (pin_b e) False]"

definition ab_phase_encoder_destroy :: "ab_phase_encoder \<Rightarrow> hw_event list" where
  "ab_phase_encoder_destroy e =
     ab_phase_encoder_disable e @ [Pin_Detach_Irq (pin_a e), Pin_Detach_Irq (pin_b e), Mem_Free]"

definition single_phase_encoder_enable ::
    "u32 \<Rightarrow> single_phase_encoder \<Rightarrow> hw_event list \<times> single_phase_encoder" where
  "single_phase_encoder_enable now s =
     ([Pin_Mode (sp_pin s) PIN_MODE_INPUT_PULLUP, Pin_Attach_Irq (sp_pin s) PIN_IRQ_MODE_FALLING,
       Pin_Irq_Enable (sp_pin s) True],
      s\<lparr>sp_enc := (sp_enc s)\<lparr>last_time := now\<rparr>\<rparr>)"

definition single_phase_encoder_disable :: "single_phase_encoder \<Rightarrow> hw_event list" where
  "single_phase_encoder_disable s = [Pin_Irq_Enable (sp_pin s) False]"

definition single_phase_encoder_destroy :: "single_phase_encoder \<Rightarrow> hw_event list" where
  "single_phase_encoder_destroy s = single_phase_encoder_disable s @ [Pin_Detach_Irq (sp_pin s), Mem_Free]"

definition encoder_create :: "bool \<Rightarrow> encoder \<Rightarrow> hw_event list \<times> encoder option" where
  "encoder_create mem_ok junk =
     (if mem_ok then ([Mem_Alloc], Some (junk\<lparr>pulse_count := 0, last_count := 0\<rparr>)) else ([], None))"

definition ab_phase_encoder_create ::
    "bool \<Rightarrow> encoder \<Rightarrow> int \<Rightarrow> int \<Rightarrow> u16 \<Rightarrow> hw_event list \<times> ab_phase_encoder option" where
  "ab_phase_encoder_create mem_ok junk pa pb revol =
     (case encoder_create mem_ok junk of
        (ev, None) \<Rightarrow> (ev, None)
      | (ev, Some e) \<Rightarrow>
          (ev, Some \<lparr>ab_enc = e\<lparr>pulse_revol := revol\<rparr>, pin_a = pa, pin_b = pb, last_value = 0\<rparr>))"

definition single_phase_encoder_create ::
    "bool \<Rightarrow> encoder \<Rightarrow> int \<Rightarrow> u16 \<Rightarrow> hw_event list \<times> single_phase_encoder option" where
  "single_phase_encoder_create mem_ok junk p revol =
     (case encoder_create mem_ok junk of
        (ev, None) \<Rightarrow> (ev, None)
      | (ev, Some e) \<Rightarrow> (ev, Some \<lparr>sp_enc = e\<lparr>pulse_revol := revol\<rparr>, sp_pin = p\<rparr>))"

definition encoder_enable ::
    "(int \<Rightarrow> int) \<Rightarrow> u32 \<Rightarrow> any_encoder option \<Rightarrow> fault + hw_event list \<times> any_encoder" where
  "encoder_enable pin_read now enc = assert_ptr enc (\<lambda>e.
     case e of
       Ab_Phase a \<Rightarrow> (case ab_phase_encoder_enable pin_read now a of (ev, a') \<Rightarrow> Inr (ev, Ab_Phase a'))
     | Single_Phase s \<Rightarrow> (case single_phase_encoder_enable now s of (ev, s') \<Rightarrow> Inr (ev, Single_Phase s')))"

definition encoder_disable :: "any_encoder option \<Rightarrow> fault + hw_event list" where
  "encoder_disable enc = assert_ptr enc (\<lambda>e.
     case e of Ab_Phase a \<Rightarrow> Inr (ab_phase_encoder_disable a) | Single_Phase s \<Rightarrow> Inr (single_phase_encoder_disable s))"

definition encoder_destroy :: "any_encoder option \<Rightarrow> fault + hw_event list" where
  "encoder_destroy enc = assert_ptr enc (\<lambda>e.
     case e of Ab_Phase a \<Rightarrow> Inr (ab_phase_encoder_destroy a) | Single_Phase s \<Rightarrow> Inr (single_phase_encoder_destroy s))"

section \<open>Reading and measuring\<close>

definition encoder_read :: "encoder option \<Rightarrow> fault + int" where
  "encoder_read enc = assert_ptr enc (\<lambda>e. Inr (pulse_count e))"

definition encoder_reset :: "encoder option \<Rightarrow> fault + encoder" where
  "encoder_reset enc = assert_ptr enc (\<lambda>e. Inr (e\<lparr>pulse_count := 0\<rparr>))"

definition encoder_set_sample_time :: "encoder option \<Rightarrow> u16 \<Rightarrow> fault + encoder" where
  "encoder_set_sample_time enc t = assert_ptr enc (\<lambda>e. Inr (e\<lparr>sample_time := t\<rparr>))"

text \<open>The clock is read twice: \<open>now\<close> for the test, \<open>now'\<close> for the new \<open>last_time\<close>.\<close>

definition encoder_measure_cps :: "u32 \<Rightarrow> u32 \<Rightarrow> encoder option \<Rightarrow> fault + int \<times> encoder" where
  "encoder_measure_cps now now' enc = assert_ptr enc (\<lambda>e.
     if now - last_time e < rt_tick_from_millisecond (uint (sample_time e)) then Inr (cps e, e)
     else
       rbind (chk32 (pulse_count e - last_count e)) (\<lambda>diff_count.
       rbind (chk32 (diff_count * 1000)) (\<lambda>d.
       rbind (cdiv d (uint (sample_time e))) (\<lambda>q.
         Inr (s16 q, e\<lparr>cps := s16 q, last_count := pulse_count e, last_time := now'\<rparr>)))))"

definition encoder_measure_rpm :: "u32 \<Rightarrow> u32 \<Rightarrow> encoder option \<Rightarrow> fault + int \<times> encoder" where
  "encoder_measure_rpm now now' enc = assert_ptr enc (\<lambda>e.
     rbind (encoder_measure_cps now now' (Some e)) (\<lambda>(c, e').
     rbind (chk32 (c * 60)) (\<lambda>d.
     rbind (cdiv d (uint (pulse_revol e'))) (\<lambda>q. Inr (s16 q, e')))))"

section \<open>Quadrature decoding\<close>

text \<open>
  The two pins of an encoder whose shaft is at position \<open>p\<close>, a count of quarter periods, and
  the value the handler forms of them.
\<close>

definition phase_pins :: "int \<Rightarrow> int \<times> int" where
  "phase_pins p = (if p mod 4 = 0 then (0, 0) else if p mod 4 = 1 then (1, 0)
     else if p mod 4 = 2 then (1, 1) else (0, 1))"

definition phase_value :: "int \<Rightarrow> int" where
  "phase_value p = fst (phase_pins p) * 2 + snd (phase_pins p)"

fun isr_run :: "ab_phase_encoder \<Rightarrow> int list \<Rightarrow> fault + ab_phase_encoder" where
  "isr_run e [] = Inr e"
| "isr_run e (p # ps) =
     rbind (ab_encoder_isr e (fst (phase_pins p)) (snd (phase_pins p))) (\<lambda>e'. isr_run e' ps)"

text \<open>Positions that change by one quarter period from one interrupt to the next.\<close>

fun steps_by_one :: "int \<Rightarrow> int list \<Rightarrow> bool" where
  "steps_by_one p [] = True"
| "steps_by_one p (q # qs) = ((q = p + 1 \<or> q = p - 1) \<and> steps_by_one q qs)"

lemma mod4_cases: "(p :: int) mod 4 = 0 \<or> p mod 4 = 1 \<or> p mod 4 = 2 \<or> p mod 4 = 3"
  by presburger

lemma mod4_next: "((p :: int) + 1) mod 4 = (if p mod 4 = 3 then 0 else p mod 4 + 1)"
  by presburger

lemma mod4_prev: "((p :: int) - 1) mod 4 = (if p mod 4 = 0 then 3 else p mod 4 - 1)"
  by presburger

lemma phase_value_range: "0 \<le> phase_value p \<and> phase_value p < 4"
  using mod4_cases [of p] by (auto simp: phase_value_def phase_pins_def)

lemma phase_value_table: "AB_PHASE_ENCODER_TABLE ! nat (phase_value p) = phase_value (p + 1)"
  using mod4_cases [of p] by (auto simp: phase_value_def phase_pins_def AB_PHASE_ENCODER_TABLE_def mod4_next)

lemma phase_value_back: "phase_value (p + 1) \<noteq> phase_value (p - 1)"
  using mod4_cases [of p] by (auto simp: phase_value_def phase_pins_def mod4_next mod4_prev)

lemma isr_phase:
  assumes "last_value e = phase_value p" "\<bar>pulse_count (ab_enc e)\<bar> < 2147483647"
  shows "\<exists>e'. ab_encoder_isr e (fst (phase_pins q)) (snd (phase_pins q)) = Inr e' \<and>
    last_value e' = phase_value q \<and>
    pulse_count (ab_enc e') = pulse_count (ab_enc e) + (if phase_value q = phase_value (p + 1) then 1 else -1)"
proof -
  have q: "fst (phase_pins q) * 2 + snd (phase_pins q) = phase_value q" "s16 (phase_value q) = phase_value q"
    using phase_value_range [of q] by (simp_all add: phase_value_def s16_id)
  have "rd AB_PHASE_ENCODER_TABLE (nat (phase_value p)) = Inr (phase_value (p + 1))"
    using phase_value_range [of p] phase_value_table [of p]
    by (simp add: rd_def AB_PHASE_ENCODER_TABLE_def nat_less_iff)
  then show ?thesis
    using phase_value_range [of q] phase_value_range [of p] assms
    by (auto simp: ab_encoder_isr_def q)
qed

lemma isr_run_tracks:
  "last_value e = phase_value p \<Longrightarrow> steps_by_one p ps \<Longrightarrow>
   \<bar>pulse_count (ab_enc e)\<bar> + int (length ps) \<le> 2147483647 \<Longrightarrow>
   \<exists>e'. isr_run e ps = Inr e' \<and> last_value e' = phase_value (last (p # ps)) \<and>
        pulse_count (ab_enc e') = pulse_count (ab_enc e) + (last (p # ps) - p)"
proof (induction ps arbitrary: e p)
  case Nil
  then show ?case by simp
next
  case (Cons q ps)
  from isr_phase [of e p q] Cons.prems obtain e1 where
    e1: "ab_encoder_isr e (fst (phase_pins q)) (snd (phase_pins q)) = Inr e1" "last_value e1 = phase_value q"
      "pulse_count (ab_enc e1) = pulse_count (ab_enc e) + (if phase_value q = phase_value (p + 1) then 1 else -1)"
    by auto
  have "q = p + 1 \<or> q = p - 1" using Cons.prems by simp
  then have c: "pulse_count (ab_enc e1) = pulse_count (ab_enc e) + (q - p)"
    using e1(3) phase_value_back [of p] by auto
  then have "\<bar>pulse_count (ab_enc e1)\<bar> + int (length ps) \<le> 2147483647"
    using Cons.prems \<open>q = p + 1 \<or> q = p - 1\<close> by auto
  from Cons.IH [OF e1(2) _ this] Cons.prems(2) e1(1) c show ?case by auto
qed

section \<open>Properties\<close>

text \<open>C25: The interrupt handler of the two-phase encoder decodes quadrature: whatever way the shaft
  goes, back and forth, in steps of a quarter period, the count changes by exactly the distance
  it has gone, and the handler stays in step with the pins.\<close>

theorem encoder_tracks_shaft:
  assumes "last_value e = phase_value p" "steps_by_one p ps"
    "\<bar>pulse_count (ab_enc e)\<bar> + int (length ps) \<le> 2147483647"
  shows "\<exists>e'. isr_run e ps = Inr e' \<and> last_value e' = phase_value (last (p # ps)) \<and>
     pulse_count (ab_enc e') - pulse_count (ab_enc e) = last (p # ps) - p"
  using isr_run_tracks [OF assms] by auto

definition sample_encoder :: encoder where
  "sample_encoder = \<lparr>pulse_count = 5, pulse_revol = 20, sample_time = 1000, last_time = 0,
     last_count = 0, cps = 0, dir = ENCODER_DIR_FORWARD\<rparr>"

theorem encoder_tracks_shaft_witness:
  "\<exists>e'. isr_run \<lparr>ab_enc = sample_encoder, pin_a = 51, pin_b = 52, last_value = 0\<rparr> [1, 2, 1, 2, 3, 4] = Inr e' \<and>
     pulse_count (ab_enc e') = 9"
  using encoder_tracks_shaft [of "\<lparr>ab_enc = sample_encoder, pin_a = 51, pin_b = 52, last_value = 0\<rparr>" 0 "[1, 2, 1, 2, 3, 4]"]
  by (auto simp: phase_value_def phase_pins_def sample_encoder_def)

text \<open>An interrupt at which the pins read the same as before, as a bounce gives, is counted as
  a step backwards.\<close>

theorem encoder_bounce_counts_back:
  assumes "last_value e = phase_value p" "\<bar>pulse_count (ab_enc e)\<bar> < 2147483647"
  shows "\<exists>e'. ab_encoder_isr e (fst (phase_pins p)) (snd (phase_pins p)) = Inr e' \<and>
     pulse_count (ab_enc e') = pulse_count (ab_enc e) - 1 \<and> last_value e' = last_value e"
proof -
  have "phase_value p \<noteq> phase_value (p + 1)"
    using mod4_cases [of p] by (auto simp: phase_value_def phase_pins_def mod4_next)
  with isr_phase [OF assms, of p] assms(1) show ?thesis by auto
qed

theorem encoder_bounce_counts_back_witness:
  "\<exists>e'. ab_encoder_isr \<lparr>ab_enc = sample_encoder, pin_a = 51, pin_b = 52, last_value = 2\<rparr> 1 0 = Inr e' \<and>
     pulse_count (ab_enc e') = 4"
  using encoder_bounce_counts_back [of "\<lparr>ab_enc = sample_encoder, pin_a = 51, pin_b = 52, last_value = 2\<rparr>" 1]
  by (auto simp: phase_value_def phase_pins_def sample_encoder_def)

lemma sdiv_abs_le:
  assumes "1 \<le> b"
  shows "\<bar>a sdiv b\<bar> \<le> \<bar>a :: int\<bar>"
proof -
  have "\<bar>a\<bar> div b \<le> \<bar>a\<bar> div 1" by (rule zdiv_mono2) (use assms in simp_all)
  moreover have "0 \<le> \<bar>a\<bar> div b" using assms by (simp add: pos_imp_zdiv_nonneg_iff)
  ultimately show ?thesis
    using assms by (auto simp: signed_divide_int_def abs_mult sgn_if)
qed

text \<open>The measured speed. Before the sample time is over the last value is returned and nothing
  changes; afterwards the revolutions per minute are the pulses since the last measurement,
  scaled with two truncating divisions, each stored in sixteen bits, and a new interval begins.
  A sample time of zero, which is what a cleared block would hold, divides by zero.\<close>

theorem encoder_measure_rpm_cases:
  assumes "\<bar>pulse_count e - last_count e\<bar> \<le> 2147483" "pulse_revol e \<noteq> 0"
  shows "encoder_measure_rpm now now' (Some e) =
    (let early = now - last_time e < word_of_int (uint (sample_time e));
         c = (if early then cps e
              else s16 (((pulse_count e - last_count e) * 1000) sdiv uint (sample_time e)))
     in if \<not> early \<and> sample_time e = 0 then Inl Div_Zero
        else rbind (chk32 (c * 60)) (\<lambda>d. rbind (cdiv d (uint (pulse_revol e))) (\<lambda>q.
          Inr (s16 q, if early then e
             else e\<lparr>cps := c, last_count := pulse_count e, last_time := now'\<rparr>))))"
proof -
  let ?d = "(pulse_count e - last_count e) * 1000"
  have d: "chk32 (pulse_count e - last_count e) = Inr (pulse_count e - last_count e)" "chk32 ?d = Inr ?d"
    using assms(1) by (auto simp: chk32_def)
  have "0 \<le> uint (sample_time e)" by simp
  have q: "cdiv ?d (uint (sample_time e)) = Inr (?d sdiv uint (sample_time e))" if "sample_time e \<noteq> 0"
  proof -
    have "uint (sample_time e) \<noteq> 0" using that by (simp add: unsigned_eq_0_iff)
    then have s: "1 \<le> uint (sample_time e)" using \<open>0 \<le> uint (sample_time e)\<close> by linarith
    have "\<bar>?d sdiv uint (sample_time e)\<bar> \<le> \<bar>?d\<bar>"
      using s by (rule sdiv_abs_le)
    moreover have "\<bar>?d\<bar> \<le> 2147483000" using assms(1) by (simp only: abs_mult) simp
    ultimately have "chk32 (?d sdiv uint (sample_time e)) = Inr (?d sdiv uint (sample_time e))"
      by (intro chk32_in) linarith+
    then show ?thesis using \<open>uint (sample_time e) \<noteq> 0\<close> by (simp only: cdiv_def if_False)
  qed
  show ?thesis
    using d q
    by (auto simp: encoder_measure_rpm_def encoder_measure_cps_def tick_from_ms Let_def)
qed

theorem encoder_measure_rpm_cases_witness:
  "encoder_measure_rpm 1000 1000 (Some sample_encoder) =
    Inr (15, sample_encoder\<lparr>cps := 5, last_count := 5, last_time := 1000\<rparr>)"
  using encoder_measure_rpm_cases [of sample_encoder 1000 1000]
  by (simp add: sample_encoder_def cdiv_def signed_divide_int_def s16_id)

end
