(* ===== verification/Controller.thy ===== *)
theory Controller
  imports Complex_Main Encoder
begin

text \<open>
  The automatic controllers, \<^verbatim>\<open>controller/controller.c\<close>,
  \<^verbatim>\<open>controller/inc_pid_controller.c\<close> and \<^verbatim>\<open>controller/pos_pid_controller.c\<close>.

  \<^item> Floating point: the arithmetic of the target (rounding, infinities, NaN) is not code of
    the repository; it is the record \<open>fops\<close> of the operations the sources use, an argument of
    every definition. \<open>rat_fops\<close> is exact arithmetic. The locale \<open>float_cmp\<close> asks for no more
    than that no number is greater than itself, which holds for IEEE numbers and NaN as well.
  \<^item> The function pointers of \<open>struct controller\<close> are set by the constructors and cleared,
    with everything else, by \<open>reset\<close>: \<open>fns_set\<close> says whether they are set. A call through a
    cleared pointer is the fault \<open>Null_Deref\<close>.
  \<^item> Fields that \<open>malloc\<close> leaves undefined come from an argument \<open>junk\<close>.
\<close>

section \<open>Floating point operations\<close>

record 'f fops =
  fadd :: "'f \<Rightarrow> 'f \<Rightarrow> 'f"
  fsub :: "'f \<Rightarrow> 'f \<Rightarrow> 'f"
  fmul :: "'f \<Rightarrow> 'f \<Rightarrow> 'f"
  fdiv :: "'f \<Rightarrow> 'f \<Rightarrow> 'f"
  fneg :: "'f \<Rightarrow> 'f"
  fgt :: "'f \<Rightarrow> 'f \<Rightarrow> bool"
  feq :: "'f \<Rightarrow> 'f \<Rightarrow> bool"
  flit :: "rat \<Rightarrow> 'f"
  ftoi :: "'f \<Rightarrow> int"

text \<open>Truncation towards zero, as the C conversion to an integer type does.\<close>

definition rat_trunc :: "rat \<Rightarrow> int" where
  "rat_trunc x = (if 0 \<le> x then \<lfloor>x\<rfloor> else \<lceil>x\<rceil>)"

definition rat_fops :: "rat fops" where
  "rat_fops = \<lparr>fadd = (+), fsub = (-), fmul = (*), fdiv = (/), fneg = uminus,
     fgt = (\<lambda>x y. x > y), feq = (=), flit = (\<lambda>q. q), ftoi = rat_trunc\<rparr>"

lemma rat_fops_simps [simp]:
  "fadd rat_fops x y = x + y" "fsub rat_fops x y = x - y" "fmul rat_fops x y = x * y"
  "fdiv rat_fops x y = x / y" "fneg rat_fops x = - x" "fgt rat_fops x y \<longleftrightarrow> x > y"
  "feq rat_fops x y \<longleftrightarrow> x = y" "flit rat_fops q = q" "ftoi rat_fops x = rat_trunc x"
  by (simp_all add: rat_fops_def)

lemma rat_trunc_of_int [simp]: "rat_trunc (of_int n) = n"
  by (simp add: rat_trunc_def)

lemma rat_trunc_numeral [simp]: "rat_trunc (numeral k) = numeral k" "rat_trunc (- numeral k) = - numeral k"
  "rat_trunc 0 = 0" "rat_trunc 1 = 1"
  by (simp_all add: rat_trunc_def)

text \<open>A conversion of a float to \<open>rt_int16_t\<close>.\<close>

definition f_to_s16 :: "'f fops \<Rightarrow> 'f \<Rightarrow> int" where
  "f_to_s16 F x = s16 (ftoi F x)"

section \<open>State\<close>

record 'f controller =
  target :: 'f
  ctl_output :: 'f
  ctl_sample_time :: u16
  enable :: bool
  fns_set :: bool

record 'f inc_pid_controller =
  ictl :: "'f controller"
  ikp :: 'f
  iki :: 'f
  ikd :: 'f
  iminimum :: 'f
  imaximum :: 'f
  ip_error :: 'f
  ii_error :: 'f
  id_error :: 'f
  ierror :: 'f
  ierror_l :: 'f
  ierror_ll :: 'f
  ilast_out :: 'f
  ilast_time :: u32

record 'f pos_pid_controller =
  pctl :: "'f controller"
  pkp :: 'f
  pki :: 'f
  pkd :: 'f
  pminimum :: 'f
  pmaximum :: 'f
  anti_windup_value :: 'f
  pp_error :: 'f
  pi_error :: 'f
  pd_error :: 'f
  integral :: 'f
  perror :: 'f
  perror_l :: 'f
  plast_out :: 'f
  plast_time :: u32

datatype 'f any_controller = Inc_Pid "'f inc_pid_controller" | Pos_Pid "'f pos_pid_controller"

definition ctl_of :: "'f any_controller \<Rightarrow> 'f controller" where
  "ctl_of c = (case c of Inc_Pid i \<Rightarrow> ictl i | Pos_Pid p \<Rightarrow> pctl p)"

definition ctl_update :: "('f controller \<Rightarrow> 'f controller) \<Rightarrow> 'f any_controller \<Rightarrow> 'f any_controller" where
  "ctl_update f c = (case c of Inc_Pid i \<Rightarrow> Inc_Pid (i\<lparr>ictl := f (ictl i)\<rparr>)
     | Pos_Pid p \<Rightarrow> Pos_Pid (p\<lparr>pctl := f (pctl p)\<rparr>))"

lemma ctl_of_update [simp]: "ctl_of (ctl_update f c) = f (ctl_of c)"
  by (cases c) (simp_all add: ctl_of_def ctl_update_def)

section \<open>Incremental PID\<close>

text \<open>The two comparisons that keep an output between the bounds.\<close>

definition pid_clamp :: "'f fops \<Rightarrow> 'f \<Rightarrow> 'f \<Rightarrow> 'f \<Rightarrow> 'f" where
  "pid_clamp F lo hi x =
     (let x = (if fgt F x hi then hi else x) in if fgt F lo x then lo else x)"

definition inc_pid_controller_update ::
    "'f fops \<Rightarrow> u32 \<Rightarrow> u32 \<Rightarrow> 'f inc_pid_controller \<Rightarrow> 'f \<Rightarrow> int \<times> 'f inc_pid_controller" where
  "inc_pid_controller_update F now now' c current_point =
     (if now - ilast_time c < rt_tick_from_millisecond (uint (ctl_sample_time (ictl c))) then (RT_EBUSY, c)
      else
        let err = fsub F (target (ictl c)) current_point;
            p_error = fmul F (ikp c) (fsub F err (ierror_l c));
            i_error = fmul F (iki c) err;
            d_error = fmul F (ikd c) (fadd F (fsub F err (fmul F (flit F 2) (ierror_l c))) (ierror_ll c));
            out = pid_clamp F (iminimum c) (imaximum c)
                    (fadd F (ilast_out c) (fadd F (fadd F p_error i_error) d_error))
        in (RT_EOK, c\<lparr>ilast_time := now', ierror := err, ip_error := p_error, ii_error := i_error,
              id_error := d_error, ilast_out := out, ierror_ll := ierror_l c, ierror_l := err,
              ictl := (ictl c)\<lparr>ctl_output := out\<rparr>\<rparr>))"

definition controller_create :: "bool \<Rightarrow> 'f controller \<Rightarrow> hw_event list \<times> 'f controller option" where
  "controller_create mem_ok junk =
     (if mem_ok then ([Mem_Alloc], Some (junk\<lparr>enable := False\<rparr>)) else ([], None))"

definition inc_pid_controller_create ::
    "'f fops \<Rightarrow> bool \<Rightarrow> 'f controller \<Rightarrow> u32 \<Rightarrow> 'f \<Rightarrow> 'f \<Rightarrow> 'f \<Rightarrow> hw_event list \<times> 'f inc_pid_controller option" where
  "inc_pid_controller_create F mem_ok junk junk_time kp ki kd =
     (case controller_create mem_ok junk of
        (ev, None) \<Rightarrow> (ev, None)
      | (ev, Some c) \<Rightarrow>
          (ev, Some \<lparr>ictl = c\<lparr>fns_set := True\<rparr>, ikp = kp, iki = ki, ikd = kd,
             iminimum = flit F (-1000), imaximum = flit F 1000,
             ip_error = flit F 0, ii_error = flit F 0, id_error = flit F 0,
             ierror = flit F 0, ierror_l = flit F 0, ierror_ll = flit F 0,
             ilast_out = flit F 0, ilast_time = junk_time\<rparr>))"

text \<open>\<open>rt_memset\<close> over the whole structure.\<close>

definition controller_zero :: "'f fops \<Rightarrow> 'f controller" where
  "controller_zero F = \<lparr>target = flit F 0, ctl_output = flit F 0, ctl_sample_time = 0, enable = False, fns_set = False\<rparr>"

definition inc_pid_controller_reset :: "'f fops \<Rightarrow> 'f inc_pid_controller" where
  "inc_pid_controller_reset F =
     \<lparr>ictl = controller_zero F, ikp = flit F 0, iki = flit F 0, ikd = flit F 0,
      iminimum = flit F 0, imaximum = flit F 0,
      ip_error = flit F 0, ii_error = flit F 0, id_error = flit F 0,
      ierror = flit F 0, ierror_l = flit F 0, ierror_ll = flit F 0,
      ilast_out = flit F 0, ilast_time = 0\<rparr>"

definition inc_pid_controller_destroy :: "hw_event list" where
  "inc_pid_controller_destroy = [Mem_Free]"

definition inc_pid_controller_set_kp :: "'f inc_pid_controller option \<Rightarrow> 'f \<Rightarrow> fault + 'f inc_pid_controller" where
  "inc_pid_controller_set_kp pid kp = assert_ptr pid (\<lambda>p. Inr (p\<lparr>ikp := kp\<rparr>))"

definition inc_pid_controller_set_ki :: "'f inc_pid_controller option \<Rightarrow> 'f \<Rightarrow> fault + 'f inc_pid_controller" where
  "inc_pid_controller_set_ki pid ki = assert_ptr pid (\<lambda>p. Inr (p\<lparr>iki := ki\<rparr>))"

definition inc_pid_controller_set_kd :: "'f inc_pid_controller option \<Rightarrow> 'f \<Rightarrow> fault + 'f inc_pid_controller" where
  "inc_pid_controller_set_kd pid kd = assert_ptr pid (\<lambda>p. Inr (p\<lparr>ikd := kd\<rparr>))"

section \<open>Positional PID\<close>

definition pos_pid_controller_update ::
    "'f fops \<Rightarrow> u32 \<Rightarrow> u32 \<Rightarrow> 'f pos_pid_controller \<Rightarrow> 'f \<Rightarrow> int \<times> 'f pos_pid_controller" where
  "pos_pid_controller_update F now now' c current_point =
     (if now - plast_time c < rt_tick_from_millisecond (uint (ctl_sample_time (pctl c))) then (RT_EBUSY, c)
      else
        let err = fsub F (target (pctl c)) current_point;
            int0 = fadd F (integral c) err;
            int1 = (if fgt F int0 (anti_windup_value c) then anti_windup_value c
                    else if fgt F (fneg F (anti_windup_value c)) int0 then fneg F (anti_windup_value c)
                    else int0);
            p_error = fmul F (pkp c) err;
            i_error = fmul F (pki c) int1;
            d_error = fmul F (pkd c) (fsub F err (perror_l c));
            out = pid_clamp F (pminimum c) (pmaximum c) (fadd F (fadd F p_error i_error) d_error)
        in (RT_EOK, c\<lparr>plast_time := now', perror := err, integral := int1, pp_error := p_error,
              pi_error := i_error, pd_error := d_error, plast_out := out, perror_l := err,
              pctl := (pctl c)\<lparr>ctl_output := out\<rparr>\<rparr>))"

definition pos_pid_controller_create ::
    "'f fops \<Rightarrow> bool \<Rightarrow> 'f controller \<Rightarrow> u32 \<Rightarrow> 'f \<Rightarrow> 'f \<Rightarrow> 'f \<Rightarrow> hw_event list \<times> 'f pos_pid_controller option" where
  "pos_pid_controller_create F mem_ok junk junk_time kp ki kd =
     (case controller_create mem_ok junk of
        (ev, None) \<Rightarrow> (ev, None)
      | (ev, Some c) \<Rightarrow>
          (ev, Some \<lparr>pctl = c\<lparr>fns_set := True\<rparr>, pkp = kp, pki = ki, pkd = kd,
             pminimum = flit F (-1000), pmaximum = flit F 1000, anti_windup_value = flit F 0,
             pp_error = flit F 0, pi_error = flit F 0, pd_error = flit F 0,
             integral = flit F 0, perror = flit F 0, perror_l = flit F 0,
             plast_out = flit F 0, plast_time = junk_time\<rparr>))"

definition pos_pid_controller_reset :: "'f fops \<Rightarrow> 'f pos_pid_controller" where
  "pos_pid_controller_reset F =
     \<lparr>pctl = controller_zero F, pkp = flit F 0, pki = flit F 0, pkd = flit F 0,
      pminimum = flit F 0, pmaximum = flit F 0, anti_windup_value = flit F 0,
      pp_error = flit F 0, pi_error = flit F 0, pd_error = flit F 0,
      integral = flit F 0, perror = flit F 0, perror_l = flit F 0,
      plast_out = flit F 0, plast_time = 0\<rparr>"

definition pos_pid_controller_destroy :: "hw_event list" where
  "pos_pid_controller_destroy = [Mem_Free]"

text \<open>These three have no assertion: a null argument is dereferenced.\<close>

definition pos_pid_controller_set_kp :: "'f pos_pid_controller option \<Rightarrow> 'f \<Rightarrow> fault + 'f pos_pid_controller" where
  "pos_pid_controller_set_kp pid kp = (case pid of None \<Rightarrow> Inl Null_Deref | Some p \<Rightarrow> Inr (p\<lparr>pkp := kp\<rparr>))"

definition pos_pid_controller_set_ki :: "'f pos_pid_controller option \<Rightarrow> 'f \<Rightarrow> fault + 'f pos_pid_controller" where
  "pos_pid_controller_set_ki pid ki = (case pid of None \<Rightarrow> Inl Null_Deref | Some p \<Rightarrow> Inr (p\<lparr>pki := ki\<rparr>))"

definition pos_pid_controller_set_kd :: "'f pos_pid_controller option \<Rightarrow> 'f \<Rightarrow> fault + 'f pos_pid_controller" where
  "pos_pid_controller_set_kd pid kd = (case pid of None \<Rightarrow> Inl Null_Deref | Some p \<Rightarrow> Inr (p\<lparr>pkd := kd\<rparr>))"

section \<open>The common operations\<close>

definition controller_update ::
    "'f fops \<Rightarrow> u32 \<Rightarrow> u32 \<Rightarrow> 'f any_controller option \<Rightarrow> 'f \<Rightarrow> fault + int \<times> 'f any_controller" where
  "controller_update F now now' c current_point = assert_ptr c (\<lambda>c.
     if enable (ctl_of c) then
       if fns_set (ctl_of c) then
         (case c of
            Inc_Pid i \<Rightarrow> (case inc_pid_controller_update F now now' i current_point of (r, i') \<Rightarrow> Inr (r, Inc_Pid i'))
          | Pos_Pid p \<Rightarrow> (case pos_pid_controller_update F now now' p current_point of (r, p') \<Rightarrow> Inr (r, Pos_Pid p')))
       else Inl Null_Deref
     else Inr (RT_EOK, ctl_update (\<lambda>k. k\<lparr>ctl_output := target k\<rparr>) c))"

definition controller_destroy :: "'f any_controller option \<Rightarrow> fault + hw_event list" where
  "controller_destroy c = assert_ptr c (\<lambda>c.
     if fns_set (ctl_of c) then
       Inr (case c of Inc_Pid i \<Rightarrow> inc_pid_controller_destroy | Pos_Pid p \<Rightarrow> pos_pid_controller_destroy)
     else Inl Null_Deref)"

definition controller_enable :: "'f any_controller option \<Rightarrow> fault + 'f any_controller" where
  "controller_enable c = assert_ptr c (\<lambda>c. Inr (ctl_update (\<lambda>k. k\<lparr>enable := True\<rparr>) c))"

definition controller_disable :: "'f any_controller option \<Rightarrow> fault + 'f any_controller" where
  "controller_disable c = assert_ptr c (\<lambda>c. Inr (ctl_update (\<lambda>k. k\<lparr>enable := False\<rparr>) c))"

definition controller_reset :: "'f fops \<Rightarrow> 'f any_controller option \<Rightarrow> fault + 'f any_controller" where
  "controller_reset F c = assert_ptr c (\<lambda>c.
     if fns_set (ctl_of c) then
       Inr (case c of Inc_Pid i \<Rightarrow> Inc_Pid (inc_pid_controller_reset F) | Pos_Pid p \<Rightarrow> Pos_Pid (pos_pid_controller_reset F))
     else Inl Null_Deref)"

definition controller_set_target :: "'f fops \<Rightarrow> 'f any_controller option \<Rightarrow> int \<Rightarrow> fault + 'f any_controller" where
  "controller_set_target F c t = assert_ptr c (\<lambda>c. Inr (ctl_update (\<lambda>k. k\<lparr>target := flit F (of_int t)\<rparr>) c))"

definition controller_set_sample_time :: "'f any_controller option \<Rightarrow> u16 \<Rightarrow> fault + 'f any_controller" where
  "controller_set_sample_time c t = assert_ptr c (\<lambda>c. Inr (ctl_update (\<lambda>k. k\<lparr>ctl_sample_time := t\<rparr>) c))"

section \<open>Comparison of floats\<close>

locale float_cmp =
  fixes F :: "'f fops"
  assumes gt_irrefl: "\<not> fgt F x x"
begin

lemma clamp_range:
  assumes "\<not> fgt F lo hi"
  shows "\<not> fgt F (pid_clamp F lo hi x) hi" "\<not> fgt F lo (pid_clamp F lo hi x)"
  using assms gt_irrefl by (auto simp: pid_clamp_def Let_def)

lemma inc_update_range:
  assumes "inc_pid_controller_update F now now' c p = (r, c')" "\<not> fgt F (iminimum c) (imaximum c)"
  shows "r = RT_EBUSY \<and> c' = c \<or>
    r = RT_EOK \<and> \<not> fgt F (ctl_output (ictl c')) (imaximum c) \<and> \<not> fgt F (iminimum c) (ctl_output (ictl c'))"
  using assms clamp_range by (auto simp: inc_pid_controller_update_def Let_def split: if_splits)

lemma pos_update_range:
  assumes "pos_pid_controller_update F now now' c p = (r, c')" "\<not> fgt F (pminimum c) (pmaximum c)"
  shows "r = RT_EBUSY \<and> c' = c \<or>
    r = RT_EOK \<and> \<not> fgt F (ctl_output (pctl c')) (pmaximum c) \<and> \<not> fgt F (pminimum c) (ctl_output (pctl c'))"
  using assms clamp_range by (auto simp: pos_pid_controller_update_def Let_def split: if_splits)

end

interpretation exact: float_cmp rat_fops
  by unfold_locales simp

section \<open>Exact arithmetic\<close>

lemma pid_clamp_rat: "lo \<le> x \<Longrightarrow> x \<le> hi \<Longrightarrow> pid_clamp rat_fops lo hi x = x"
  by (simp add: pid_clamp_def)

text \<open>A sequence of updates, each after the sample time has passed.\<close>

fun inc_pid_run :: "rat inc_pid_controller \<Rightarrow> (u32 \<times> rat) list \<Rightarrow> rat inc_pid_controller" where
  "inc_pid_run c [] = c"
| "inc_pid_run c ((now, p) # ps) = inc_pid_run (snd (inc_pid_controller_update rat_fops now now c p)) ps"

definition inc_due :: "rat inc_pid_controller \<Rightarrow> u32 \<Rightarrow> bool" where
  "inc_due c now \<longleftrightarrow> rt_tick_from_millisecond (uint (ctl_sample_time (ictl c))) \<le> now - ilast_time c"

fun inc_run_due :: "rat inc_pid_controller \<Rightarrow> (u32 \<times> rat) list \<Rightarrow> bool" where
  "inc_run_due c [] = True"
| "inc_run_due c ((now, p) # ps) \<longleftrightarrow>
     inc_due c now \<and> inc_run_due (snd (inc_pid_controller_update rat_fops now now c p)) ps"

text \<open>The textbook PID of the errors so far, the newest first, with \<open>e'\<close> before them.\<close>

definition pid_law :: "rat \<Rightarrow> rat \<Rightarrow> rat \<Rightarrow> rat list \<Rightarrow> rat" where
  "pid_law kp ki kd errs =
     kp * hd (errs @ [0]) + ki * sum_list errs + kd * (hd (errs @ [0]) - hd (tl errs @ [0]))"

text \<open>The law stays within the bounds after each of the updates with the measurements \<open>ps\<close>.\<close>

fun law_in_bounds :: "rat inc_pid_controller \<Rightarrow> rat list \<Rightarrow> (u32 \<times> rat) list \<Rightarrow> bool" where
  "law_in_bounds c errs [] = True"
| "law_in_bounds c errs ((now, p) # ps) =
     (let errs = (target (ictl c) - p) # errs; u = pid_law (ikp c) (iki c) (ikd c) errs
      in iminimum c \<le> u \<and> u \<le> imaximum c \<and> law_in_bounds c errs ps)"

definition errors_of :: "rat inc_pid_controller \<Rightarrow> (u32 \<times> rat) list \<Rightarrow> rat list" where
  "errors_of c ps = rev (map (\<lambda>(now, p). target (ictl c) - p) ps)"

text \<open>The controller holds the last two errors, and its output is the law.\<close>

definition holds_law :: "rat inc_pid_controller \<Rightarrow> rat list \<Rightarrow> bool" where
  "holds_law c errs \<longleftrightarrow> ierror_l c = hd (errs @ [0]) \<and> ierror_ll c = hd (tl errs @ [0]) \<and>
     ilast_out c = pid_law (ikp c) (iki c) (ikd c) errs"

lemma inc_update_law:
  assumes "holds_law c errs" "inc_due c now" "law_in_bounds c errs ((now, p) # ps)"
    and c': "c' = snd (inc_pid_controller_update rat_fops now now c p)"
  shows "holds_law c' ((target (ictl c) - p) # errs)" "ctl_output (ictl c') = ilast_out c'"
    "target (ictl c') = target (ictl c)" "ikp c' = ikp c" "iki c' = iki c" "ikd c' = ikd c"
    "iminimum c' = iminimum c" "imaximum c' = imaximum c"
proof -
  let ?err = "target (ictl c) - p"
  let ?out = "ilast_out c + (ikp c * (?err - ierror_l c) + iki c * ?err + ikd c * (?err - 2 * ierror_l c + ierror_ll c))"
  have law: "?out = pid_law (ikp c) (iki c) (ikd c) (?err # errs)"
    using assms(1) by (simp add: holds_law_def pid_law_def algebra_simps)
  have "pid_clamp rat_fops (iminimum c) (imaximum c) ?out = ?out"
    using assms(3) unfolding law by (intro pid_clamp_rat) (simp_all add: Let_def)
  then have "snd (inc_pid_controller_update rat_fops now now c p) =
      c\<lparr>ilast_time := now, ierror := ?err, ip_error := ikp c * (?err - ierror_l c), ii_error := iki c * ?err,
        id_error := ikd c * (?err - 2 * ierror_l c + ierror_ll c), ilast_out := ?out,
        ierror_ll := ierror_l c, ierror_l := ?err, ictl := (ictl c)\<lparr>ctl_output := ?out\<rparr>\<rparr>"
    using assms(2) by (simp add: inc_pid_controller_update_def inc_due_def Let_def not_less)
  then show "holds_law c' (?err # errs)" "ctl_output (ictl c') = ilast_out c'"
    "target (ictl c') = target (ictl c)" "ikp c' = ikp c" "iki c' = iki c" "ikd c' = ikd c"
    "iminimum c' = iminimum c" "imaximum c' = imaximum c"
    using assms(1) law by (simp_all add: c' holds_law_def)
qed

lemma law_in_bounds_cong:
  "target (ictl c') = target (ictl c) \<Longrightarrow> ikp c' = ikp c \<Longrightarrow> iki c' = iki c \<Longrightarrow> ikd c' = ikd c \<Longrightarrow>
   iminimum c' = iminimum c \<Longrightarrow> imaximum c' = imaximum c \<Longrightarrow>
   law_in_bounds c' errs ps = law_in_bounds c errs ps"
  by (induction ps arbitrary: errs) (auto simp: Let_def)

lemma inc_pid_run_law:
  "holds_law c errs \<Longrightarrow> inc_run_due c ps \<Longrightarrow> law_in_bounds c errs ps \<Longrightarrow>
   holds_law (inc_pid_run c ps) (errors_of c ps @ errs) \<and>
   ikp (inc_pid_run c ps) = ikp c \<and> iki (inc_pid_run c ps) = iki c \<and> ikd (inc_pid_run c ps) = ikd c \<and>
   (ps \<noteq> [] \<longrightarrow> ctl_output (ictl (inc_pid_run c ps)) = ilast_out (inc_pid_run c ps))"
proof (induction ps arbitrary: c errs)
  case Nil
  then show ?case by (simp add: errors_of_def)
next
  case (Cons q ps)
  obtain now p where q: "q = (now, p)" by (cases q)
  let ?c' = "snd (inc_pid_controller_update rat_fops now now c p)"
  note u = inc_update_law [OF Cons.prems(1) _ Cons.prems(3) [unfolded q] refl]
  have due: "inc_due c now" "inc_run_due ?c' ps" using Cons.prems(2) q by simp_all
  have "law_in_bounds ?c' ((target (ictl c) - p) # errs) ps"
    using law_in_bounds_cong [OF u(3-8) [OF due(1)]] Cons.prems(3) q by (simp add: Let_def)
  from Cons.IH [OF u(1) [OF due(1)] due(2) this] u [OF due(1)] show ?case
    by (cases ps) (auto simp: q errors_of_def)
qed

text \<open>Updates of the positional controller at the given times with the given measurements.\<close>

fun pos_pid_run :: "rat pos_pid_controller \<Rightarrow> (u32 \<times> u32 \<times> rat) list \<Rightarrow> rat pos_pid_controller" where
  "pos_pid_run c [] = c"
| "pos_pid_run c ((now, now', p) # ps) = pos_pid_run (snd (pos_pid_controller_update rat_fops now now' c p)) ps"

lemma pos_pid_run_integral:
  "anti_windup_value c = 0 \<Longrightarrow> integral c = 0 \<Longrightarrow> pi_error c = 0 \<Longrightarrow>
   integral (pos_pid_run c ps) = 0 \<and> pi_error (pos_pid_run c ps) = 0"
proof (induction ps arbitrary: c)
  case (Cons q ps)
  obtain now now' p where q: "q = (now, now', p)" by (cases q)
  let ?c' = "snd (pos_pid_controller_update rat_fops now now' c p)"
  have "anti_windup_value ?c' = 0" "integral ?c' = 0" "pi_error ?c' = 0"
    using Cons.prems by (auto simp: pos_pid_controller_update_def Let_def)
  from Cons.IH [OF this] show ?case by (simp add: q)
qed simp

section \<open>Properties\<close>

text \<open>C27: Once enabled, a controller never hands out more than its bounds allow: an update either
  reports that the sample time is not over and changes nothing, or it computes an output that is
  neither above the maximum nor below the minimum. This needs of the floating point format only
  that nothing is greater than itself.\<close>

theorem controller_output_bounded:
  assumes "\<And>x. \<not> fgt F x x" "enable (ctl_of c)" "fns_set (ctl_of c)"
    "case c of Inc_Pid i \<Rightarrow> \<not> fgt F (iminimum i) (imaximum i) | Pos_Pid p \<Rightarrow> \<not> fgt F (pminimum p) (pmaximum p)"
  shows "\<exists>r c'. controller_update F now now' (Some c) point = Inr (r, c') \<and>
    (r = RT_EBUSY \<and> c' = c \<or>
     r = RT_EOK \<and>
       (case c of
          Inc_Pid i \<Rightarrow> \<not> fgt F (ctl_output (ctl_of c')) (imaximum i) \<and> \<not> fgt F (iminimum i) (ctl_output (ctl_of c'))
        | Pos_Pid p \<Rightarrow> \<not> fgt F (ctl_output (ctl_of c')) (pmaximum p) \<and> \<not> fgt F (pminimum p) (ctl_output (ctl_of c'))))"
proof -
  have f: "float_cmp F" using assms(1) by unfold_locales
  show ?thesis
  proof (cases c)
    case (Inc_Pid i)
    obtain r i' where "inc_pid_controller_update F now now' i point = (r, i')"
      by (cases "inc_pid_controller_update F now now' i point")
    with float_cmp.inc_update_range [OF f this] assms(2-) Inc_Pid show ?thesis
      by (auto simp: controller_update_def ctl_of_def)
  next
    case (Pos_Pid p)
    obtain r p' where "pos_pid_controller_update F now now' p point = (r, p')"
      by (cases "pos_pid_controller_update F now now' p point")
    with float_cmp.pos_update_range [OF f this] assms(2-) Pos_Pid show ?thesis
      by (auto simp: controller_update_def ctl_of_def)
  qed
qed

definition fresh_controller :: "rat controller" where
  "fresh_controller = \<lparr>target = 100, ctl_output = 0, ctl_sample_time = 50, enable = True, fns_set = True\<rparr>"

definition sample_inc_pid :: "rat inc_pid_controller" where
  "sample_inc_pid = \<lparr>ictl = fresh_controller, ikp = 33/5, iki = 13/2, ikd = 38/5,
     iminimum = -1000, imaximum = 1000, ip_error = 0, ii_error = 0, id_error = 0, ierror = 0,
     ierror_l = 0, ierror_ll = 0, ilast_out = 0, ilast_time = 0\<rparr>"

theorem controller_output_bounded_witness:
  "\<exists>r c'. controller_update rat_fops 60 60 (Some (Inc_Pid sample_inc_pid)) 10 = Inr (r, c') \<and>
     (r = RT_EBUSY \<or> ctl_output (ctl_of c') \<le> 1000 \<and> -1000 \<le> ctl_output (ctl_of c'))"
  using controller_output_bounded [of rat_fops "Inc_Pid sample_inc_pid" 60 60 10]
  by (fastforce simp: ctl_of_def sample_inc_pid_def fresh_controller_def not_less)

text \<open>C26: The incremental controller computes the PID law: in exact arithmetic, as long as the law
  stays within the bounds, after any number of updates its output is
  \<open>kp * e + ki * sum of errors + kd * (e - previous e)\<close>, although each update only adds a
  difference to the last output.\<close>

theorem inc_pid_is_pid_law:
  assumes "ierror_l c = 0" "ierror_ll c = 0" "ilast_out c = 0" "ps \<noteq> []"
    "inc_run_due c ps" "law_in_bounds c [] ps"
  shows "ctl_output (ictl (inc_pid_run c ps)) = pid_law (ikp c) (iki c) (ikd c) (errors_of c ps)"
proof -
  have "holds_law c []" using assms by (simp add: holds_law_def pid_law_def)
  from inc_pid_run_law [OF this assms(5,6)] assms(4) show ?thesis
    by (simp add: holds_law_def)
qed

theorem inc_pid_is_pid_law_witness:
  "ctl_output (ictl (inc_pid_run sample_inc_pid [(60, 80), (120, 90)])) = pid_law (33/5) (13/2) (38/5) [10, 20]"
  using inc_pid_is_pid_law [of sample_inc_pid "[(60, 80), (120, 90)]"]
  by (simp add: sample_inc_pid_def fresh_controller_def inc_due_def tick_from_ms errors_of_def
      pid_law_def inc_pid_controller_update_def Let_def pid_clamp_def)

text \<open>A positional controller as its constructor leaves it has an anti-windup limit of zero,
  which nothing sets to another value: its integral is cut to zero at every update, and the
  integral gain has no effect, whatever it is.\<close>

theorem pos_pid_integral_dead:
  assumes "snd (pos_pid_controller_create rat_fops mem_ok junk junk_time kp ki kd) = Some c"
  shows "integral (pos_pid_run c ps) = 0 \<and> pi_error (pos_pid_run c ps) = 0"
  by (rule pos_pid_run_integral)
    (use assms in \<open>auto simp: pos_pid_controller_create_def controller_create_def split: if_splits\<close>)

theorem pos_pid_integral_dead_witness:
  "\<exists>c. snd (pos_pid_controller_create rat_fops True fresh_controller 0 1 500 0) = Some c \<and>
     pi_error (pos_pid_run c [(60, 60, 40), (120, 121, 45)]) = 0"
proof -
  obtain c where c: "snd (pos_pid_controller_create rat_fops True fresh_controller 0 1 500 0) = Some c"
    by (simp add: pos_pid_controller_create_def controller_create_def)
  from pos_pid_integral_dead [OF c] c show ?thesis by blast
qed

text \<open>Resetting a controller clears its function pointers with everything else, so a controller
  that is enabled again after a reset calls through a null pointer at its next update.\<close>

theorem controller_reset_breaks:
  assumes "controller_reset F (Some c) = Inr c1" "controller_enable (Some c1) = Inr c2"
  shows "controller_update F now now' (Some c2) point = Inl Null_Deref"
  using assms
  by (auto simp: controller_reset_def controller_enable_def controller_update_def ctl_of_def ctl_update_def
      inc_pid_controller_reset_def pos_pid_controller_reset_def controller_zero_def split: any_controller.splits if_splits)

theorem controller_reset_breaks_witness:
  "\<exists>c1 c2. controller_reset rat_fops (Some (Inc_Pid sample_inc_pid)) = Inr c1 \<and>
     controller_enable (Some c1) = Inr c2 \<and>
     controller_update rat_fops 60 60 (Some c2) 10 = Inl Null_Deref"
proof -
  obtain c1 where c1: "controller_reset rat_fops (Some (Inc_Pid sample_inc_pid)) = Inr c1"
    by (simp add: controller_reset_def ctl_of_def sample_inc_pid_def fresh_controller_def)
  obtain c2 where c2: "controller_enable (Some c1) = Inr c2" by (simp add: controller_enable_def)
  from controller_reset_breaks [OF c1 c2] c1 c2 show ?thesis by blast
qed

end
