(* ===== verification/Chassis.thy ===== *)
theory Chassis
  imports Controller
begin

text \<open>
  Wheels, kinematics and chassis of the robot package: \<^verbatim>\<open>wheel/wheel.c\<close>,
  \<^verbatim>\<open>kinematics/kinematics.c\<close> and \<^verbatim>\<open>chassis/chassis.c\<close>.

  A wheel owns its motor, encoder and controller (\<open>None\<close> is a null pointer), a chassis its
  wheels; no two wheels of the program share a part. The array \<open>c_wheels\<close> is a list and the
  loops over it read it with \<open>rd\<close>. Each operation returns the driver calls it makes and the
  objects it leaves. The clock is read four times in the update of a wheel.
\<close>

section \<open>Wheels\<close>

record 'f wheel =
  w_motor :: "motor option"
  w_encoder :: "any_encoder option"
  w_controller :: "'f any_controller option"
  w_rpm :: int
  radius :: 'f
  gear_ratio :: u16

type_synonym wheel_ticks = "u32 \<times> u32 \<times> u32 \<times> u32"

definition wheel_create ::
    "bool \<Rightarrow> int \<Rightarrow> motor option \<Rightarrow> any_encoder option \<Rightarrow> 'f any_controller option \<Rightarrow> 'f \<Rightarrow> u16 \<Rightarrow>
     hw_event list \<times> 'f wheel option" where
  "wheel_create mem_ok junk_rpm m e c r g =
     (if mem_ok then ([Mem_Alloc], Some \<lparr>w_motor = m, w_encoder = e, w_controller = c, w_rpm = junk_rpm,
        radius = r, gear_ratio = g\<rparr>) else ([], None))"

definition wheel_destroy :: "'f wheel \<Rightarrow> fault + hw_event list" where
  "wheel_destroy w =
     rbind (motor_destroy (w_motor w)) (\<lambda>e1.
     rbind (encoder_destroy (w_encoder w)) (\<lambda>e2.
     rbind (controller_destroy (w_controller w)) (\<lambda>e3. Inr (e1 @ e2 @ e3 @ [Mem_Free]))))"

definition wheel_enable :: "(int \<Rightarrow> int) \<Rightarrow> u32 \<Rightarrow> 'f wheel \<Rightarrow> fault + hw_event list \<times> 'f wheel" where
  "wheel_enable pin_read now w =
     rbind (motor_enable (w_motor w)) (\<lambda>e1.
     rbind (encoder_enable pin_read now (w_encoder w)) (\<lambda>(e2, enc).
     rbind (controller_enable (w_controller w)) (\<lambda>ctl.
       Inr (e1 @ e2 @ [Delay_Ms (sample_time (enc_of enc))], w\<lparr>w_encoder := Some enc, w_controller := Some ctl\<rparr>))))"

definition wheel_disable :: "'f wheel \<Rightarrow> fault + hw_event list \<times> 'f wheel" where
  "wheel_disable w =
     rbind (motor_disable (w_motor w)) (\<lambda>e1.
     rbind (encoder_disable (w_encoder w)) (\<lambda>e2.
     rbind (controller_disable (w_controller w)) (\<lambda>ctl. Inr (e1 @ e2, w\<lparr>w_controller := Some ctl\<rparr>))))"

definition wheel_reset :: "'f wheel \<Rightarrow> int" where
  "wheel_reset w = RT_EOK"

definition wheel_set_rpm :: "'f fops \<Rightarrow> 'f wheel \<Rightarrow> int \<Rightarrow> fault + int \<times> 'f wheel" where
  "wheel_set_rpm F w r =
     rbind (controller_set_target F (w_controller w) r) (\<lambda>ctl.
       Inr (if feq F (target (ctl_of ctl)) (flit F (of_int r)) then RT_EOK else RT_ERROR,
            w\<lparr>w_controller := Some ctl\<rparr>))"

text \<open>\<open>D\<close> is the arithmetic of \<open>double\<close>, \<open>widen\<close> the conversion of a \<open>float\<close> to it.\<close>

definition wheel_set_speed ::
    "'f fops \<Rightarrow> 'd fops \<Rightarrow> ('f \<Rightarrow> 'd) \<Rightarrow> 'f wheel \<Rightarrow> 'd \<Rightarrow> fault + int \<times> 'f wheel" where
  "wheel_set_speed F D widen w speed =
     wheel_set_rpm F w (f_to_s16 D
       (fdiv D (fdiv D (fdiv D (fdiv D speed (flit D 60)) (flit D 2)) (widen (radius w)))
         (flit D (31415926 / 10000000))))"

definition wheel_update :: "'f fops \<Rightarrow> wheel_ticks \<Rightarrow> 'f wheel \<Rightarrow> fault + hw_event list \<times> 'f wheel" where
  "wheel_update F ticks w = (case ticks of (t1, t2, t3, t4) \<Rightarrow>
     rbind (encoder_measure_rpm t1 t2 (map_option enc_of (w_encoder w))) (\<lambda>(r, e).
     rbind (controller_update F t3 t4 (w_controller w) (flit F (of_int r))) (\<lambda>(res, ctl).
     rbind (motor_run (w_motor w) (f_to_s16 F (ctl_output (ctl_of ctl)))) (\<lambda>ev.
       Inr (ev, w\<lparr>w_encoder := map_option (enc_update (\<lambda>_. e)) (w_encoder w), w_controller := Some ctl,
                  w_rpm := r\<rparr>)))))"

definition wheel_stop :: "'f wheel \<Rightarrow> fault + hw_event list" where
  "wheel_stop w = motor_stop (w_motor w)"

section \<open>Kinematics\<close>

datatype base = TWO_WD | FOUR_WD | ACKERMANN | MECANUM

record rpm =
  motor1 :: int
  motor2 :: int
  motor3 :: int
  motor4 :: int

record 'f velocity =
  linear_x :: 'f
  linear_y :: 'f
  angular_z :: 'f

record 'f kinematics =
  k_base :: base
  length_x :: 'f
  length_y :: 'f
  wheel_radius :: 'f
  total_wheels :: nat

definition kinematics_create :: "bool \<Rightarrow> base \<Rightarrow> 'f \<Rightarrow> 'f \<Rightarrow> 'f \<Rightarrow> hw_event list \<times> 'f kinematics option" where
  "kinematics_create mem_ok b lx ly r =
     (if mem_ok then ([Mem_Alloc], Some \<lparr>k_base = b, length_x = lx, length_y = ly, wheel_radius = r,
        total_wheels = (case b of TWO_WD \<Rightarrow> 2 | FOUR_WD \<Rightarrow> 4 | ACKERMANN \<Rightarrow> 3 | MECANUM \<Rightarrow> 4)\<rparr>)
      else ([], None))"

definition kinematics_destroy :: "'f kinematics \<Rightarrow> hw_event list" where
  "kinematics_destroy k = [Mem_Free]"

definition kinematics_reset :: "'f kinematics \<Rightarrow> int" where
  "kinematics_reset k = RT_EOK"

text \<open>The result array is allocated and, when that fails, written all the same.\<close>

definition kinematics_get_rpm ::
    "'f fops \<Rightarrow> bool \<Rightarrow> 'f kinematics \<Rightarrow> 'f velocity \<Rightarrow> fault + hw_event list \<times> int list" where
  "kinematics_get_rpm F mem_ok kin target_vel =
     (if \<not> mem_ok then Inl Null_Deref
      else
        let res_rpm = replicate 4 0;
            target_vel = (if k_base kin = TWO_WD \<or> k_base kin = FOUR_WD \<or> k_base kin = ACKERMANN
                          then target_vel\<lparr>linear_y := flit F 0\<rparr> else target_vel);
            linear_vel_x_mins = fmul F (linear_x target_vel) (flit F 60);
            linear_vel_y_mins = fmul F (linear_y target_vel) (flit F 60);
            angular_vel_z_mins = fmul F (angular_z target_vel) (flit F 60);
            tangential_vel = fmul F angular_vel_z_mins
              (fadd F (fdiv F (length_x kin) (flit F 2)) (fdiv F (length_y kin) (flit F 2)));
            x_rpm = fdiv F linear_vel_x_mins (wheel_radius kin);
            y_rpm = fdiv F linear_vel_y_mins (wheel_radius kin);
            tan_rpm = fdiv F tangential_vel (wheel_radius kin);
            m1 = ftoi F (fsub F (fsub F x_rpm y_rpm) tan_rpm);
            m2 = ftoi F (fadd F (fadd F x_rpm y_rpm) tan_rpm);
            m3 = ftoi F (fsub F (fadd F x_rpm y_rpm) tan_rpm);
            m4 = ftoi F (fadd F (fsub F x_rpm y_rpm) tan_rpm)
        in Inr ([Mem_Alloc],
             case k_base kin of
               TWO_WD \<Rightarrow> res_rpm[0 := s16 m3, 1 := s16 m4]
             | FOUR_WD \<Rightarrow> res_rpm[0 := s16 m1, 1 := s16 m2, 2 := s16 m3, 3 := s16 m4]
             | ACKERMANN \<Rightarrow> res_rpm[0 := f_to_s16 F (angular_z target_vel), 1 := s16 m3, 2 := s16 m4]
             | MECANUM \<Rightarrow> res_rpm[0 := s16 m1, 1 := s16 m2, 2 := s16 m3, 3 := s16 m4]))"

definition sum4 :: "int \<Rightarrow> int \<Rightarrow> int \<Rightarrow> int \<Rightarrow> fault + int" where
  "sum4 a b c d = rbind (chk32 (a + b)) (\<lambda>x. rbind (chk32 (x + c)) (\<lambda>y. chk32 (y + d)))"

definition kinematics_get_velocity ::
    "'f fops \<Rightarrow> 'f kinematics \<Rightarrow> rpm \<Rightarrow> fault + 'f velocity" where
  "kinematics_get_velocity F kin cur =
     (let total = (case k_base kin of TWO_WD \<Rightarrow> 2 | FOUR_WD \<Rightarrow> 4 | ACKERMANN \<Rightarrow> 2 | MECANUM \<Rightarrow> 4);
          average = (\<lambda>s. fdiv F (fdiv F (flit F (of_int s)) (flit F total)) (flit F 60))
      in rbind (sum4 (motor1 cur) (motor2 cur) (motor3 cur) (motor4 cur)) (\<lambda>sx.
         rbind (sum4 (- motor1 cur) (motor2 cur) (motor3 cur) (- motor4 cur)) (\<lambda>sy.
         rbind (sum4 (- motor1 cur) (motor2 cur) (- motor3 cur) (motor4 cur)) (\<lambda>sa.
           Inr \<lparr>linear_x = fmul F (average sx) (wheel_radius kin),
                linear_y = (if k_base kin = MECANUM then fmul F (average sy) (wheel_radius kin) else flit F 0),
                angular_z = fdiv F (fmul F (average sa) (wheel_radius kin))
                  (fadd F (fdiv F (length_x kin) (flit F 2)) (fdiv F (length_y kin) (flit F 2)))\<rparr>))))"

section \<open>Chassis\<close>

record 'f chassis =
  c_wheels :: "'f wheel list"
  c_kinematics :: "'f kinematics"
  c_velocity :: "'f velocity"

definition chassis_create ::
    "bool \<Rightarrow> 'f velocity \<Rightarrow> 'f wheel list \<Rightarrow> 'f kinematics \<Rightarrow> hw_event list \<times> 'f chassis option" where
  "chassis_create mem_ok junk ws k =
     (if mem_ok then ([Mem_Alloc], Some \<lparr>c_wheels = ws, c_kinematics = k, c_velocity = junk\<rparr>) else ([], None))"

text \<open>The loops over the wheels from number \<open>i\<close>, \<open>n\<close> of them.\<close>

fun for_wheels ::
    "(nat \<Rightarrow> 'f wheel \<Rightarrow> fault + hw_event list \<times> 'f wheel) \<Rightarrow> nat \<Rightarrow> nat \<Rightarrow> 'f wheel list \<Rightarrow>
     fault + hw_event list \<times> 'f wheel list" where
  "for_wheels f i 0 ws = Inr ([], ws)"
| "for_wheels f i (Suc n) ws =
     rbind (rd ws i) (\<lambda>w.
     rbind (f i w) (\<lambda>(ev, w').
     rbind (for_wheels f (Suc i) n (ws[i := w'])) (\<lambda>(ev', ws'). Inr (ev @ ev', ws'))))"

definition chassis_destroy :: "'f chassis \<Rightarrow> fault + hw_event list" where
  "chassis_destroy c =
     rbind (for_wheels (\<lambda>i w. rbind (wheel_destroy w) (\<lambda>ev. Inr (ev, w))) 0 (total_wheels (c_kinematics c)) (c_wheels c))
       (\<lambda>(ev, ws). Inr (ev @ kinematics_destroy (c_kinematics c) @ [Mem_Free]))"

definition chassis_enable :: "(int \<Rightarrow> int) \<Rightarrow> (nat \<Rightarrow> u32) \<Rightarrow> 'f chassis \<Rightarrow> fault + hw_event list \<times> 'f chassis" where
  "chassis_enable pin_read now c =
     rbind (for_wheels (\<lambda>i. wheel_enable pin_read (now i)) 0 (total_wheels (c_kinematics c)) (c_wheels c))
       (\<lambda>(ev, ws). Inr (ev, c\<lparr>c_wheels := ws\<rparr>))"

definition chassis_disable :: "'f chassis \<Rightarrow> int" where
  "chassis_disable c = RT_EOK"

definition chassis_reset :: "'f chassis \<Rightarrow> int" where
  "chassis_reset c = RT_EOK"

definition chassis_update :: "'f fops \<Rightarrow> (nat \<Rightarrow> wheel_ticks) \<Rightarrow> 'f chassis \<Rightarrow> fault + hw_event list \<times> 'f chassis" where
  "chassis_update F ticks c =
     rbind (for_wheels (\<lambda>i. wheel_update F (ticks i)) 0 (total_wheels (c_kinematics c)) (c_wheels c))
       (\<lambda>(ev, ws). Inr (ev, c\<lparr>c_wheels := ws\<rparr>))"

definition chassis_set_rpm ::
    "'f fops \<Rightarrow> (nat \<Rightarrow> wheel_ticks) \<Rightarrow> 'f chassis \<Rightarrow> int list \<Rightarrow> fault + hw_event list \<times> 'f chassis" where
  "chassis_set_rpm F ticks c target_rpm =
     rbind (for_wheels (\<lambda>i w. rbind (rd target_rpm i) (\<lambda>r.
              rbind (wheel_set_rpm F w r) (\<lambda>(res, w'). Inr ([], w'))))
            0 (total_wheels (c_kinematics c)) (c_wheels c)) (\<lambda>(ev1, ws).
     rbind (for_wheels (\<lambda>i. wheel_update F (ticks i)) 0 (total_wheels (c_kinematics c)) ws) (\<lambda>(ev2, ws').
       Inr (ev1 @ ev2, c\<lparr>c_wheels := ws'\<rparr>)))"

definition chassis_set_velocity ::
    "'f fops \<Rightarrow> bool \<Rightarrow> (nat \<Rightarrow> wheel_ticks) \<Rightarrow> 'f chassis \<Rightarrow> 'f velocity \<Rightarrow> fault + hw_event list \<times> 'f chassis" where
  "chassis_set_velocity F mem_ok ticks c v =
     rbind (kinematics_get_rpm F mem_ok (c_kinematics c) v) (\<lambda>(ev1, res_rpm).
     rbind (chassis_set_rpm F ticks c res_rpm) (\<lambda>(ev2, c'). Inr (ev1 @ ev2, c')))"

definition CHASSIS_FORWARD_ANALOG :: int where "CHASSIS_FORWARD_ANALOG = 0"
definition CHASSIS_BACKWARD_ANALOG :: int where "CHASSIS_BACKWARD_ANALOG = 1"
definition CHASSIS_TURN_LEFT_ANALOG :: int where "CHASSIS_TURN_LEFT_ANALOG = 2"
definition CHASSIS_TURN_RIGHT_ANALOG :: int where "CHASSIS_TURN_RIGHT_ANALOG = 3"
definition CHASSIS_STOP :: int where "CHASSIS_STOP = 4"

lemmas chassis_consts = CHASSIS_FORWARD_ANALOG_def CHASSIS_BACKWARD_ANALOG_def
  CHASSIS_TURN_LEFT_ANALOG_def CHASSIS_TURN_RIGHT_ANALOG_def CHASSIS_STOP_def

text \<open>
  The target velocity for a command, \<open>None\<close> for an unknown one. The four driving commands
  read a byte through their argument. (The log call in front of the switch is compiled out:
  \<open>DBG_ENABLE\<close> is not defined.)
\<close>

definition command_velocity :: "'f fops \<Rightarrow> int \<Rightarrow> u8 option \<Rightarrow> fault + 'f velocity option" where
  "command_velocity F cmd args =
     (let z = flit F 0;
          arg = (\<lambda>f. case args of None \<Rightarrow> Inl Null_Deref | Some a \<Rightarrow> Inr (Some (f (flit F (of_int (uint a))))))
      in if cmd = CHASSIS_FORWARD_ANALOG then
           arg (\<lambda>a. \<lparr>linear_x = fdiv F a (flit F 100), linear_y = z, angular_z = z\<rparr>)
         else if cmd = CHASSIS_BACKWARD_ANALOG then
           arg (\<lambda>a. \<lparr>linear_x = fdiv F (fneg F a) (flit F 100), linear_y = z, angular_z = z\<rparr>)
         else if cmd = CHASSIS_TURN_LEFT_ANALOG then
           arg (\<lambda>a. \<lparr>linear_x = z, linear_y = z, angular_z = a\<rparr>)
         else if cmd = CHASSIS_TURN_RIGHT_ANALOG then
           arg (\<lambda>a. \<lparr>linear_x = z, linear_y = z, angular_z = fneg F a\<rparr>)
         else if cmd = CHASSIS_STOP then Inr (Some \<lparr>linear_x = z, linear_y = z, angular_z = z\<rparr>)
         else Inr None)"

definition chassis_parse_command ::
    "'f fops \<Rightarrow> bool \<Rightarrow> (nat \<Rightarrow> wheel_ticks) \<Rightarrow> 'f chassis \<Rightarrow> int \<Rightarrow> u8 option \<Rightarrow>
     fault + int \<times> hw_event list \<times> 'f chassis" where
  "chassis_parse_command F mem_ok ticks c cmd args =
     rbind (command_velocity F cmd args) (\<lambda>v.
       case v of
         None \<Rightarrow> Inr (RT_ERROR, [], c)
       | Some v \<Rightarrow> rbind (chassis_set_velocity F mem_ok ticks c v) (\<lambda>(ev, c'). Inr (RT_EOK, ev, c')))"

section \<open>The loops over the wheels\<close>

lemma for_wheels_Suc:
  assumes "for_wheels f i (Suc n) ws = Inr (ev, ws')"
  obtains e w ev2 where "i < length ws" "f i (ws ! i) = Inr (e, w)"
    "for_wheels f (Suc i) n (ws[i := w]) = Inr (ev2, ws')" "ev = e @ ev2"
  using assms by (auto simp: rbind_eq_Inr rd_def split: if_splits prod.splits)

lemma for_wheels_length:
  "for_wheels f i n ws = Inr (ev, ws') \<Longrightarrow> length ws' = length ws \<and> (0 < n \<longrightarrow> i + n \<le> length ws)"
proof (induction n arbitrary: i ws ev)
  case (Suc n)
  obtain e w ev2 where s: "i < length ws" "for_wheels f (Suc i) n (ws[i := w]) = Inr (ev2, ws')"
    using Suc.prems(1) by (rule for_wheels_Suc)
  then show ?case using Suc.IH [OF s(2)] by (cases n) auto
qed simp

lemma for_wheels_other:
  "for_wheels f i n ws = Inr (ev, ws') \<Longrightarrow> k < i \<or> i + n \<le> k \<Longrightarrow> ws' ! k = ws ! k"
proof (induction n arbitrary: i ws ev)
  case (Suc n)
  obtain e w ev2 where s: "for_wheels f (Suc i) n (ws[i := w]) = Inr (ev2, ws')"
    using Suc.prems(1) by (rule for_wheels_Suc)
  then show ?case using Suc.IH [OF s] Suc.prems(2) by (auto simp: nth_list_update)
qed simp

lemma for_wheels_done:
  "for_wheels f i n ws = Inr (ev, ws') \<Longrightarrow> i \<le> k \<Longrightarrow> k < i + n \<Longrightarrow> \<exists>e. f k (ws ! k) = Inr (e, ws' ! k)"
proof (induction n arbitrary: i ws ev)
  case (Suc n)
  obtain e w ev2 where s: "i < length ws" "f i (ws ! i) = Inr (e, w)"
    "for_wheels f (Suc i) n (ws[i := w]) = Inr (ev2, ws')"
    using Suc.prems(1) by (rule for_wheels_Suc)
  show ?case
  proof (cases "k = i")
    case True
    then show ?thesis using s for_wheels_other [OF s(3), of i] by simp
  next
    case False
    then show ?thesis using Suc.IH [OF s(3)] Suc.prems by simp
  qed
qed simp

lemma for_wheels_heap:
  assumes "\<And>k w e w' b. f k w = Inr (e, w') \<Longrightarrow> heap_live (board_run e b) = heap_live b"
  shows "for_wheels f i n ws = Inr (ev, ws') \<Longrightarrow> heap_live (board_run ev b) = heap_live b"
proof (induction n arbitrary: i ws ev b)
  case 0
  then show ?case by simp
next
  case (Suc n)
  then show ?case using assms by (auto simp: rbind_eq_Inr split: prod.splits)
qed

lemma motor_run_heap: "motor_run m t = Inr e \<Longrightarrow> heap_live (board_run e b) = heap_live b"
  by (auto simp: motor_run_def assert_ptr_def single_pwm_motor_set_speed_def dual_pwm_motor_set_speed_def
      Let_def rbind_eq_Inr split: option.splits motor.splits if_splits)

lemma wheel_update_heap:
  "wheel_update F ticks w = Inr (e, w') \<Longrightarrow> heap_live (board_run e b) = heap_live b"
  by (auto simp: wheel_update_def rbind_eq_Inr motor_run_heap split: prod.splits)

text \<open>An update leaves the target of the wheel's controller alone.\<close>

definition wheel_target :: "'f wheel \<Rightarrow> 'f option" where
  "wheel_target w = map_option (\<lambda>c. target (ctl_of c)) (w_controller w)"

lemma controller_update_target:
  "controller_update F t t' (Some c) p = Inr (r, c') \<Longrightarrow> target (ctl_of c') = target (ctl_of c)"
  by (cases c) (auto simp: controller_update_def ctl_of_def ctl_update_def inc_pid_controller_update_def
      pos_pid_controller_update_def Let_def split: if_splits prod.splits)

lemma wheel_update_target: "wheel_update F ticks w = Inr (e, w') \<Longrightarrow> wheel_target w' = wheel_target w"
  by (cases "w_controller w")
    (auto simp: wheel_update_def rbind_eq_Inr wheel_target_def controller_update_def [of _ _ _ None]
      dest: controller_update_target split: prod.splits)

lemma wheel_set_rpm_target: "wheel_set_rpm F w r = Inr (res, w') \<Longrightarrow> wheel_target w' = Some (flit F (of_int r))"
  by (cases "w_controller w")
    (auto simp: wheel_set_rpm_def rbind_eq_Inr wheel_target_def controller_set_target_def)

lemma chassis_set_rpm_heap:
  assumes "chassis_set_rpm F ticks c r = Inr (ev, c')"
  shows "heap_live (board_run ev b) = heap_live b"
proof -
  from assms obtain ev1 ws ev2 ws' where
    e: "for_wheels (\<lambda>i w. rbind (rd r i) (\<lambda>r. rbind (wheel_set_rpm F w r) (\<lambda>(res, w'). Inr ([], w'))))
            0 (total_wheels (c_kinematics c)) (c_wheels c) = Inr (ev1, ws)"
      "for_wheels (\<lambda>i. wheel_update F (ticks i)) 0 (total_wheels (c_kinematics c)) ws = Inr (ev2, ws')" "ev = ev1 @ ev2"
    by (auto simp: chassis_set_rpm_def rbind_eq_Inr split: prod.splits)
  have "heap_live (board_run ev1 b) = heap_live b"
    by (rule for_wheels_heap [OF _ e(1)]) (auto simp: rbind_eq_Inr split: prod.splits)
  moreover have "heap_live (board_run ev2 (board_run ev1 b)) = heap_live (board_run ev1 b)"
    by (rule for_wheels_heap [OF _ e(2)]) (rule wheel_update_heap)
  ultimately show ?thesis by (simp add: e(3))
qed

lemma chassis_set_rpm_spec:
  assumes "chassis_set_rpm F ticks c r = Inr (ev, c')"
  shows "length (c_wheels c') = length (c_wheels c) \<and> c_kinematics c' = c_kinematics c \<and>
    (\<forall>k < length (c_wheels c). wheel_target (c_wheels c' ! k) =
       (if k < total_wheels (c_kinematics c) then Some (flit F (of_int (r ! k))) else wheel_target (c_wheels c ! k)))"
proof -
  from assms obtain ev1 ws ev2 ws' where
    e: "for_wheels (\<lambda>i w. rbind (rd r i) (\<lambda>r. rbind (wheel_set_rpm F w r) (\<lambda>(res, w'). Inr ([], w'))))
            0 (total_wheels (c_kinematics c)) (c_wheels c) = Inr (ev1, ws)"
      "for_wheels (\<lambda>i. wheel_update F (ticks i)) 0 (total_wheels (c_kinematics c)) ws = Inr (ev2, ws')"
      "c' = c\<lparr>c_wheels := ws'\<rparr>"
    by (auto simp: chassis_set_rpm_def rbind_eq_Inr split: prod.splits)
  note len = for_wheels_length [OF e(1)] for_wheels_length [OF e(2)]
  have "wheel_target (ws' ! k) = (if k < total_wheels (c_kinematics c) then Some (flit F (of_int (r ! k)))
      else wheel_target (c_wheels c ! k))" if k: "k < length (c_wheels c)" for k
  proof (cases "k < total_wheels (c_kinematics c)")
    case True
    from for_wheels_done [OF e(1), of k] True have "wheel_target (ws ! k) = Some (flit F (of_int (r ! k)))"
      by (auto simp: rbind_eq_Inr rd_def wheel_set_rpm_target split: if_splits prod.splits)
    moreover have "wheel_target (ws' ! k) = wheel_target (ws ! k)"
      using for_wheels_done [OF e(2), of k] True by (auto dest: wheel_update_target)
    ultimately show ?thesis using True by simp
  next
    case False
    then show ?thesis using for_wheels_other [OF e(1), of k] for_wheels_other [OF e(2), of k] by simp
  qed
  then show ?thesis using len by (simp add: e(3))
qed

section \<open>Kinematics in exact arithmetic\<close>

text \<open>What the wheel speeds of each base must satisfy to come from one motion of the robot.\<close>

definition rigid :: "base \<Rightarrow> rpm \<Rightarrow> bool" where
  "rigid b m = (case b of
     TWO_WD \<Rightarrow> motor1 m = 0 \<and> motor2 m = 0
   | FOUR_WD \<Rightarrow> motor1 m = motor3 m \<and> motor2 m = motor4 m
   | ACKERMANN \<Rightarrow> motor1 m = 0 \<and> motor2 m = 0
   | MECANUM \<Rightarrow> motor1 m + motor2 m = motor3 m + motor4 m)"

definition rpm_small :: "rpm \<Rightarrow> bool" where
  "rpm_small m \<longleftrightarrow> (\<forall>x \<in> {motor1 m, motor2 m, motor3 m, motor4 m}. -32768 \<le> x \<and> x < 32768)"

definition driven_wheels :: "base \<Rightarrow> int list \<Rightarrow> int list" where
  "driven_wheels b r = (case b of TWO_WD \<Rightarrow> take 2 r | ACKERMANN \<Rightarrow> take 2 (drop 1 r) | _ \<Rightarrow> r)"

definition rpm_wheels :: "base \<Rightarrow> rpm \<Rightarrow> int list" where
  "rpm_wheels b m = (if b = TWO_WD \<or> b = ACKERMANN then [motor3 m, motor4 m]
     else [motor1 m, motor2 m, motor3 m, motor4 m])"

lemma sum4_small:
  "\<bar>a\<bar> \<le> 32768 \<Longrightarrow> \<bar>b\<bar> \<le> 32768 \<Longrightarrow> \<bar>c\<bar> \<le> 32768 \<Longrightarrow> \<bar>d\<bar> \<le> 32768 \<Longrightarrow> sum4 a b c d = Inr (a + b + c + d)"
  by (auto simp: sum4_def chk32_def abs_le_iff)

text \<open>The inverse kinematics of a velocity that is given in revolutions.\<close>

lemma get_rpm_exact:
  fixes X Y T :: rat
  assumes "wheel_radius kin \<noteq> 0" "length_x kin / 2 + length_y kin / 2 = h" "h \<noteq> 0"
    "linear_x v = X / 60 * wheel_radius kin"
    "linear_y v = (if k_base kin = MECANUM then Y / 60 * wheel_radius kin else 0)"
    "angular_z v = T / 60 * wheel_radius kin / h"
  shows "\<exists>servo. kinematics_get_rpm rat_fops True kin v = Inr ([Mem_Alloc],
     case k_base kin of
       TWO_WD \<Rightarrow> [s16 (rat_trunc (X - T)), s16 (rat_trunc (X + T)), 0, 0]
     | FOUR_WD \<Rightarrow> [s16 (rat_trunc (X - T)), s16 (rat_trunc (X + T)), s16 (rat_trunc (X - T)), s16 (rat_trunc (X + T))]
     | ACKERMANN \<Rightarrow> [servo, s16 (rat_trunc (X - T)), s16 (rat_trunc (X + T)), 0]
     | MECANUM \<Rightarrow> [s16 (rat_trunc (X - Y - T)), s16 (rat_trunc (X + Y + T)), s16 (rat_trunc (X + Y - T)), s16 (rat_trunc (X - Y + T))])"
proof -
  have x: "linear_x v * 60 / wheel_radius kin = X" "angular_z v * 60 * h / wheel_radius kin = T"
    using assms by simp_all
  show ?thesis
  proof (cases "k_base kin = MECANUM")
    case True
    have "linear_y v * 60 / wheel_radius kin = Y" using True assms(1,5) by simp
    then show ?thesis using True x
      by (simp add: kinematics_get_rpm_def Let_def assms(2) numeral_eq_Suc)
  next
    case False
    then show ?thesis using x
      by (cases "k_base kin") (simp_all add: kinematics_get_rpm_def Let_def assms(2) numeral_eq_Suc)
  qed
qed

lemma get_velocity_exact:
  assumes "rpm_small m" "length_x kin / 2 + length_y kin / 2 = h"
  shows "\<exists>v. kinematics_get_velocity rat_fops kin m = Inr v \<and>
    (let n = (if k_base kin = TWO_WD \<or> k_base kin = ACKERMANN then 2 else 4) in
     linear_x v = of_int (motor1 m + motor2 m + motor3 m + motor4 m) / n / 60 * wheel_radius kin \<and>
     linear_y v = (if k_base kin = MECANUM
       then of_int (- motor1 m + motor2 m + motor3 m - motor4 m) / n / 60 * wheel_radius kin else 0) \<and>
     angular_z v = of_int (- motor1 m + motor2 m - motor3 m + motor4 m) / n / 60 * wheel_radius kin / h)"
proof -
  have "\<bar>x\<bar> \<le> 32768" if "x \<in> {motor1 m, motor2 m, motor3 m, motor4 m}" for x
    using assms(1) that by (auto simp: rpm_small_def)
  then show ?thesis
    by (cases "k_base kin") (simp_all add: kinematics_get_velocity_def Let_def sum4_small assms(2))
qed

section \<open>Properties\<close>

text \<open>C29: Forward and inverse kinematics fit together: in exact arithmetic, for each of the four
  bases, the wheel speeds computed for the velocity that was computed from consistent 16-bit
  wheel speeds are these speeds again.\<close>

theorem kinematics_roundtrip:
  assumes "wheel_radius kin \<noteq> 0" "length_x kin + length_y kin \<noteq> 0" "rpm_small m" "rigid (k_base kin) m"
  shows "\<exists>v ev r. kinematics_get_velocity rat_fops kin m = Inr v \<and>
    kinematics_get_rpm rat_fops True kin v = Inr (ev, r) \<and>
    driven_wheels (k_base kin) r = rpm_wheels (k_base kin) m"
proof -
  have "length_x kin / 2 + length_y kin / 2 \<noteq> 0" using assms(2) by (simp add: field_simps)
  then obtain h where h: "length_x kin / 2 + length_y kin / 2 = h" "h \<noteq> 0" by blast
  obtain n :: rat where n: "n = (if k_base kin = TWO_WD \<or> k_base kin = ACKERMANN then 2 else 4)" by blast
  obtain X where X: "X = of_int (motor1 m + motor2 m + motor3 m + motor4 m) / n" by blast
  obtain Y where Y: "Y = of_int (- motor1 m + motor2 m + motor3 m - motor4 m) / n" by blast
  obtain T where T: "T = of_int (- motor1 m + motor2 m - motor3 m + motor4 m) / n" by blast
  obtain v where v: "kinematics_get_velocity rat_fops kin m = Inr v"
    "linear_x v = X / 60 * wheel_radius kin"
    "linear_y v = (if k_base kin = MECANUM then Y / 60 * wheel_radius kin else 0)"
    "angular_z v = T / 60 * wheel_radius kin / h"
    using get_velocity_exact [OF assms(3) h(1)] unfolding X Y T n Let_def by blast
  note r = get_rpm_exact [OF assms(1) h v(2-4)]
  have s16: "s16 (motor1 m) = motor1 m" "s16 (motor2 m) = motor2 m" "s16 (motor3 m) = motor3 m" "s16 (motor4 m) = motor4 m"
    using assms(3) by (simp_all add: rpm_small_def s16_id)
  show ?thesis
  proof (cases "k_base kin")
    case TWO_WD
    then have "X - T = of_int (motor3 m)" "X + T = of_int (motor4 m)"
      using assms(4) unfolding X T n by (simp_all add: rigid_def field_simps)
    with r TWO_WD v(1) show ?thesis by (auto simp: s16 driven_wheels_def rpm_wheels_def)
  next
    case FOUR_WD
    then have "X - T = of_int (motor1 m)" "X + T = of_int (motor2 m)" "motor3 m = motor1 m" "motor4 m = motor2 m"
      using assms(4) unfolding X T n by (simp_all add: rigid_def field_simps)
    with r FOUR_WD v(1) show ?thesis by (auto simp: s16 driven_wheels_def rpm_wheels_def)
  next
    case ACKERMANN
    then have "X - T = of_int (motor3 m)" "X + T = of_int (motor4 m)"
      using assms(4) unfolding X T n by (simp_all add: rigid_def field_simps)
    with r ACKERMANN v(1) show ?thesis by (auto simp: s16 driven_wheels_def rpm_wheels_def)
  next
    case MECANUM
    then have e: "motor4 m = motor1 m + motor2 m - motor3 m" using assms(4) by (simp add: rigid_def)
    have "X - Y - T = of_int (motor1 m)" "X + Y + T = of_int (motor2 m)"
      "X + Y - T = of_int (motor3 m)" "X - Y + T = of_int (motor4 m)"
      using MECANUM unfolding X Y T n by (simp_all add: e field_simps)
    with r MECANUM v(1) show ?thesis by (auto simp: s16 driven_wheels_def rpm_wheels_def)
  qed
qed

theorem kinematics_roundtrip_witness:
  "\<exists>v ev r. kinematics_get_velocity rat_fops
       \<lparr>k_base = MECANUM, length_x = 0, length_y = 13/100, wheel_radius = 66/1000, total_wheels = 4\<rparr>
       \<lparr>motor1 = 10, motor2 = 30, motor3 = 25, motor4 = 15\<rparr> = Inr v \<and>
     kinematics_get_rpm rat_fops True
       \<lparr>k_base = MECANUM, length_x = 0, length_y = 13/100, wheel_radius = 66/1000, total_wheels = 4\<rparr> v = Inr (ev, r) \<and>
     r = [10, 30, 25, 15]"
  using kinematics_roundtrip [of "\<lparr>k_base = MECANUM, length_x = 0, length_y = 13/100, wheel_radius = 66/1000, total_wheels = 4\<rparr>"
      "\<lparr>motor1 = 10, motor2 = 30, motor3 = 25, motor4 = 15\<rparr>"]
  by (simp add: rpm_small_def rigid_def driven_wheels_def rpm_wheels_def)

text \<open>\<open>chassis_set_rpm\<close> gives every wheel of the base its own target speed, in the order of the
  array, and leaves the further wheels alone.\<close>

theorem chassis_set_rpm_targets:
  assumes "chassis_set_rpm F ticks c r = Inr (ev, c')"
  shows "length (c_wheels c') = length (c_wheels c) \<and> c_kinematics c' = c_kinematics c \<and>
    (\<forall>k < length (c_wheels c). wheel_target (c_wheels c' ! k) =
       (if k < total_wheels (c_kinematics c) then Some (flit F (of_int (r ! k))) else wheel_target (c_wheels c ! k)))"
  by (rule chassis_set_rpm_spec [OF assms])

definition sample_wheel :: "rat wheel" where
  "sample_wheel = \<lparr>w_motor = Some (Single_Pwm \<lparr>pwm_dev = 4, channel = 1, pin1 = 60, pin2 = 29\<rparr>),
     w_encoder = Some (Ab_Phase \<lparr>ab_enc = sample_encoder, pin_a = 51, pin_b = 52, last_value = 0\<rparr>),
     w_controller = Some (Inc_Pid sample_inc_pid), w_rpm = 0, radius = 66/1000, gear_ratio = 1\<rparr>"

definition sample_chassis :: "rat chassis" where
  "sample_chassis = \<lparr>c_wheels = replicate 4 sample_wheel,
     c_kinematics = \<lparr>k_base = MECANUM, length_x = 0, length_y = 13/100, wheel_radius = 66/1000, total_wheels = 4\<rparr>,
     c_velocity = \<lparr>linear_x = 0, linear_y = 0, angular_z = 0\<rparr>\<rparr>"

lemma sample_wheel_update:
  "\<exists>ev w'. wheel_update rat_fops (1, 1, 1, 1)
     (sample_wheel\<lparr>w_controller := Some (Inc_Pid (sample_inc_pid\<lparr>ictl := fresh_controller\<lparr>target := t\<rparr>\<rparr>))\<rparr>) = Inr (ev, w')"
  by (simp add: wheel_update_def sample_wheel_def sample_encoder_def enc_of_def encoder_measure_rpm_def
      encoder_measure_cps_def tick_from_ms cdiv_def controller_update_def ctl_of_def sample_inc_pid_def
      fresh_controller_def inc_pid_controller_update_def motor_run_def single_pwm_motor_set_speed_def
      f_to_s16_def s16_def)

lemma sample_wheel_set_rpm:
  "wheel_set_rpm rat_fops sample_wheel r = Inr (RT_EOK,
     sample_wheel\<lparr>w_controller := Some (Inc_Pid (sample_inc_pid\<lparr>ictl := fresh_controller\<lparr>target := of_int r\<rparr>\<rparr>))\<rparr>)"
  by (simp add: wheel_set_rpm_def sample_wheel_def controller_set_target_def ctl_of_def ctl_update_def sample_inc_pid_def)

lemma sample_chassis_set_rpm:
  "\<exists>ev c'. chassis_set_rpm rat_fops (\<lambda>_. (1, 1, 1, 1)) sample_chassis [a, b, c, d] = Inr (ev, c')"
proof -
  obtain ea wa eb wb ec wc ed wd where
    "wheel_update rat_fops (1, 1, 1, 1) (sample_wheel\<lparr>w_controller := Some (Inc_Pid (sample_inc_pid\<lparr>ictl := fresh_controller\<lparr>target := of_int a\<rparr>\<rparr>))\<rparr>) = Inr (ea, wa)"
    "wheel_update rat_fops (1, 1, 1, 1) (sample_wheel\<lparr>w_controller := Some (Inc_Pid (sample_inc_pid\<lparr>ictl := fresh_controller\<lparr>target := of_int b\<rparr>\<rparr>))\<rparr>) = Inr (eb, wb)"
    "wheel_update rat_fops (1, 1, 1, 1) (sample_wheel\<lparr>w_controller := Some (Inc_Pid (sample_inc_pid\<lparr>ictl := fresh_controller\<lparr>target := of_int c\<rparr>\<rparr>))\<rparr>) = Inr (ec, wc)"
    "wheel_update rat_fops (1, 1, 1, 1) (sample_wheel\<lparr>w_controller := Some (Inc_Pid (sample_inc_pid\<lparr>ictl := fresh_controller\<lparr>target := of_int d\<rparr>\<rparr>))\<rparr>) = Inr (ed, wd)"
    using sample_wheel_update [of "of_int a"] sample_wheel_update [of "of_int b"]
      sample_wheel_update [of "of_int c"] sample_wheel_update [of "of_int d"] by auto
  then show ?thesis
    by (simp add: chassis_set_rpm_def sample_chassis_def numeral_eq_Suc sample_wheel_set_rpm)
qed

theorem chassis_set_rpm_targets_witness:
  "\<exists>ev c'. chassis_set_rpm rat_fops (\<lambda>_. (1, 1, 1, 1)) sample_chassis [7, 8, 9, 10] = Inr (ev, c') \<and>
     wheel_target (c_wheels c' ! 2) = Some 9"
proof -
  obtain ev c' where c': "chassis_set_rpm rat_fops (\<lambda>_. (1, 1, 1, 1)) sample_chassis [7, 8, 9, 10] = Inr (ev, c')"
    using sample_chassis_set_rpm by blast
  from chassis_set_rpm_targets [OF c'] c' show ?thesis by (auto simp: sample_chassis_def)
qed

text \<open>\<open>chassis_set_velocity\<close> loses the array that \<open>kinematics_get_rpm\<close> allocates: every call
  that returns leaves one more live block than before.\<close>

theorem chassis_set_velocity_leaks:
  assumes "chassis_set_velocity F mem_ok ticks c v = Inr (ev, c')"
  shows "heap_live (board_run ev b) = heap_live b + 1"
proof -
  obtain ev1 r ev2 where "kinematics_get_rpm F mem_ok (c_kinematics c) v = Inr (ev1, r)"
    "chassis_set_rpm F ticks c r = Inr (ev2, c')" "ev = ev1 @ ev2"
    using assms by (auto simp: chassis_set_velocity_def rbind_eq_Inr split: prod.splits)
  moreover from this(1) have "ev1 = [Mem_Alloc]"
    by (auto simp: kinematics_get_rpm_def Let_def split: if_splits)
  ultimately show ?thesis by (simp add: chassis_set_rpm_heap)
qed

theorem chassis_set_velocity_leaks_witness:
  "\<exists>ev c'. chassis_set_velocity rat_fops True (\<lambda>_. (1, 1, 1, 1)) sample_chassis
       \<lparr>linear_x = 1, linear_y = 0, angular_z = 0\<rparr> = Inr (ev, c') \<and>
     heap_live (board_run ev board_reset) = 1"
proof -
  obtain a b c d ev1 where "kinematics_get_rpm rat_fops True (c_kinematics sample_chassis)
      \<lparr>linear_x = 1, linear_y = 0, angular_z = 0\<rparr> = Inr (ev1, [a, b, c, d])"
    by (simp add: kinematics_get_rpm_def Let_def sample_chassis_def numeral_eq_Suc)
  then obtain ev c' where c': "chassis_set_velocity rat_fops True (\<lambda>_. (1, 1, 1, 1)) sample_chassis
       \<lparr>linear_x = 1, linear_y = 0, angular_z = 0\<rparr> = Inr (ev, c')"
    using sample_chassis_set_rpm [of a b c d] by (auto simp: chassis_set_velocity_def)
  from chassis_set_velocity_leaks [OF c', of board_reset] c' show ?thesis by (simp add: board_reset_def)
qed

end
