(* ===== verification/Roc_Robot.thy ===== *)
theory Roc_Robot
  imports Chassis Protocol_Properties
begin

text \<open>
  The application: \<^verbatim>\<open>applications/roc_robot.c\<close>, the control loop of
  \<^verbatim>\<open>applications/main.c\<close> and the receiving thread of \<^verbatim>\<open>applications/tcprecv.c\<close>.

  \<^item> \<open>roc_robot\<close> holds the four motors (null when their creation failed), the status and the
    speed; \<open>chas\<close> is the global chassis. Motors do not change after their creation, so the
    copies in the wheels of the chassis and in \<open>roc_robot\<close> are the same objects; encoders and
    controllers are reached through the chassis only.
  \<^item> \<open>wifi_control_pass\<close> is one pass of the endless loop of \<open>wifi_control\<close> without its delay.
    The ring buffer \<open>tcp_dat\<close> is filled by the receiving thread between passes.
  \<^item> \<open>cos\<close> and \<open>sin\<close> of the C library are arguments, as the rest of floating point.
\<close>

section \<open>State\<close>

datatype robot_status = E_FORWARD | E_BACK | E_LEFT | E_RIGHT | E_RIGHT_ROTATE | E_LEFT_ROTATE
  | E_STOP | E_RUNNING | E_SPEED_UP | E_SPEED_DOWN | E_LOW_POWER

record roc_robot =
  left_forward_motor :: "single_pwm_motor option"
  left_backward_motor :: "single_pwm_motor option"
  right_forward_motor :: "single_pwm_motor option"
  right_backward_motor :: "single_pwm_motor option"
  status :: robot_status
  speed :: int

section \<open>Moves\<close>

text \<open>The four calls every move makes, in their order.\<close>

definition set_motors :: "roc_robot \<Rightarrow> int \<Rightarrow> int \<Rightarrow> int \<Rightarrow> int \<Rightarrow> fault + hw_event list" where
  "set_motors r lf lb rf rb =
     rbind (single_pwm_motor_set_speed (left_forward_motor r) (s16 lf)) (\<lambda>e1.
     rbind (single_pwm_motor_set_speed (left_backward_motor r) (s16 lb)) (\<lambda>e2.
     rbind (single_pwm_motor_set_speed (right_forward_motor r) (s16 rf)) (\<lambda>e3.
     rbind (single_pwm_motor_set_speed (right_backward_motor r) (s16 rb)) (\<lambda>e4.
       Inr (e1 @ e2 @ e3 @ e4)))))"

definition roc_robot_go_forward :: "roc_robot \<Rightarrow> fault + hw_event list \<times> roc_robot" where
  "roc_robot_go_forward r =
     rbind (set_motors r (speed r * 10) (speed r * 10) (speed r * 10) (speed r * 10)) (\<lambda>ev.
       Inr (ev, r\<lparr>status := E_FORWARD\<rparr>))"

definition roc_robot_go_backward :: "roc_robot \<Rightarrow> fault + hw_event list \<times> roc_robot" where
  "roc_robot_go_backward r =
     rbind (set_motors r (- speed r * 10) (- speed r * 10) (- speed r * 10) (- speed r * 10)) (\<lambda>ev.
       Inr (ev, r\<lparr>status := E_BACK\<rparr>))"

definition roc_robot_turn_right :: "roc_robot \<Rightarrow> fault + hw_event list \<times> roc_robot" where
  "roc_robot_turn_right r =
     rbind (set_motors r (speed r * 10) (- speed r * 10) (- speed r * 10) (speed r * 10)) (\<lambda>ev.
       Inr (ev, r\<lparr>status := E_RIGHT\<rparr>))"

definition roc_robot_turn_right_rotate :: "roc_robot \<Rightarrow> fault + hw_event list \<times> roc_robot" where
  "roc_robot_turn_right_rotate r =
     rbind (set_motors r (speed r * 10) (speed r * 10) (- speed r * 10) (- speed r * 10)) (\<lambda>ev.
       Inr (ev, r\<lparr>status := E_RIGHT_ROTATE\<rparr>))"

definition roc_robot_turn_left :: "roc_robot \<Rightarrow> fault + hw_event list \<times> roc_robot" where
  "roc_robot_turn_left r =
     rbind (set_motors r (- speed r * 10) (speed r * 10) (speed r * 10) (- speed r * 10)) (\<lambda>ev.
       Inr (ev, r\<lparr>status := E_LEFT\<rparr>))"

definition roc_robot_turn_left_rotate :: "roc_robot \<Rightarrow> fault + hw_event list \<times> roc_robot" where
  "roc_robot_turn_left_rotate r =
     rbind (set_motors r (- speed r * 10) (- speed r * 10) (speed r * 10) (speed r * 10)) (\<lambda>ev.
       Inr (ev, r\<lparr>status := E_LEFT_ROTATE\<rparr>))"

definition roc_robot_stop :: "roc_robot \<Rightarrow> fault + hw_event list \<times> roc_robot" where
  "roc_robot_stop r = rbind (set_motors r 0 0 0 0) (\<lambda>ev. Inr (ev, r\<lparr>status := E_STOP\<rparr>))"

definition roc_robot_run :: "roc_robot \<Rightarrow> int \<Rightarrow> int \<Rightarrow> int \<Rightarrow> fault + hw_event list" where
  "roc_robot_run r x y rot =
     (let lf_speed = s16 (x + y + rot);
          lb_speed = s16 (- x + y + rot);
          rf_speed = s16 (- x + y - rot);
          rb_speed = s16 (x + y - rot)
      in set_motors r (lf_speed * 10) (lb_speed * 10) (rf_speed * 10) (rb_speed * 10))"

definition roc_robot_drive ::
    "'d fops \<Rightarrow> ('d \<Rightarrow> 'd) \<Rightarrow> ('d \<Rightarrow> 'd) \<Rightarrow> roc_robot \<Rightarrow> u16 \<Rightarrow> fault + hw_event list \<times> roc_robot" where
  "roc_robot_drive D dcos dsin r degree =
     (if degree = 0xFFFF then roc_robot_stop r
      else
        let a = flit D (of_int (uint degree));
            x = f_to_s16 D (fmul D (dcos a) (flit D (of_int (speed r))));
            y = f_to_s16 D (fmul D (dsin a) (flit D (of_int (speed r))))
        in rbind (roc_robot_run r x y 0) (\<lambda>ev. Inr (ev, r)))"

definition roc_robot_set_speed :: "roc_robot \<Rightarrow> int \<Rightarrow> roc_robot" where
  "roc_robot_set_speed r s = r\<lparr>speed := s8 s\<rparr>"

definition roc_robot_get_speed :: "roc_robot \<Rightarrow> int" where
  "roc_robot_get_speed r = speed r"

definition roc_robot_set_status :: "roc_robot \<Rightarrow> robot_status \<Rightarrow> roc_robot" where
  "roc_robot_set_status r s = r\<lparr>status := s\<rparr>"

definition roc_robot_get_status :: "roc_robot \<Rightarrow> robot_status" where
  "roc_robot_get_status r = status r"

section \<open>Initialisation\<close>

text \<open>
  The contents of the blocks that the constructors allocate and do not clear, by the number of
  the object. \<open>mem\<close> says for each of the nineteen allocations, in their order, whether it
  succeeds; \<open>now\<close> gives the tick at which each encoder is enabled.
\<close>

record 'f init_junk =
  j_enc :: "nat \<Rightarrow> encoder"
  j_ctl :: "nat \<Rightarrow> 'f controller"
  j_time :: "nat \<Rightarrow> u32"
  j_rpm :: "nat \<Rightarrow> int"
  j_vel :: "'f velocity"

definition SAMPLE_TIME :: u16 where "SAMPLE_TIME = 1000"
definition PID_SAMPLE_TIME :: u16 where "PID_SAMPLE_TIME = 50"

text \<open>\<open>chassis_enable\<close> on an array that may hold null wheels: it enables those in front.\<close>

definition enable_wheel_array ::
    "(int \<Rightarrow> int) \<Rightarrow> (nat \<Rightarrow> u32) \<Rightarrow> 'f wheel option list \<Rightarrow> fault + hw_event list \<times> 'f wheel list" where
  "enable_wheel_array pin_read now ws =
     (let pre = takeWhile (\<lambda>w. w \<noteq> None) ws
      in rbind (for_wheels (\<lambda>i. wheel_enable pin_read (now i)) 0 (length pre) (map the pre)) (\<lambda>(ev, ws').
           if length pre < length ws then Inl Null_Deref else Inr (ev, ws')))"

definition roc_robot_init ::
    "'f fops \<Rightarrow> (nat \<Rightarrow> bool) \<Rightarrow> (string \<Rightarrow> dev option) \<Rightarrow> (int \<Rightarrow> int) \<Rightarrow> (nat \<Rightarrow> u32) \<Rightarrow> 'f init_junk \<Rightarrow>
     roc_robot \<Rightarrow> fault + hw_event list \<times> roc_robot \<times> 'f chassis" where
  "roc_robot_init F mem dev_find pin_read now junk r =
     (let a0 = (if mem 0 then [Mem_Alloc] else []);
          (a1, lf) = single_pwm_motor_create (mem 1) dev_find ''pwm4'' 1 60 29;
          (a2, lb) = single_pwm_motor_create (mem 2) dev_find ''pwm4'' 3 96 67;
          (a3, rf) = single_pwm_motor_create (mem 3) dev_find ''pwm2'' 1 24 17;
          (a4, rb) = single_pwm_motor_create (mem 4) dev_find ''pwm2'' 3 48 33;
          (a5, e0) = ab_phase_encoder_create (mem 5) (j_enc junk 0) 51 52 20;
          (a6, e1) = ab_phase_encoder_create (mem 6) (j_enc junk 1) 61 62 20;
          (a7, e2) = ab_phase_encoder_create (mem 7) (j_enc junk 2) 53 54 20;
          (a8, e3) = ab_phase_encoder_create (mem 8) (j_enc junk 3) 63 64 20;
          pid = (\<lambda>k. inc_pid_controller_create F (mem (9 + k)) (j_ctl junk k) (j_time junk k)
                   (flit F (66 / 10)) (flit F (65 / 10)) (flit F (76 / 10)));
          whl = (\<lambda>k m e. wheel_create (mem (13 + k)) (j_rpm junk k) (map_option Single_Pwm m) (map_option Ab_Phase e)
                   (map_option Inc_Pid (snd (pid k))) (flit F (66 / 1000)) 1);
          (ak, kin) = kinematics_create (mem 17) MECANUM (flit F 0) (flit F (13 / 100)) (flit F (66 / 1000));
          r = r\<lparr>left_forward_motor := lf, left_backward_motor := lb, right_forward_motor := rf,
                right_backward_motor := rb\<rparr>;
          alloc = a0 @ a1 @ a2 @ a3 @ a4 @ a5 @ a6 @ a7 @ a8 @ fst (pid 0) @ fst (pid 1) @ fst (pid 2) @ fst (pid 3)
                  @ fst (whl 0 lf e0) @ fst (whl 1 lb e1) @ fst (whl 2 rf e2) @ fst (whl 3 rb e3) @ ak
                  @ (if mem 18 then [Mem_Alloc] else [])
      in if \<not> mem 0 then Inl Null_Deref
         else
           rbind (roc_robot_stop r) (\<lambda>(ev1, r).
             case (if mem 18 then kin else None) of
               None \<Rightarrow> Inl Null_Deref
             | Some kin \<Rightarrow>
                 rbind (enable_wheel_array pin_read now
                          [snd (whl 0 lf e0), snd (whl 1 lb e1), snd (whl 2 rf e2), snd (whl 3 rb e3)]) (\<lambda>(ev2, ws).
                 rbind (for_wheels (\<lambda>i w. rbind (encoder_set_sample_time (map_option enc_of (w_encoder w)) SAMPLE_TIME)
                          (\<lambda>e. Inr ([], w\<lparr>w_encoder := map_option (enc_update (\<lambda>_. e)) (w_encoder w)\<rparr>))) 0 4 ws) (\<lambda>(ev3, ws).
                 rbind (for_wheels (\<lambda>i w. rbind (controller_set_sample_time (w_controller w) PID_SAMPLE_TIME)
                          (\<lambda>c. Inr ([], w\<lparr>w_controller := Some c\<rparr>))) 0 4 ws) (\<lambda>(ev4, ws).
                   Inr (alloc @ ev1 @ ev2 @ ev3 @ ev4, r,
                        \<lparr>c_wheels = ws, c_kinematics = kin, c_velocity = j_vel junk\<rparr>))))))"

section \<open>The control loop\<close>

text \<open>The switch on the function of an accepted frame.\<close>

definition wifi_dispatch ::
    "'d fops \<Rightarrow> ('d \<Rightarrow> 'd) \<Rightarrow> ('d \<Rightarrow> 'd) \<Rightarrow> parser \<Rightarrow> roc_robot \<Rightarrow> fault + hw_event list \<times> roc_robot" where
  "wifi_dispatch D dcos dsin ps r =
     rbind (protocol_get_function ps) (\<lambda>f.
       if f = E_ROBOT_CONTROL_DIRECTION then
         rbind (protocol_get_degree ps) (\<lambda>d. roc_robot_drive D dcos dsin r d)
       else if f = E_ROBOT_CONTROL_SPEED then
         rbind (protocol_get_speed ps) (\<lambda>s. Inr ([], roc_robot_set_speed r s))
       else if f = E_BUTTON then
         rbind (protocol_get_button_value ps) (\<lambda>b.
           if b = BT_PAD_UP then roc_robot_go_forward r
           else if b = BT_PAD_DOWN then roc_robot_go_backward r
           else if b = BT_PAD_LEFT then roc_robot_turn_left r
           else if b = BT_PAD_RIGHT then roc_robot_turn_right r
           else if b = BT_GREEN then roc_robot_turn_left_rotate r
           else if b = BT_BLUE then roc_robot_turn_right_rotate r
           else Inr ([], r))
       else Inr ([], r))"

definition wifi_control_pass ::
    "'d fops \<Rightarrow> ('d \<Rightarrow> 'd) \<Rightarrow> ('d \<Rightarrow> 'd) \<Rightarrow> parser \<Rightarrow> rt_ringbuffer \<Rightarrow> roc_robot \<Rightarrow>
     (fault + hw_event list \<times> parser \<times> rt_ringbuffer \<times> roc_robot) option" where
  "wifi_control_pass D dcos dsin ps tcp_dat r =
     map_option (\<lambda>res.
       rbind res (\<lambda>(b, ps1, tcp_dat).
       rbind (protocol_parser ps1) (\<lambda>(ok, ps2).
       rbind (if ok then wifi_dispatch D dcos dsin ps2 r else Inr ([], r)) (\<lambda>(ev, r).
         Inr (ev, protocol_parser_reinit ps2, tcp_dat, r)))))
     (protocol_recev_data ps tcp_dat)"

section \<open>The receiving thread\<close>

text \<open>
  The inner loop of \<open>tcprecvserv\<close> on what \<open>recv\<close> returns, call by call: the number of bytes,
  and the bytes in \<open>recv_data\<close>. The result is the value of \<open>connected\<close>, whether the socket was
  closed, and the ring buffer; \<open>conn\<close> is the descriptor before.
\<close>

fun tcp_recv_loop :: "int \<Rightarrow> (int \<times> u8 list) list \<Rightarrow> rt_ringbuffer \<Rightarrow> int \<times> bool \<times> rt_ringbuffer" where
  "tcp_recv_loop conn [] tcp_dat = (conn, False, tcp_dat)"
| "tcp_recv_loop conn ((bytes_received, recv_data) # rs) tcp_dat =
     (if bytes_received < 0 then (conn, True, tcp_dat)
      else if bytes_received = 0 then (-1, True, tcp_dat)
      else tcp_recv_loop conn rs (snd (rt_ringbuffer_put_force tcp_dat recv_data (nat bytes_received))))"

text \<open>One turn of \<open>led_flash\<close>: the levels written to the pin, each with its delay.\<close>

definition led_flash_turn :: "int \<Rightarrow> int \<Rightarrow> hw_event list" where
  "led_flash_turn led conn =
     (if conn < 0
      then [Pin_Write led PIN_LOW, Delay_Ms 500, Pin_Write led PIN_HIGH, Delay_Ms 500]
      else [Pin_Write led PIN_LOW, Delay_Ms 1000])"

section \<open>What a move does to the motors\<close>

definition lines_apart :: "single_pwm_motor \<Rightarrow> single_pwm_motor \<Rightarrow> bool" where
  "lines_apart m m' \<longleftrightarrow> pin1 m \<noteq> pin1 m' \<and> pin1 m \<noteq> pin2 m' \<and> pin2 m \<noteq> pin1 m' \<and> pin2 m \<noteq> pin2 m' \<and>
     (pwm_dev m, channel m) \<noteq> (pwm_dev m', channel m')"

text \<open>Four motors that share no line, as the header of the application wires them.\<close>

definition robot_wired :: "roc_robot \<Rightarrow> single_pwm_motor \<Rightarrow> single_pwm_motor \<Rightarrow> single_pwm_motor \<Rightarrow> single_pwm_motor \<Rightarrow> bool" where
  "robot_wired r lf lb rf rb \<longleftrightarrow>
     left_forward_motor r = Some lf \<and> left_backward_motor r = Some lb \<and>
     right_forward_motor r = Some rf \<and> right_backward_motor r = Some rb \<and>
     pin1 lf \<noteq> pin2 lf \<and> pin1 lb \<noteq> pin2 lb \<and> pin1 rf \<noteq> pin2 rf \<and> pin1 rb \<noteq> pin2 rb \<and>
     lines_apart lf lb \<and> lines_apart lf rf \<and> lines_apart lf rb \<and> lines_apart lb rf \<and>
     lines_apart lb rb \<and> lines_apart rf rb"

text \<open>The events that touch the lines of one motor only.\<close>

fun event_of :: "single_pwm_motor \<Rightarrow> hw_event \<Rightarrow> bool" where
  "event_of m (Pwm_Set d c period pulse) \<longleftrightarrow> d = pwm_dev m \<and> c = channel m"
| "event_of m (Pin_Write p v) \<longleftrightarrow> p = pin1 m \<or> p = pin2 m"
| "event_of m _ \<longleftrightarrow> False"

lemma set_speed_events:
  "single_pwm_motor_set_speed (Some m) t = Inr ev \<Longrightarrow> list_all (event_of m) ev"
  by (auto simp: single_pwm_motor_set_speed_def Let_def rbind_eq_Inr split: if_splits)

lemma event_other:
  assumes "event_of m e" "lines_apart m m' \<or> lines_apart m' m"
  shows "single_drive m' (board_step e b) = single_drive m' b"
proof -
  have "pin1 m' \<noteq> pin1 m \<and> pin1 m' \<noteq> pin2 m \<and> pin2 m' \<noteq> pin1 m \<and> pin2 m' \<noteq> pin2 m \<and>
      (pwm_dev m', channel m') \<noteq> (pwm_dev m, channel m)"
    using assms(2) unfolding lines_apart_def by metis
  then have "pin_level (board_step e b) (pin1 m') = pin_level b (pin1 m')"
    "pin_level (board_step e b) (pin2 m') = pin_level b (pin2 m')"
    "pwm_pulse (board_step e b) (pwm_dev m', channel m') = pwm_pulse b (pwm_dev m', channel m')"
    using assms(1) by (cases e; fastforce)+
  then show ?thesis by (simp add: single_drive_def)
qed

lemma events_other:
  "list_all (event_of m) ev \<Longrightarrow> lines_apart m m' \<or> lines_apart m' m \<Longrightarrow>
   single_drive m' (board_run ev b) = single_drive m' b"
  by (induction ev arbitrary: b) (auto simp: event_other)

lemma set_speed_other:
  assumes "single_pwm_motor_set_speed (Some m) t = Inr ev" "lines_apart m m' \<or> lines_apart m' m"
  shows "single_drive m' (board_run ev b) = single_drive m' b"
  by (rule events_other [OF set_speed_events [OF assms(1)] assms(2)])

lemma set_speed_s16:
  "pin1 m \<noteq> pin2 m \<Longrightarrow> \<exists>ev. single_pwm_motor_set_speed (Some m) (s16 t) = Inr ev \<and>
     (\<forall>b. single_drive m (board_run ev b) = duty (s16 t))"
  using single_set_speed_drive [of "s16 t" m] s16_range [of t] by (metis sum.inject(2))

lemma set_motors_drive:
  assumes "robot_wired r lf lb rf rb"
  shows "\<exists>ev. set_motors r a b c d = Inr ev \<and> (\<forall>s.
    single_drive lf (board_run ev s) = duty (s16 a) \<and> single_drive lb (board_run ev s) = duty (s16 b) \<and>
    single_drive rf (board_run ev s) = duty (s16 c) \<and> single_drive rb (board_run ev s) = duty (s16 d))"
proof -
  note w = assms [unfolded robot_wired_def]
  from w set_speed_s16 [of lf a] set_speed_s16 [of lb b] set_speed_s16 [of rf c] set_speed_s16 [of rb d]
  obtain e1 e2 e3 e4 where
    e: "single_pwm_motor_set_speed (Some lf) (s16 a) = Inr e1" "single_pwm_motor_set_speed (Some lb) (s16 b) = Inr e2"
      "single_pwm_motor_set_speed (Some rf) (s16 c) = Inr e3" "single_pwm_motor_set_speed (Some rb) (s16 d) = Inr e4"
    and d: "\<And>s. single_drive lf (board_run e1 s) = duty (s16 a)" "\<And>s. single_drive lb (board_run e2 s) = duty (s16 b)"
      "\<And>s. single_drive rf (board_run e3 s) = duty (s16 c)" "\<And>s. single_drive rb (board_run e4 s) = duty (s16 d)"
    by blast
  have "set_motors r a b c d = Inr (e1 @ e2 @ e3 @ e4)" using w e by (simp add: set_motors_def)
  with w d show ?thesis
    by (auto simp: set_speed_other [OF e(2)] set_speed_other [OF e(3)] set_speed_other [OF e(4)])
qed

section \<open>Properties\<close>

definition sample_robot :: roc_robot where
  "sample_robot =
     \<lparr>left_forward_motor = Some \<lparr>pwm_dev = 4, channel = 1, pin1 = 60, pin2 = 29\<rparr>,
      left_backward_motor = Some \<lparr>pwm_dev = 4, channel = 3, pin1 = 96, pin2 = 67\<rparr>,
      right_forward_motor = Some \<lparr>pwm_dev = 2, channel = 1, pin1 = 24, pin2 = 17\<rparr>,
      right_backward_motor = Some \<lparr>pwm_dev = 2, channel = 3, pin1 = 48, pin2 = 33\<rparr>,
      status = E_STOP, speed = 50\<rparr>"

lemma sample_robot_wired:
  "robot_wired (sample_robot\<lparr>speed := v\<rparr>) \<lparr>pwm_dev = 4, channel = 1, pin1 = 60, pin2 = 29\<rparr>
     \<lparr>pwm_dev = 4, channel = 3, pin1 = 96, pin2 = 67\<rparr> \<lparr>pwm_dev = 2, channel = 1, pin1 = 24, pin2 = 17\<rparr>
     \<lparr>pwm_dev = 2, channel = 3, pin1 = 48, pin2 = 33\<rparr>"
  by (simp add: robot_wired_def lines_apart_def sample_robot_def)

text \<open>C6: \<open>roc_robot_run\<close> drives the four mecanum wheels with the sums and differences of the
  three components, each wheel with its own, from whatever state the outputs were in: within
  the range of the speeds nothing wraps and no motor disturbs another.\<close>

theorem robot_run_drives:
  assumes "robot_wired r lf lb rf rb" "\<bar>x\<bar> + \<bar>y\<bar> + \<bar>z\<bar> \<le> 3276"
  shows "\<exists>ev. roc_robot_run r x y z = Inr ev \<and> (\<forall>b.
    single_drive lf (board_run ev b) = duty (10 * (x + y + z)) \<and>
    single_drive lb (board_run ev b) = duty (10 * (- x + y + z)) \<and>
    single_drive rf (board_run ev b) = duty (10 * (- x + y - z)) \<and>
    single_drive rb (board_run ev b) = duty (10 * (x + y - z)))"
proof -
  have s: "s16 (s16 v * 10) = 10 * v" if "\<bar>v\<bar> \<le> 3276" for v
    using that by (simp add: s16_id)
  have "\<bar>x + y + z\<bar> \<le> 3276" "\<bar>- x + y + z\<bar> \<le> 3276" "\<bar>- x + y - z\<bar> \<le> 3276" "\<bar>x + y - z\<bar> \<le> 3276"
    using assms(2) by arith+
  note s [OF this(1)] s [OF this(2)] s [OF this(3)] s [OF this(4)]
  with set_motors_drive [OF assms(1), of "s16 (x + y + z) * 10" "s16 (- x + y + z) * 10"
      "s16 (- x + y - z) * 10" "s16 (x + y - z) * 10"]
  show ?thesis by (simp only: roc_robot_run_def Let_def)
qed

theorem robot_run_drives_witness:
  "\<exists>ev. roc_robot_run sample_robot 30 20 0 = Inr ev \<and>
     single_drive \<lparr>pwm_dev = 4, channel = 3, pin1 = 96, pin2 = 67\<rparr> (board_run ev board_reset) = -5000"
  using robot_run_drives [OF sample_robot_wired [of 50], of 30 20 0]
  by (auto simp: sample_robot_def duty_def)

text \<open>The six moves of the remote control are special cases of \<open>roc_robot_run\<close>, with the same
  driver calls: forward and backward along y, the two turns along x, the rotations about the
  vertical axis.\<close>

theorem robot_moves_are_runs:
  assumes "-128 \<le> speed r" "speed r < 128"
  shows "let v = speed r; move = (\<lambda>x y z st. rbind (roc_robot_run r x y z) (\<lambda>ev. Inr (ev, r\<lparr>status := st\<rparr>))) in
    roc_robot_go_forward r = move 0 v 0 E_FORWARD \<and> roc_robot_go_backward r = move 0 (- v) 0 E_BACK \<and>
    roc_robot_turn_right r = move v 0 0 E_RIGHT \<and> roc_robot_turn_left r = move (- v) 0 0 E_LEFT \<and>
    roc_robot_turn_right_rotate r = move 0 0 v E_RIGHT_ROTATE \<and>
    roc_robot_turn_left_rotate r = move 0 0 (- v) E_LEFT_ROTATE \<and>
    roc_robot_stop r = move 0 0 0 E_STOP"
  using assms
  by (simp add: Let_def roc_robot_run_def s16_id roc_robot_go_forward_def roc_robot_go_backward_def
      roc_robot_turn_right_def roc_robot_turn_left_def roc_robot_turn_right_rotate_def
      roc_robot_turn_left_rotate_def roc_robot_stop_def)

theorem robot_moves_are_runs_witness:
  "roc_robot_turn_left sample_robot =
     rbind (roc_robot_run sample_robot (-50) 0 0) (\<lambda>ev. Inr (ev, sample_robot\<lparr>status := E_LEFT\<rparr>))"
  using robot_moves_are_runs [of sample_robot] by (simp add: sample_robot_def Let_def)

text \<open>The robot's reaction to a frame, over the function code and the data bytes.\<close>

definition frame_reaction ::
    "'d fops \<Rightarrow> ('d \<Rightarrow> 'd) \<Rightarrow> ('d \<Rightarrow> 'd) \<Rightarrow> u8 \<Rightarrow> u8 list \<Rightarrow> roc_robot \<Rightarrow> fault + hw_event list \<times> roc_robot" where
  "frame_reaction D dcos dsin fn data r =
     (if fn = E_ROBOT_CONTROL_DIRECTION then roc_robot_drive D dcos dsin r (be16 (data ! 0) (data ! 1))
      else if fn = E_ROBOT_CONTROL_SPEED then Inr ([], r\<lparr>speed := sint (data ! 0)\<rparr>)
      else if fn = E_BUTTON then
        (case map_of [(BT_PAD_UP, roc_robot_go_forward), (BT_PAD_DOWN, roc_robot_go_backward),
                      (BT_PAD_LEFT, roc_robot_turn_left), (BT_PAD_RIGHT, roc_robot_turn_right),
                      (BT_GREEN, roc_robot_turn_left_rotate), (BT_BLUE, roc_robot_turn_right_rotate)]
               (be16 (data ! 0) (data ! 1)) of
           None \<Rightarrow> Inr ([], r) | Some move \<Rightarrow> move r)
      else Inr ([], r))"

lemma s8_sint: "s8 (sint (b :: u8)) = sint b"
proof -
  have "-128 \<le> sint b" "sint b < 128"
    using sint_greater_eq [of b] sint_less [of b] by simp_all
  then show ?thesis by (rule s8_id)
qed

lemma wifi_dispatch_reaction:
  assumes "recv_set ps" "pr_function (package ps) = fn" "2 \<le> length data"
    "map (recv_data_at ps) [0..<length data] = map Inr data"
  shows "wifi_dispatch D dcos dsin ps r = frame_reaction D dcos dsin fn data r"
proof -
  have at: "recv_data_at ps i = Inr (data ! i)" if "i < length data" for i
    using arg_cong [OF assms(4), where f = "\<lambda>xs. xs ! i"] that by simp
  have at: "recv_data_at ps 0 = Inr (data ! 0)" "recv_data_at ps (Suc 0) = Inr (data ! Suc 0)"
    using assms(3) by (auto intro!: at)
  show ?thesis
    using assms(1,2) at
    by (simp add: wifi_dispatch_def frame_reaction_def protocol_get_function_def protocol_get_degree_def
        protocol_get_speed_def protocol_get_button_value_def with_recv_def roc_robot_set_speed_def s8_sint
        protocol_consts)
qed

text \<open>C1: End to end, when a frame with at least two data bytes has arrived in the ring buffer, one
  pass of the control loop does exactly what the frame says: it drives in the direction, sets the
  speed, or makes the move of the button, does nothing for any other code, takes the frame and
  nothing else from the buffer, and leaves the parser ready for the next frame.\<close>

theorem control_pass_obeys_frame:
  assumes "rb_inv rb" "rb_contents rb = noise @ frame_bytes (encode_body ty ad fn data) @ rest"
    "parser_ready ps" "PROTOCOL_START_CODE \<notin> set noise" "2 \<le> length data" "length data \<le> 120" "length data \<noteq> 79"
    "frame_reaction D dcos dsin fn data r = Inr (ev, r')"
  shows "\<exists>ps' rb'. wifi_control_pass D dcos dsin ps rb r = Some (Inr (ev, ps', rb', r')) \<and>
    parser_ready ps' \<and> \<not> m_recv_flag ps' \<and> rb_inv rb' \<and> rb_contents rb' = rest"
proof -
  obtain ps1 rb' ps2 where p: "protocol_recev_data ps rb = Some (Inr (True, ps1, rb'))" "rb_inv rb'"
    "rb_contents rb' = rest" "protocol_parser ps1 = Inr (True, ps2)" "protocol_get_function ps2 = Inr fn"
    "map (recv_data_at ps2) [0..<length data] = map Inr data"
    using frame_delivered [OF assms(1-4,6,7)] by auto
  from p(5) have f: "recv_set ps2" "pr_function (package ps2) = fn"
    by (auto simp: protocol_get_function_def with_recv_def split: if_splits)
  have "wifi_dispatch D dcos dsin ps2 r = Inr (ev, r')"
    by (simp only: wifi_dispatch_reaction [OF f assms(5) p(6)] assms(8))
  then have "wifi_control_pass D dcos dsin ps rb r = Some (Inr (ev, protocol_parser_reinit ps2, rb', r'))"
    by (simp add: wifi_control_pass_def p(1,4))
  moreover have "\<not> m_recv_flag (protocol_parser_reinit ps2)" by (simp add: protocol_parser_reinit_def)
  ultimately show ?thesis using p(2,3) by blast
qed

theorem control_pass_obeys_frame_witness:
  "\<exists>ev ps' rb' r'. wifi_control_pass rat_fops (\<lambda>x. x) (\<lambda>x. x) (protocol_parser_reinit parser_boot)
       (rb_of ([] @ frame_bytes (encode_body 0 0 E_BUTTON [0, 8]) @ [])) sample_robot = Some (Inr (ev, ps', rb', r')) \<and>
     status r' = E_FORWARD \<and> rb_contents rb' = []"
proof -
  have m: "be16 0 8 = BT_PAD_UP" by (simp add: be16_def BT_PAD_UP_def)
  obtain ev where ev: "set_motors sample_robot 500 500 500 500 = Inr ev"
    using set_motors_drive [OF sample_robot_wired [of 50], of 500 500 500 500] by (auto simp: sample_robot_def)
  have react: "frame_reaction rat_fops (\<lambda>x. x) (\<lambda>x. x) E_BUTTON [0, 8] sample_robot = Inr (ev, sample_robot\<lparr>status := E_FORWARD\<rparr>)"
    using ev by (simp add: frame_reaction_def m roc_robot_go_forward_def E_BUTTON_def
        E_ROBOT_CONTROL_DIRECTION_def E_ROBOT_CONTROL_SPEED_def) (simp add: sample_robot_def)
  have rb: "rb_inv (rb_of ([] @ frame_bytes (encode_body 0 0 E_BUTTON [0, 8]) @ []))"
    "rb_contents (rb_of ([] @ frame_bytes (encode_body 0 0 E_BUTTON [0, 8]) @ [])) =
      [] @ frame_bytes (encode_body 0 0 E_BUTTON [0, 8]) @ []"
    by (simp_all add: rb_of)
  from control_pass_obeys_frame [OF rb parser_ready_reinit _ _ _ _ react, of parser_boot] show ?thesis by fastforce
qed

lemma enc_of_Ab_Phase [simp]: "enc_of (Ab_Phase a) = ab_enc a"
  by (simp add: enc_of_def)

lemma enc_update_Ab_Phase [simp]: "enc_update f (Ab_Phase a) = Ab_Phase (a\<lparr>ab_enc := f (ab_enc a)\<rparr>)"
  by (simp add: enc_update_def)

lemma init_returns:
  assumes "\<And>k. mem k" "dev_find ''pwm4'' = Some d4" "dev_find ''pwm2'' = Some d2"
  shows "\<exists>ev r' c. roc_robot_init F mem dev_find pin_read now junk r = Inr (ev, r', c) \<and>
     r' = r\<lparr>left_forward_motor := Some \<lparr>pwm_dev = d4, channel = 1, pin1 = 60, pin2 = 29\<rparr>,
          left_backward_motor := Some \<lparr>pwm_dev = d4, channel = 3, pin1 = 96, pin2 = 67\<rparr>,
          right_forward_motor := Some \<lparr>pwm_dev = d2, channel = 1, pin1 = 24, pin2 = 17\<rparr>,
          right_backward_motor := Some \<lparr>pwm_dev = d2, channel = 3, pin1 = 48, pin2 = 33\<rparr>, status := E_STOP\<rparr> \<and>
     map w_motor (c_wheels c) = map (map_option Single_Pwm)
       [left_forward_motor r', left_backward_motor r', right_forward_motor r', right_backward_motor r'] \<and>
     c_kinematics c = \<lparr>k_base = MECANUM, length_x = flit F 0, length_y = flit F (13 / 100),
       wheel_radius = flit F (66 / 1000), total_wheels = 4\<rparr> \<and>
     map (\<lambda>w. map_option (\<lambda>k. (enable (ctl_of k), ctl_sample_time (ctl_of k))) (w_controller w)) (c_wheels c) =
       replicate 4 (Some (True, PID_SAMPLE_TIME)) \<and>
     map (\<lambda>w. map_option (\<lambda>e. (sample_time (enc_of e), pulse_count (enc_of e))) (w_encoder w)) (c_wheels c) =
       replicate 4 (Some (SAMPLE_TIME, 0)) \<and>
     [t. Delay_Ms t \<leftarrow> ev] = map (\<lambda>k. sample_time (j_enc junk k)) [0..<4]"
proof -
  have s0: "s16 0 = 0" by (simp add: s16_def)
  show ?thesis
    using assms(2,3)
    by (simp add: roc_robot_init_def Let_def assms(1) single_pwm_motor_create_def motor_create_def
        ab_phase_encoder_create_def encoder_create_def inc_pid_controller_create_def controller_create_def
        wheel_create_def kinematics_create_def roc_robot_stop_def set_motors_def single_pwm_motor_set_speed_def s0
        enable_wheel_array_def wheel_enable_def motor_enable_def single_pwm_motor_enable_def encoder_enable_def
        ab_phase_encoder_enable_def controller_enable_def ctl_update_def ctl_of_def encoder_set_sample_time_def
        controller_set_sample_time_def numeral_eq_Suc)
qed

text \<open>When every allocation succeeds and both timers are registered, \<open>roc_robot_init\<close> leaves four
  motors on lines of their own, the robot stopped, a mecanum chassis of the same four motors in
  the order left front, left back, right front, right back, its controllers enabled and all
  sample times set. But the encoders' sample times are set only after \<open>chassis_enable\<close>, which
  has waited for each wheel as long as the sample time in the fresh, uncleared block said.\<close>

theorem roc_robot_init_ready:
  assumes "\<And>k. mem k" "dev_find ''pwm4'' = Some d4" "dev_find ''pwm2'' = Some d2" "d4 \<noteq> d2"
  shows "\<exists>ev r' c lf lb rf rb. roc_robot_init F mem dev_find pin_read now junk r = Inr (ev, r', c) \<and>
     robot_wired r' lf lb rf rb \<and> status r' = E_STOP \<and> speed r' = speed r \<and>
     map w_motor (c_wheels c) = map (\<lambda>m. Some (Single_Pwm m)) [lf, lb, rf, rb] \<and>
     k_base (c_kinematics c) = MECANUM \<and> total_wheels (c_kinematics c) = 4 \<and>
     map (\<lambda>w. map_option (\<lambda>k. (enable (ctl_of k), ctl_sample_time (ctl_of k))) (w_controller w)) (c_wheels c) =
       replicate 4 (Some (True, PID_SAMPLE_TIME)) \<and>
     map (\<lambda>w. map_option (\<lambda>e. (sample_time (enc_of e), pulse_count (enc_of e))) (w_encoder w)) (c_wheels c) =
       replicate 4 (Some (SAMPLE_TIME, 0)) \<and>
     [t. Delay_Ms t \<leftarrow> ev] = map (\<lambda>k. sample_time (j_enc junk k)) [0..<4]"
proof -
  obtain ev r' c where i: "roc_robot_init F mem dev_find pin_read now junk r = Inr (ev, r', c)"
    and rest: "r' = r\<lparr>left_forward_motor := Some \<lparr>pwm_dev = d4, channel = 1, pin1 = 60, pin2 = 29\<rparr>,
          left_backward_motor := Some \<lparr>pwm_dev = d4, channel = 3, pin1 = 96, pin2 = 67\<rparr>,
          right_forward_motor := Some \<lparr>pwm_dev = d2, channel = 1, pin1 = 24, pin2 = 17\<rparr>,
          right_backward_motor := Some \<lparr>pwm_dev = d2, channel = 3, pin1 = 48, pin2 = 33\<rparr>, status := E_STOP\<rparr>"
      "map w_motor (c_wheels c) = map (map_option Single_Pwm)
       [left_forward_motor r', left_backward_motor r', right_forward_motor r', right_backward_motor r']"
      "c_kinematics c = \<lparr>k_base = MECANUM, length_x = flit F 0, length_y = flit F (13 / 100),
       wheel_radius = flit F (66 / 1000), total_wheels = 4\<rparr>"
      "map (\<lambda>w. map_option (\<lambda>k. (enable (ctl_of k), ctl_sample_time (ctl_of k))) (w_controller w)) (c_wheels c) =
       replicate 4 (Some (True, PID_SAMPLE_TIME))"
      "map (\<lambda>w. map_option (\<lambda>e. (sample_time (enc_of e), pulse_count (enc_of e))) (w_encoder w)) (c_wheels c) =
       replicate 4 (Some (SAMPLE_TIME, 0))"
      "[t. Delay_Ms t \<leftarrow> ev] = map (\<lambda>k. sample_time (j_enc junk k)) [0..<4]"
    using init_returns [where mem = mem, OF assms(1-3), of F pin_read now junk r] by blast
  have "robot_wired r' \<lparr>pwm_dev = d4, channel = 1, pin1 = 60, pin2 = 29\<rparr> \<lparr>pwm_dev = d4, channel = 3, pin1 = 96, pin2 = 67\<rparr>
      \<lparr>pwm_dev = d2, channel = 1, pin1 = 24, pin2 = 17\<rparr> \<lparr>pwm_dev = d2, channel = 3, pin1 = 48, pin2 = 33\<rparr>"
    using assms(4) by (simp add: robot_wired_def lines_apart_def rest(1))
  with i rest(4-6) show ?thesis
    by (intro exI conjI) (assumption | simp add: rest(1-3))+
qed

definition sample_junk :: "rat init_junk" where
  "sample_junk = \<lparr>j_enc = (\<lambda>_. sample_encoder), j_ctl = (\<lambda>_. fresh_controller), j_time = (\<lambda>_. 0), j_rpm = (\<lambda>_. 0),
     j_vel = \<lparr>linear_x = 0, linear_y = 0, angular_z = 0\<rparr>\<rparr>"

theorem roc_robot_init_ready_witness:
  "\<exists>ev r' c. roc_robot_init rat_fops (\<lambda>_. True) [''pwm4'' \<mapsto> 4, ''pwm2'' \<mapsto> 2] (\<lambda>_. 0) (\<lambda>_. 0) sample_junk sample_robot =
      Inr (ev, r', c) \<and> status r' = E_STOP"
  using roc_robot_init_ready [where mem = "\<lambda>_. True" and dev_find = "[''pwm4'' \<mapsto> 4, ''pwm2'' \<mapsto> 2]" and ?d4.0 = 4 and
      ?d2.0 = 2 and F = rat_fops and pin_read = "\<lambda>_. 0" and now = "\<lambda>_. 0" and junk = sample_junk and r = sample_robot]
  by auto

text \<open>A motor that could not be created is not noticed: \<open>roc_robot_init\<close> goes on with the null
  pointer and stops at the assertion of the first move, the \<open>roc_robot_stop\<close> it makes itself.\<close>

theorem roc_robot_init_missing_device:
  assumes "mem 0" "dev_find ''pwm4'' = None"
  shows "roc_robot_init F mem dev_find pin_read now junk r = Inl Assert_Fail"
  using assms
  by (simp add: roc_robot_init_def Let_def single_pwm_motor_create_def motor_create_def roc_robot_stop_def
      set_motors_def single_pwm_motor_set_speed_def split: prod.splits)

theorem roc_robot_init_missing_device_witness:
  "roc_robot_init rat_fops (\<lambda>_. True) [''pwm2'' \<mapsto> 2] (\<lambda>_. 0) (\<lambda>_. 0) sample_junk sample_robot = Inl Assert_Fail"
  using roc_robot_init_missing_device [of "\<lambda>_. True" "[''pwm2'' \<mapsto> 2]"] by simp



end
