(* ===== verification/Command_Ps2.thy ===== *)
theory Command_Ps2
  imports Hardware
begin

text \<open>
  Commands and the PS2 game pad: \<^verbatim>\<open>protocol/command.c\<close>, \<^verbatim>\<open>protocol/ps2.c\<close> and
  \<^verbatim>\<open>protocol/ps2_table.h\<close> of the robot package.

  \<^item> A command handler is a value of type \<open>'h\<close> (a function pointer, \<open>None\<close> when null); calling
    one is an entry in the list of calls an operation returns, with the command and the
    parameter.
  \<^item> The game pad is clocked bit by bit. \<open>di\<close> gives the level of the data line at each read,
    \<open>n\<close> is the number of reads so far.
\<close>

section \<open>The command table\<close>

definition TABLE_MAX_SIZE :: nat where "TABLE_MAX_SIZE = 32"

definition COMMAND_NONE :: int where "COMMAND_NONE = 0"
definition COMMAND_CAR_STOP :: int where "COMMAND_CAR_STOP = 1"
definition COMMAND_CAR_FORWARD :: int where "COMMAND_CAR_FORWARD = 2"
definition COMMAND_CAR_BACKWARD :: int where "COMMAND_CAR_BACKWARD = 3"
definition COMMAND_CAR_TURNLEFT :: int where "COMMAND_CAR_TURNLEFT = 4"
definition COMMAND_CAR_TURNRIGHT :: int where "COMMAND_CAR_TURNRIGHT = 5"

lemmas command_consts = COMMAND_NONE_def COMMAND_CAR_STOP_def COMMAND_CAR_FORWARD_def
  COMMAND_CAR_BACKWARD_def COMMAND_CAR_TURNLEFT_def COMMAND_CAR_TURNRIGHT_def

record 'h command =
  robot_cmd :: int
  handler :: "'h option"

record 'h command_state =
  command_table :: "'h command list"
  command_table_size :: u8

definition command_boot :: "'h command_state" where
  "command_boot = \<lparr>command_table = replicate TABLE_MAX_SIZE \<lparr>robot_cmd = 0, handler = None\<rparr>,
     command_table_size = 0\<rparr>"

definition command_register ::
    "'h command_state \<Rightarrow> int \<Rightarrow> 'h option \<Rightarrow> fault + int \<times> 'h command_state" where
  "command_register st cmd h =
     (let n = unat (command_table_size st)
      in if n > TABLE_MAX_SIZE - 1 then Inr (RT_ERROR, st)
         else rbind (wr (command_table st) n \<lparr>robot_cmd = cmd, handler = h\<rparr>) (\<lambda>t.
           Inr (RT_EOK, st\<lparr>command_table := t, command_table_size := command_table_size st + 1\<rparr>)))"

definition command_unregister :: "'h command_state \<Rightarrow> int \<Rightarrow> int" where
  "command_unregister st cmd = RT_EOK"

text \<open>The loop of \<open>command_handle\<close>, from entry \<open>i\<close> with \<open>k\<close> entries to go.\<close>

fun command_lookup ::
    "'h command list \<Rightarrow> nat \<Rightarrow> nat \<Rightarrow> int \<Rightarrow> 'p \<Rightarrow> fault + int \<times> ('h \<times> int \<times> 'p) list" where
  "command_lookup t i 0 cmd param = Inr (RT_ERROR, [])"
| "command_lookup t i (Suc k) cmd param =
     rbind (rd t i) (\<lambda>c.
       if robot_cmd c = cmd then
         (case handler c of None \<Rightarrow> Inl Null_Deref | Some h \<Rightarrow> Inr (RT_EOK, [(h, robot_cmd c, param)]))
       else command_lookup t (Suc i) k cmd param)"

definition command_handle ::
    "'h command_state \<Rightarrow> int \<Rightarrow> 'p \<Rightarrow> fault + int \<times> ('h \<times> int \<times> 'p) list" where
  "command_handle st cmd param =
     command_lookup (command_table st) 0 (unat (command_table_size st)) cmd param"

definition command_send :: "'h option \<Rightarrow> int \<Rightarrow> 'p \<Rightarrow> u16 \<Rightarrow> int \<times> ('h \<times> int \<times> 'p \<times> u16) list" where
  "command_send sender cmd param len =
     (RT_EOK, case sender of None \<Rightarrow> [] | Some h \<Rightarrow> [(h, cmd, param, len)])"

section \<open>The PS2 bus\<close>

datatype ps2_event = Cs bool | Clk bool | Do bool | Delay_16us

text \<open>
  \<open>_transfer\<close>: the mask \<open>i\<close> runs over the bits 0 to 7. \<open>k\<close> is the number of bits to go, \<open>j\<close> the
  bit number.
\<close>

fun ps2_transfer_loop ::
    "(nat \<Rightarrow> bool) \<Rightarrow> u8 \<Rightarrow> nat \<Rightarrow> nat \<Rightarrow> nat \<Rightarrow> u8 \<Rightarrow> ps2_event list \<times> nat \<times> u8" where
  "ps2_transfer_loop di data 0 j n temp = ([], n, temp)"
| "ps2_transfer_loop di data (Suc k) j n temp =
     (let i = push_bit j 1;
          temp = (if di n then i OR temp else temp);
          ev = [Do (i AND data \<noteq> 0), Clk True, Delay_16us, Clk False, Delay_16us, Clk True];
          (ev', n', temp') = ps2_transfer_loop di data k (Suc j) (Suc n) temp
      in (ev @ ev', n', temp'))"

definition ps2_transfer_byte :: "(nat \<Rightarrow> bool) \<Rightarrow> nat \<Rightarrow> u8 \<Rightarrow> ps2_event list \<times> nat \<times> u8" where
  "ps2_transfer_byte di n data = ps2_transfer_loop di data 8 0 n 0"

text \<open>\<open>transfer\<close>, called with the same array for sending and receiving.\<close>

fun ps2_transfer_bytes ::
    "(nat \<Rightarrow> bool) \<Rightarrow> nat \<Rightarrow> nat \<Rightarrow> nat \<Rightarrow> u8 list \<Rightarrow> ps2_event list \<times> nat \<times> u8 list" where
  "ps2_transfer_bytes di n i 0 pb = ([], n, pb)"
| "ps2_transfer_bytes di n i (Suc k) pb =
     (let (ev, n', b) = ps2_transfer_byte di n (pb ! i);
          (ev', n'', pb') = ps2_transfer_bytes di n' (Suc i) k (pb[i := b])
      in (ev @ ev', n'', pb'))"

definition ps2_transfer :: "(nat \<Rightarrow> bool) \<Rightarrow> nat \<Rightarrow> u8 list \<Rightarrow> ps2_event list \<times> nat \<times> u8 list" where
  "ps2_transfer di n pb =
     (let (ev, n', pb') = ps2_transfer_bytes di n 0 (length pb) pb
      in ([Cs False, Delay_16us] @ ev @ [Cs True, Delay_16us], n', pb'))"

section \<open>Scanning the pad\<close>

definition PS2_NO_MODE :: u8 where "PS2_NO_MODE = 0"
definition PS2_RED_MODE :: u8 where "PS2_RED_MODE = 0x73"

record ps2_ctrl_data =
  button :: u16
  left_stick_x :: u8
  left_stick_y :: u8
  right_stick_x :: u8
  right_stick_y :: u8

text \<open>The result flag, the data, the new \<open>light_mode\<close>, and the bus traffic.\<close>

definition ps2_scan :: "(nat \<Rightarrow> bool) \<Rightarrow> nat \<Rightarrow> (int \<times> ps2_ctrl_data \<times> u8) \<times> ps2_event list \<times> nat" where
  "ps2_scan di n =
     (let temp = (replicate 9 0)[0 := 0x01, 1 := 0x42, 3 := 0, 4 := 0];
          (ev, n', temp) = ps2_transfer di n temp;
          pt = \<lparr>button = ucast (temp ! 3) OR push_bit 8 (ucast (temp ! 4)),
                left_stick_x = temp ! 7, left_stick_y = temp ! 8,
                right_stick_x = temp ! 5, right_stick_y = temp ! 6\<rparr>
      in (if temp ! 2 = 0x5A then (1, pt, temp ! 1) else (0, pt, PS2_NO_MODE), ev, n'))"

definition ps2_read_light :: "u8 \<Rightarrow> int" where
  "ps2_read_light light_mode = uint light_mode"

record ps2_table =
  ps2_cmd :: u32
  standard_cmd :: int

definition PS2_DEFAULT_TABLE :: "ps2_table list" where
  "PS2_DEFAULT_TABLE =
     map (\<lambda>(p, c). \<lparr>ps2_cmd = p, standard_cmd = c\<rparr>)
       [(push_bit 0 1, COMMAND_CAR_STOP), (push_bit 1 1, COMMAND_NONE), (push_bit 2 1, COMMAND_NONE),
        (push_bit 3 1, COMMAND_NONE), (push_bit 4 1, COMMAND_CAR_FORWARD),
        (push_bit 5 1, COMMAND_CAR_TURNRIGHT), (push_bit 6 1, COMMAND_CAR_BACKWARD),
        (push_bit 7 1, COMMAND_CAR_TURNLEFT), (push_bit 8 1, COMMAND_NONE), (push_bit 9 1, COMMAND_NONE),
        (push_bit 10 1, COMMAND_NONE), (push_bit 11 1, COMMAND_NONE), (push_bit 12 1, COMMAND_NONE),
        (push_bit 13 1, COMMAND_NONE), (push_bit 14 1, COMMAND_NONE), (push_bit 15 1, COMMAND_NONE),
        (16, COMMAND_NONE), (17, COMMAND_NONE), (18, COMMAND_NONE), (19, COMMAND_NONE)]"

definition PS2_ROCKER_LX :: nat where "PS2_ROCKER_LX = 16"
definition PS2_ROCKER_LY :: nat where "PS2_ROCKER_LY = 17"
definition PS2_ROCKER_RX :: nat where "PS2_ROCKER_RX = 18"
definition PS2_ROCKER_RY :: nat where "PS2_ROCKER_RY = 19"

text \<open>The commands one pass of \<open>ps2_thread_entry\<close> sends, with their parameters.\<close>

definition ps2_pass :: "ps2_table list \<Rightarrow> ps2_ctrl_data \<Rightarrow> u8 \<Rightarrow> (int \<times> u8 option) list" where
  "ps2_pass table d light =
     [(standard_cmd e, None). e \<leftarrow> table, ucast (button d) AND ps2_cmd e = 0, standard_cmd e \<noteq> COMMAND_NONE]
     @ (if light = PS2_RED_MODE then
          [(standard_cmd (table ! i), Some v).
             (i, v) \<leftarrow> [(PS2_ROCKER_LX, left_stick_x d), (PS2_ROCKER_LY, left_stick_y d),
                       (PS2_ROCKER_RX, right_stick_x d), (PS2_ROCKER_RY, right_stick_y d)],
             standard_cmd (table ! i) \<noteq> COMMAND_NONE]
        else [])"

text \<open>A pass after the delay: the pad is scanned, the result of the scan is not looked at.\<close>

definition ps2_thread_pass ::
    "ps2_table list \<Rightarrow> (nat \<Rightarrow> bool) \<Rightarrow> nat \<Rightarrow> (int \<times> u8 option) list \<times> u8 \<times> nat" where
  "ps2_thread_pass table di n =
     (case ps2_scan di n of ((r, d, light), ev, n') \<Rightarrow> (ps2_pass table d light, light, n'))"

section \<open>The table as a map\<close>

definition cmd_inv :: "'h command_state \<Rightarrow> bool" where
  "cmd_inv st \<longleftrightarrow> length (command_table st) = TABLE_MAX_SIZE \<and> unat (command_table_size st) \<le> TABLE_MAX_SIZE"

definition cmd_map :: "'h command_state \<Rightarrow> (int \<times> 'h option) list" where
  "cmd_map st = map (\<lambda>c. (robot_cmd c, handler c)) (take (unat (command_table_size st)) (command_table st))"

lemma cmd_boot: "cmd_inv command_boot" "cmd_map command_boot = []"
  by (simp_all add: cmd_inv_def cmd_map_def command_boot_def)

lemma command_lookup_eq:
  "i + k \<le> length t \<Longrightarrow>
   command_lookup t i k cmd param =
     (case map_of (map (\<lambda>c. (robot_cmd c, handler c)) (take k (drop i t))) cmd of
        None \<Rightarrow> Inr (RT_ERROR, [])
      | Some None \<Rightarrow> Inl Null_Deref
      | Some (Some h) \<Rightarrow> Inr (RT_EOK, [(h, cmd, param)]))"
proof (induction k arbitrary: i)
  case 0
  then show ?case by simp
next
  case (Suc k)
  then have "drop i t = t ! i # drop (Suc i) t" by (simp add: Cons_nth_drop_Suc)
  with Suc show ?case by (simp split: option.split)
qed

lemma command_register_eq:
  assumes "cmd_inv st"
  shows "\<exists>st'. command_register st cmd h =
      Inr (if length (cmd_map st) < TABLE_MAX_SIZE then RT_EOK else RT_ERROR, st') \<and> cmd_inv st' \<and>
      cmd_map st' = (if length (cmd_map st) < TABLE_MAX_SIZE then cmd_map st @ [(cmd, h)] else cmd_map st)"
proof -
  let ?n = "unat (command_table_size st)"
  have len: "length (cmd_map st) = ?n" "length (command_table st) = 32" "?n \<le> 32"
    using assms by (simp_all add: cmd_map_def cmd_inv_def TABLE_MAX_SIZE_def)
  show ?thesis
  proof (cases "?n < 32")
    case True
    then have "unat (command_table_size st + 1) = ?n + 1" by (simp add: unat_word_ariths)
    with True len show ?thesis
      by (simp add: command_register_def TABLE_MAX_SIZE_def cmd_inv_def cmd_map_def take_Suc_update)
  next
    case False
    with len assms show ?thesis by (simp add: command_register_def TABLE_MAX_SIZE_def)
  qed
qed

fun register_all :: "'h command_state \<Rightarrow> (int \<times> 'h option) list \<Rightarrow> fault + 'h command_state" where
  "register_all st [] = Inr st"
| "register_all st ((c, h) # cs) = rbind (command_register st c h) (\<lambda>(r, st'). register_all st' cs)"

lemma register_all_eq:
  "cmd_inv st \<Longrightarrow> \<exists>st'. register_all st cs = Inr st' \<and> cmd_inv st' \<and>
     cmd_map st' = take TABLE_MAX_SIZE (cmd_map st @ cs)"
proof (induction cs arbitrary: st)
  case Nil
  then show ?case by (auto simp: cmd_map_def cmd_inv_def)
next
  case (Cons p cs)
  obtain c h where p: "p = (c, h)" by (cases p)
  from command_register_eq [OF Cons.prems, of c h] obtain r st1 where
    st1: "command_register st c h = Inr (r, st1)" "cmd_inv st1"
      "cmd_map st1 = (if length (cmd_map st) < TABLE_MAX_SIZE then cmd_map st @ [(c, h)] else cmd_map st)" by blast
  from Cons.IH [OF st1(2)] st1 show ?case by (auto simp: p take_Cons')
qed

section \<open>Properties\<close>

text \<open>The command table refines a finite map: after any registrations in a row, the first 32
  are kept and the others refused, and \<open>command_handle\<close> calls the handler that was registered
  first for the command, with the parameter, or reports an error when there is none.\<close>

theorem command_table_is_map:
  shows "\<exists>st. register_all command_boot cs = Inr st \<and>
    command_handle st cmd param =
      (case map_of (take TABLE_MAX_SIZE cs) cmd of
         None \<Rightarrow> Inr (RT_ERROR, [])
       | Some None \<Rightarrow> Inl Null_Deref
       | Some (Some h) \<Rightarrow> Inr (RT_EOK, [(h, cmd, param)]))"
proof -
  obtain st where st: "register_all command_boot cs = Inr st" "cmd_inv st" "cmd_map st = take TABLE_MAX_SIZE cs"
    using register_all_eq [OF cmd_boot(1), of cs] by (auto simp: cmd_boot(2))
  have "command_handle st cmd param = (case map_of (cmd_map st) cmd of
         None \<Rightarrow> Inr (RT_ERROR, []) | Some None \<Rightarrow> Inl Null_Deref | Some (Some h) \<Rightarrow> Inr (RT_EOK, [(h, cmd, param)]))"
    using st(2) by (simp add: command_handle_def command_lookup_eq cmd_inv_def cmd_map_def)
  with st show ?thesis by auto
qed

text \<open>What the eight reads of a byte make of the received bits, and the bits that are sent.\<close>

lemma transfer_loop_bits:
  "j + k \<le> 8 \<Longrightarrow> ps2_transfer_loop di data k j n temp = (ev, n', temp') \<Longrightarrow>
   n' = n + k \<and> [b. Do b \<leftarrow> ev] = map (bit data) [j..<j + k] \<and>
   (\<forall>b. bit temp' b \<longleftrightarrow> bit temp b \<or> j \<le> b \<and> b < j + k \<and> di (n + (b - j)))"
proof (induction k arbitrary: j n temp ev)
  case 0
  then show ?case by auto
next
  case (Suc k)
  let ?temp = "if di n then 2 ^ j OR temp else temp"
  obtain ev2 where e: "ps2_transfer_loop di data k (Suc j) (Suc n) ?temp = (ev2, n', temp')"
    "ev = [Do (2 ^ j AND data \<noteq> 0), Clk True, Delay_16us, Clk False, Delay_16us, Clk True] @ ev2"
    using Suc.prems(2) by (auto simp: Let_def split: prod.splits)
  have j: "j < 8" using Suc.prems(1) by simp
  have m: "2 ^ j AND data \<noteq> 0 \<longleftrightarrow> bit data j"
    by (metis and.commute and_exp_eq_0_iff_not_bit)
  have t: "bit ?temp b \<longleftrightarrow> bit temp b \<or> b = j \<and> di n" for b
    using j by (auto simp: bit_simps)
  have "Suc j + k \<le> 8" using Suc.prems(1) by simp
  note IH = Suc.IH [OF this e(1)]
  have "[j..<j + Suc k] = j # [Suc j..<Suc j + k]" by (simp add: upt_rec)
  moreover have "bit temp' b \<longleftrightarrow> bit temp b \<or> j \<le> b \<and> b < j + Suc k \<and> di (n + (b - j))" for b
  proof -
    have "bit temp' b \<longleftrightarrow> (bit temp b \<or> b = j \<and> di n) \<or> Suc j \<le> b \<and> b < Suc j + k \<and> di (Suc n + (b - Suc j))"
      using IH unfolding t by blast
    moreover have "Suc j \<le> b \<Longrightarrow> Suc n + (b - Suc j) = n + (b - j)" by simp
    ultimately show ?thesis by (cases "b = j") auto
  qed
  ultimately show ?case using IH m by (simp add: e(2))
qed

text \<open>C32: The bit-banged transfer of the game pad is a full-duplex shift, low bit first: the bits
  put on the data line are those of the byte, in order, and the bits read from the other line,
  in order, are those of the result.\<close>

theorem ps2_transfer_byte_shifts:
  shows "case ps2_transfer_byte di n data of (ev, n', recv) \<Rightarrow>
    n' = n + 8 \<and> [b. Do b \<leftarrow> ev] = map (bit data) [0..<8] \<and> map (bit recv) [0..<8] = map (\<lambda>k. di (n + k)) [0..<8]"
proof -
  obtain ev n' recv where t: "ps2_transfer_loop di data 8 0 n 0 = (ev, n', recv)"
    by (cases "ps2_transfer_loop di data 8 0 n 0")
  from transfer_loop_bits [OF _ t] show ?thesis by (simp add: ps2_transfer_byte_def t)
qed

lemma button_bit:
  "k < 16 \<Longrightarrow> ucast (b :: u16) AND (2 ^ k :: u32) = 0 \<longleftrightarrow> \<not> bit b k"
  by (simp add: and_exp_eq_0_iff_not_bit bit_simps)

lemma button_bits:
  "ucast (b :: u16) AND (1 :: u32) = 0 \<longleftrightarrow> \<not> bit b 0"
  "ucast (b :: u16) AND (16 :: u32) = 0 \<longleftrightarrow> \<not> bit b 4"
  "ucast (b :: u16) AND (32 :: u32) = 0 \<longleftrightarrow> \<not> bit b 5"
  "ucast (b :: u16) AND (64 :: u32) = 0 \<longleftrightarrow> \<not> bit b 6"
  "ucast (b :: u16) AND (128 :: u32) = 0 \<longleftrightarrow> \<not> bit b 7"
  using button_bit [of 0 b] button_bit [of 4 b] button_bit [of 5 b] button_bit [of 6 b] button_bit [of 7 b]
  by simp_all

lemma default_table_keys:
  "[(standard_cmd e, None). e \<leftarrow> PS2_DEFAULT_TABLE, ucast (button d) AND ps2_cmd e = 0, standard_cmd e \<noteq> COMMAND_NONE] =
   [(c, None). (k, c) \<leftarrow> [(0, COMMAND_CAR_STOP), (4, COMMAND_CAR_FORWARD), (5, COMMAND_CAR_TURNRIGHT),
      (6, COMMAND_CAR_BACKWARD), (7, COMMAND_CAR_TURNLEFT)], \<not> bit (button d) k]"
  unfolding PS2_DEFAULT_TABLE_def command_consts by (simp add: button_bits cong: if_weak_cong)

lemma default_table_rockers:
  "standard_cmd (PS2_DEFAULT_TABLE ! PS2_ROCKER_LX) = COMMAND_NONE"
  "standard_cmd (PS2_DEFAULT_TABLE ! PS2_ROCKER_LY) = COMMAND_NONE"
  "standard_cmd (PS2_DEFAULT_TABLE ! PS2_ROCKER_RX) = COMMAND_NONE"
  "standard_cmd (PS2_DEFAULT_TABLE ! PS2_ROCKER_RY) = COMMAND_NONE"
  unfolding PS2_DEFAULT_TABLE_def
  by (simp_all add: command_consts PS2_ROCKER_LX_def PS2_ROCKER_LY_def PS2_ROCKER_RX_def PS2_ROCKER_RY_def)

text \<open>With the default table, a pass sends, in this order, STOP, FORWARD, TURNRIGHT, BACKWARD and
  TURNLEFT for exactly the keys SELECT, UP, RIGHT, DOWN and LEFT whose bits are clear, that is,
  which are pressed, with a null parameter; the other keys and the sticks send nothing.\<close>

theorem ps2_pass_keys:
  shows "ps2_pass PS2_DEFAULT_TABLE d light =
    [(c, None). (k, c) \<leftarrow> [(0, COMMAND_CAR_STOP), (4, COMMAND_CAR_FORWARD), (5, COMMAND_CAR_TURNRIGHT),
       (6, COMMAND_CAR_BACKWARD), (7, COMMAND_CAR_TURNLEFT)], \<not> bit (button d) k]"
  unfolding ps2_pass_def default_table_keys by (simp add: default_table_rockers)

text \<open>Nothing is connected and the data line reads low.\<close>

lemma transfer_bytes_low:
  "i + k \<le> length pb \<Longrightarrow>
   \<exists>ev n'. ps2_transfer_bytes (\<lambda>_. False) n i k pb = (ev, n', take i pb @ replicate k 0 @ drop (i + k) pb)"
proof (induction k arbitrary: n i pb)
  case 0
  then show ?case by simp
next
  case (Suc k)
  obtain ev n' recv where t: "ps2_transfer_loop (\<lambda>_. False) (pb ! i) 8 0 n 0 = (ev, n', recv)"
    by (cases "ps2_transfer_loop (\<lambda>_. False) (pb ! i) 8 0 n 0")
  have "recv = 0" using transfer_loop_bits [OF _ t] by (intro bit_word_eqI) simp
  moreover have "take (Suc i) (pb[i := 0]) @ replicate k 0 @ drop (Suc i + k) (pb[i := 0]) =
      take i pb @ replicate (Suc k) 0 @ drop (i + Suc k) pb"
    using Suc.prems by (simp add: take_Suc_update)
  ultimately show ?case
    using Suc.IH [of "Suc i" "pb[i := 0]" n'] Suc.prems
    by (auto simp: ps2_transfer_byte_def t split: prod.splits)
qed

text \<open>The result of the scan is not looked at: with no game pad connected and the data line low,
  every key counts as pressed, and each pass sends all five commands.\<close>

theorem ps2_disconnected_sends_all:
  shows "fst (ps2_thread_pass PS2_DEFAULT_TABLE (\<lambda>_. False) n) =
    [(COMMAND_CAR_STOP, None), (COMMAND_CAR_FORWARD, None), (COMMAND_CAR_TURNRIGHT, None),
     (COMMAND_CAR_BACKWARD, None), (COMMAND_CAR_TURNLEFT, None)] \<and>
    fst (fst (ps2_scan (\<lambda>_. False) n)) = 0"
proof -
  obtain ev n' where "ps2_transfer_bytes (\<lambda>_. False) n 0 9 ((replicate 9 0)[0 := 0x01, 1 := 0x42, 3 := 0, 4 := 0])
      = (ev, n', replicate 9 0)"
    using transfer_bytes_low [of 0 9 "(replicate 9 0)[0 := 0x01, 1 := 0x42, 3 := 0, 4 := 0]" n] by auto
  then show ?thesis
    by (simp add: ps2_thread_pass_def ps2_scan_def ps2_transfer_def Let_def ps2_pass_keys)
qed

end
