(* ===== verification/Scheduler.thy ===== *)
theory Scheduler
  imports Prelude
begin

text \<open>
  The thread scheduler of the kernel, \<^verbatim>\<open>rt-thread/src/scheduler.c\<close>, in the configuration
  of the application (one core, 32 priorities, no signals), with the first-bit search of
  \<^verbatim>\<open>rt-thread/src/kservice.c\<close>.

  \<^item> \<open>kernel\<close> is the state of the whole kernel model: the thread control blocks, the lists the
    threads are linked in, the ready bitmap, the current thread, the lock and interrupt nesting,
    the tick and the timers. The components built on it use their fields of it.
  \<^item> The intrusive lists (\<open>tlist\<close>) are the map \<open>lists\<close> from list heads to the threads linked
    there, in order. A thread has one link, so \<open>rt_list_remove\<close>, which takes a thread out of
    whatever list it is in, is \<open>unlink\<close>.
  \<^item> The low four bits of \<open>stat\<close> are the datatype \<open>thread_stat\<close>; the others belong to signals,
    which are not configured, and are never set.
  \<^item> Every function here runs with interrupts off, so it is one step. A context switch is the
    change of \<open>cur\<close>.
\<close>

section \<open>State\<close>

type_synonym tid = nat

definition RT_THREAD_PRIORITY_MAX :: nat where "RT_THREAD_PRIORITY_MAX = 32"

datatype thread_stat = RT_THREAD_INIT | RT_THREAD_READY | RT_THREAD_SUSPEND | RT_THREAD_RUNNING | RT_THREAD_CLOSE

record rt_thread =
  stat :: thread_stat
  current_priority :: nat
  init_priority :: nat
  number_mask :: u32
  error :: int
  event_set :: u32
  event_info :: u8
  init_tick :: u32
  remaining_tick :: u32
  is_system :: bool
  has_cleanup :: bool

text \<open>List heads: a ready queue, the suspended threads of an object, its blocked senders, the
  defunct threads.\<close>

datatype list_head = Ready_Queue nat | Suspend_List nat | Sender_List nat | Defunct_List

text \<open>A timer belongs to a thread or is an object of its own.\<close>

datatype timer_id = Thread_Timer tid | Obj_Timer nat

record rt_timer =
  activated :: bool
  periodic :: bool
  tm_init_tick :: u32
  timeout_tick :: u32

record kernel =
  threads :: "tid \<Rightarrow> rt_thread"
  lists :: "list_head \<Rightarrow> tid list"
  rt_thread_ready_priority_group :: u32
  cur :: "tid option"
  rt_current_priority :: nat
  rt_scheduler_lock_nest :: int
  rt_interrupt_nest :: u8
  rt_tick :: u32
  timers :: "timer_id \<Rightarrow> rt_timer"
  rt_timer_list :: "timer_id list"

section \<open>Lists and control blocks\<close>

definition thr_upd :: "tid \<Rightarrow> (rt_thread \<Rightarrow> rt_thread) \<Rightarrow> kernel \<Rightarrow> kernel" where
  "thr_upd t f s = s\<lparr>threads := (threads s)(t := f (threads s t))\<rparr>"

definition unlink :: "tid \<Rightarrow> kernel \<Rightarrow> kernel" where
  "unlink t s = s\<lparr>lists := (\<lambda>l. removeAll t (lists s l))\<rparr>"

definition link_last :: "list_head \<Rightarrow> tid \<Rightarrow> kernel \<Rightarrow> kernel" where
  "link_last l t s = s\<lparr>lists := (lists s)(l := lists s l @ [t])\<rparr>"

definition link_first :: "list_head \<Rightarrow> tid \<Rightarrow> kernel \<Rightarrow> kernel" where
  "link_first l t s = s\<lparr>lists := (lists s)(l := t # lists s l)\<rparr>"

abbreviation prio :: "kernel \<Rightarrow> tid \<Rightarrow> nat" where
  "prio s t \<equiv> current_priority (threads s t)"

abbreviation stat_of :: "kernel \<Rightarrow> tid \<Rightarrow> thread_stat" where
  "stat_of s t \<equiv> stat (threads s t)"

section \<open>Finding the first bit\<close>

definition lowest_bit_bitmap :: "nat list" where
  "lowest_bit_bitmap =
    [0, 0, 1, 0, 2, 0, 1, 0, 3, 0, 1, 0, 2, 0, 1, 0, 4, 0, 1, 0, 2, 0, 1, 0, 3, 0, 1, 0, 2, 0, 1, 0,
     5, 0, 1, 0, 2, 0, 1, 0, 3, 0, 1, 0, 2, 0, 1, 0, 4, 0, 1, 0, 2, 0, 1, 0, 3, 0, 1, 0, 2, 0, 1, 0,
     6, 0, 1, 0, 2, 0, 1, 0, 3, 0, 1, 0, 2, 0, 1, 0, 4, 0, 1, 0, 2, 0, 1, 0, 3, 0, 1, 0, 2, 0, 1, 0,
     5, 0, 1, 0, 2, 0, 1, 0, 3, 0, 1, 0, 2, 0, 1, 0, 4, 0, 1, 0, 2, 0, 1, 0, 3, 0, 1, 0, 2, 0, 1, 0,
     7, 0, 1, 0, 2, 0, 1, 0, 3, 0, 1, 0, 2, 0, 1, 0, 4, 0, 1, 0, 2, 0, 1, 0, 3, 0, 1, 0, 2, 0, 1, 0,
     5, 0, 1, 0, 2, 0, 1, 0, 3, 0, 1, 0, 2, 0, 1, 0, 4, 0, 1, 0, 2, 0, 1, 0, 3, 0, 1, 0, 2, 0, 1, 0,
     6, 0, 1, 0, 2, 0, 1, 0, 3, 0, 1, 0, 2, 0, 1, 0, 4, 0, 1, 0, 2, 0, 1, 0, 3, 0, 1, 0, 2, 0, 1, 0,
     5, 0, 1, 0, 2, 0, 1, 0, 3, 0, 1, 0, 2, 0, 1, 0, 4, 0, 1, 0, 2, 0, 1, 0, 3, 0, 1, 0, 2, 0, 1, 0]"

text \<open>The argument is the 32 bits of the \<open>int\<close>; the mask of the last line makes it unsigned.\<close>

definition rt_ffs :: "u32 \<Rightarrow> nat" where
  "rt_ffs value =
     (if value = 0 then 0
      else if value AND 0xff \<noteq> 0 then lowest_bit_bitmap ! unat (value AND 0xff) + 1
      else if value AND 0xff00 \<noteq> 0 then lowest_bit_bitmap ! unat (drop_bit 8 (value AND 0xff00)) + 9
      else if value AND 0xff0000 \<noteq> 0 then lowest_bit_bitmap ! unat (drop_bit 16 (value AND 0xff0000)) + 17
      else lowest_bit_bitmap ! unat (drop_bit 24 (value AND 0xff000000)) + 25)"

section \<open>Ready queue\<close>

definition rt_schedule_insert_thread :: "tid \<Rightarrow> kernel \<Rightarrow> kernel" where
  "rt_schedule_insert_thread t s =
     (if cur s = Some t then thr_upd t (\<lambda>r. r\<lparr>stat := RT_THREAD_RUNNING\<rparr>) s
      else
        let s = thr_upd t (\<lambda>r. r\<lparr>stat := RT_THREAD_READY\<rparr>) s;
            s = link_last (Ready_Queue (prio s t)) t s
        in s\<lparr>rt_thread_ready_priority_group :=
               rt_thread_ready_priority_group s OR number_mask (threads s t)\<rparr>)"

definition rt_schedule_remove_thread :: "tid \<Rightarrow> kernel \<Rightarrow> kernel" where
  "rt_schedule_remove_thread t s =
     (let s = unlink t s
      in if lists s (Ready_Queue (prio s t)) = []
         then s\<lparr>rt_thread_ready_priority_group :=
                  rt_thread_ready_priority_group s AND NOT (number_mask (threads s t))\<rparr>
         else s)"

definition get_highest_priority_thread :: "kernel \<Rightarrow> tid \<times> nat" where
  "get_highest_priority_thread s =
     (let highest = rt_ffs (rt_thread_ready_priority_group s) - 1
      in (hd (lists s (Ready_Queue highest)), highest))"

definition rt_system_scheduler_init :: "kernel \<Rightarrow> kernel" where
  "rt_system_scheduler_init s =
     s\<lparr>rt_scheduler_lock_nest := 0,
       lists := (\<lambda>l. case l of Ready_Queue p \<Rightarrow> [] | Defunct_List \<Rightarrow> [] | _ \<Rightarrow> lists s l),
       rt_thread_ready_priority_group := 0\<rparr>"

definition rt_system_scheduler_start :: "kernel \<Rightarrow> kernel" where
  "rt_system_scheduler_start s =
     (let (to_thread, highest) = get_highest_priority_thread s;
          s = s\<lparr>cur := Some to_thread\<rparr>;
          s = rt_schedule_remove_thread to_thread s
      in thr_upd to_thread (\<lambda>r. r\<lparr>stat := RT_THREAD_RUNNING\<rparr>) s)"

text \<open>\<open>rt_schedule\<close> with the current thread \<open>c\<close>, once the scheduler is found unlocked.\<close>

definition schedule_from :: "tid \<Rightarrow> kernel \<Rightarrow> kernel" where
  "schedule_from c s =
     (if rt_thread_ready_priority_group s \<noteq> 0 then
        let (to_thread, highest) = get_highest_priority_thread s;
            running = (stat_of s c = RT_THREAD_RUNNING);
            stay = (running \<and> prio s c < highest);
            need_insert_from_thread = (running \<and> \<not> stay);
            to_thread = (if stay then c else to_thread)
        in if to_thread \<noteq> c then
             let s = s\<lparr>rt_current_priority := highest, cur := Some to_thread\<rparr>;
                 s = (if need_insert_from_thread then rt_schedule_insert_thread c s else s);
                 s = rt_schedule_remove_thread to_thread s
             in thr_upd to_thread (\<lambda>r. r\<lparr>stat := RT_THREAD_RUNNING\<rparr>) s
           else
             let s = rt_schedule_remove_thread c s
             in thr_upd c (\<lambda>r. r\<lparr>stat := RT_THREAD_RUNNING\<rparr>) s
      else s)"

definition rt_schedule :: "kernel \<Rightarrow> fault + kernel" where
  "rt_schedule s =
     (if rt_scheduler_lock_nest s = 0 \<and> rt_thread_ready_priority_group s \<noteq> 0 then
        (case cur s of None \<Rightarrow> Inl Null_Deref | Some c \<Rightarrow> Inr (schedule_from c s))
      else Inr s)"

definition rt_enter_critical :: "kernel \<Rightarrow> kernel" where
  "rt_enter_critical s = s\<lparr>rt_scheduler_lock_nest := s16 (rt_scheduler_lock_nest s + 1)\<rparr>"

definition rt_exit_critical :: "kernel \<Rightarrow> fault + kernel" where
  "rt_exit_critical s =
     (let s = s\<lparr>rt_scheduler_lock_nest := s16 (rt_scheduler_lock_nest s - 1)\<rparr>
      in if rt_scheduler_lock_nest s \<le> 0 then rt_schedule (s\<lparr>rt_scheduler_lock_nest := 0\<rparr>) else Inr s)"

definition rt_critical_level :: "kernel \<Rightarrow> u16" where
  "rt_critical_level s = word_of_int (rt_scheduler_lock_nest s)"

definition rt_thread_self :: "kernel \<Rightarrow> tid option" where
  "rt_thread_self s = cur s"

section \<open>The first bit\<close>

text \<open>The table holds the number of trailing zeros of every byte.\<close>

fun zeros_table :: "nat \<Rightarrow> nat list \<Rightarrow> bool" where
  "zeros_table b [] = True"
| "zeros_table b (v # vs) \<longleftrightarrow> b mod 2 ^ (v + 1) = 2 ^ v \<and> v < 8 \<and> zeros_table (b + 1) vs"

lemma zeros_table_nth:
  "zeros_table b vs \<Longrightarrow> i < length vs \<Longrightarrow> (b + i) mod 2 ^ (vs ! i + 1) = 2 ^ (vs ! i) \<and> vs ! i < 8"
proof (induction vs arbitrary: b i)
  case (Cons v vs)
  then show ?case by (cases i) (use Cons.IH [of "b + 1"] in \<open>auto simp: add.assoc\<close>)
qed simp

lemma lowest_bit_table_zeros: "zeros_table 1 (tl lowest_bit_bitmap)"
  by (simp add: lowest_bit_bitmap_def del: One_nat_def)

lemma lowest_bit_table:
  assumes "b \<noteq> 0" "b < 256"
  shows "lowest_bit_bitmap ! b < 8" "bit b (lowest_bit_bitmap ! b)" "k < lowest_bit_bitmap ! b \<Longrightarrow> \<not> bit b k"
proof -
  obtain c where c: "b = Suc c" using assms(1) by (cases b) simp_all
  let ?v = "lowest_bit_bitmap ! b"
  have len: "length (tl lowest_bit_bitmap) = 255" by (simp add: lowest_bit_bitmap_def)
  then have "tl lowest_bit_bitmap ! c = ?v" using c assms(2) by (simp add: nth_tl)
  then have v: "b mod 2 ^ (?v + 1) = 2 ^ ?v" "?v < 8"
    using zeros_table_nth [OF lowest_bit_table_zeros, of c] len c assms(2) by simp_all
  then have t: "take_bit (?v + 1) b = 2 ^ ?v" by (simp add: take_bit_eq_mod)
  have "bit b k \<longleftrightarrow> k = ?v" if "k \<le> ?v" for k
  proof -
    have "bit b k \<longleftrightarrow> bit (take_bit (?v + 1) b) k" using that by (simp add: bit_take_bit_iff)
    then show ?thesis unfolding t by (simp add: bit_exp_iff)
  qed
  then show "?v < 8" "bit b ?v" "k < ?v \<Longrightarrow> \<not> bit b k" using v(2) by auto
qed

text \<open>The byte at bit \<open>m\<close> of a word.\<close>

lemma byte_bits:
  fixes w :: u32
  assumes "m + 8 \<le> 32"
  shows "bit (unat (take_bit 8 (drop_bit m w))) k \<longleftrightarrow> k < 8 \<and> bit w (m + k)"
    "unat (take_bit 8 (drop_bit m w)) < 256"
    "unat (take_bit 8 (drop_bit m w)) = 0 \<longleftrightarrow> (\<forall>k. m \<le> k \<and> k < m + 8 \<longrightarrow> \<not> bit w k)"
proof -
  show b: "bit (unat (take_bit 8 (drop_bit m w))) k \<longleftrightarrow> k < 8 \<and> bit w (m + k)" for k
    by (auto simp: bit_unsigned_iff bit_simps)
  show "unat (take_bit 8 (drop_bit m w)) < 256"
    by (simp only: unsigned_take_bit_eq) (simp add: take_bit_eq_mod)
  show "unat (take_bit 8 (drop_bit m w)) = 0 \<longleftrightarrow> (\<forall>k. m \<le> k \<and> k < m + 8 \<longrightarrow> \<not> bit w k)"
  proof
    assume z: "unat (take_bit 8 (drop_bit m w)) = 0"
    show "\<forall>k. m \<le> k \<and> k < m + 8 \<longrightarrow> \<not> bit w k"
    proof (intro allI impI)
      fix k assume "m \<le> k \<and> k < m + 8"
      then show "\<not> bit w k" using b [of "k - m"] z by auto
    qed
  next
    assume "\<forall>k. m \<le> k \<and> k < m + 8 \<longrightarrow> \<not> bit w k"
    then show "unat (take_bit 8 (drop_bit m w)) = 0"
      by (intro bit_eqI) (auto simp: b)
  qed
qed

lemma byte_lowest:
  fixes w :: u32
  assumes "m + 8 \<le> 32" "\<forall>k < m. \<not> bit w k" "unat (take_bit 8 (drop_bit m w)) \<noteq> 0"
  shows "bit w (lowest_bit_bitmap ! unat (take_bit 8 (drop_bit m w)) + m)"
    "k < lowest_bit_bitmap ! unat (take_bit 8 (drop_bit m w)) + m \<Longrightarrow> \<not> bit w k"
proof -
  let ?b = "unat (take_bit 8 (drop_bit m w))"
  note t = lowest_bit_table [OF assms(3) byte_bits(2) [OF assms(1)]]
  show "bit w (lowest_bit_bitmap ! ?b + m)"
    using t(2) byte_bits(1) [OF assms(1), of w] by (simp add: add.commute)
  show "\<not> bit w k" if "k < lowest_bit_bitmap ! ?b + m"
  proof (cases "k < m")
    case True
    then show ?thesis using assms(2) by simp
  next
    case False
    then have "k - m < lowest_bit_bitmap ! ?b" "m + (k - m) = k" using that by simp_all
    then show ?thesis using t(1) t(3) [of "k - m"] byte_bits(1) [OF assms(1), of w "k - m"] by simp
  qed
qed

lemma rt_ffs_bytes:
  "rt_ffs w =
     (if w = 0 then 0
      else if unat (take_bit 8 (drop_bit 0 w)) \<noteq> 0 then lowest_bit_bitmap ! unat (take_bit 8 (drop_bit 0 w)) + 1
      else if unat (take_bit 8 (drop_bit 8 w)) \<noteq> 0 then lowest_bit_bitmap ! unat (take_bit 8 (drop_bit 8 w)) + 9
      else if unat (take_bit 8 (drop_bit 16 w)) \<noteq> 0 then lowest_bit_bitmap ! unat (take_bit 8 (drop_bit 16 w)) + 17
      else lowest_bit_bitmap ! unat (take_bit 8 (drop_bit 24 w)) + 25)"
proof -
  have b: "w AND push_bit m (mask 8) = push_bit m (take_bit 8 (drop_bit m w))" if "m + 8 \<le> 32" for m
    using that by (auto intro!: bit_word_eqI simp: bit_simps)
  have d: "drop_bit m (push_bit m (take_bit 8 (drop_bit m w))) = take_bit 8 (drop_bit m w)" if "m + 8 \<le> 32" for m
    using that by (auto intro!: bit_word_eqI simp: bit_simps)
  then have z: "push_bit m (take_bit 8 (drop_bit m w)) = 0 \<longleftrightarrow> unat (take_bit 8 (drop_bit m w)) = 0" if "m + 8 \<le> 32" for m
    using that by (metis drop_bit_of_0 push_bit_of_0 unsigned_eq_0_iff)
  have "w AND 0xff = push_bit 0 (take_bit 8 (drop_bit 0 w))" "w AND 0xff00 = push_bit 8 (take_bit 8 (drop_bit 8 w))"
    "w AND 0xff0000 = push_bit 16 (take_bit 8 (drop_bit 16 w))" "w AND 0xff000000 = push_bit 24 (take_bit 8 (drop_bit 24 w))"
    using b [of 0] b [of 8] b [of 16] b [of 24] by (simp_all add: mask_eq_exp_minus_1)
  then show ?thesis
    unfolding rt_ffs_def using z [of 0] z [of 8] z [of 16] d [of 0] d [of 8] d [of 16] d [of 24] by simp
qed

lemma rt_ffs_byte:
  assumes "m + 8 \<le> 32" "\<And>k. k < m \<Longrightarrow> \<not> bit w k" "unat (take_bit 8 (drop_bit m w)) \<noteq> 0"
    "rt_ffs w = lowest_bit_bitmap ! unat (take_bit 8 (drop_bit m w)) + (m + 1)"
  shows "\<exists>n. rt_ffs w = n + 1 \<and> bit w n \<and> (\<forall>k < n. \<not> bit w k)"
proof (rule exI, intro conjI allI impI)
  have low: "\<forall>k < m. \<not> bit w k" using assms(2) by blast
  show "rt_ffs w = (lowest_bit_bitmap ! unat (take_bit 8 (drop_bit m w)) + m) + 1" using assms(4) by simp
  show "bit w (lowest_bit_bitmap ! unat (take_bit 8 (drop_bit m w)) + m)"
    by (rule byte_lowest(1) [OF assms(1) low assms(3)])
  fix k assume "k < lowest_bit_bitmap ! unat (take_bit 8 (drop_bit m w)) + m"
  then show "\<not> bit w k" by (rule byte_lowest(2) [OF assms(1) low assms(3)])
qed

lemma byte_clear:
  fixes w :: u32
  assumes "unat (take_bit 8 (drop_bit m w)) = 0" "m + 8 \<le> 32" "\<And>k. k < m \<Longrightarrow> \<not> bit w k"
  shows "k < m + 8 \<Longrightarrow> \<not> bit w k"
  using assms(1,3) byte_bits(3) [OF assms(2), of w] by (cases "k < m") (simp_all add: not_less)

lemma rt_ffs_lowest:
  assumes "w \<noteq> 0"
  obtains n where "rt_ffs w = n + 1" "n < 32" "bit w n" "\<And>k. k < n \<Longrightarrow> \<not> bit w k"
proof -
  let ?b = "\<lambda>m. unat (take_bit 8 (drop_bit m w))"
  consider "?b 0 \<noteq> 0" | "?b 0 = 0" "?b 8 \<noteq> 0" | "?b 0 = 0" "?b 8 = 0" "?b 16 \<noteq> 0"
    | "?b 0 = 0" "?b 8 = 0" "?b 16 = 0" by blast
  then have "\<exists>n. rt_ffs w = n + 1 \<and> bit w n \<and> (\<forall>k < n. \<not> bit w k)"
  proof cases
    case 1
    then show ?thesis using assms by (intro rt_ffs_byte [of 0]) (simp_all add: rt_ffs_bytes)
  next
    case 2
    then have low: "\<And>k. k < 8 \<Longrightarrow> \<not> bit w k" using byte_clear [of 0 w] by simp
    from 2 show ?thesis using assms by (intro rt_ffs_byte [of 8] low) (simp_all add: rt_ffs_bytes)
  next
    case 3
    then have "\<And>k. k < 8 \<Longrightarrow> \<not> bit w k" using byte_clear [of 0 w] by simp
    with 3 have low: "\<And>k. k < 16 \<Longrightarrow> \<not> bit w k" using byte_clear [of 8 w] by simp
    from 3 show ?thesis using assms by (intro rt_ffs_byte [of 16] low) (simp_all add: rt_ffs_bytes)
  next
    case 4
    then have "\<And>k. k < 8 \<Longrightarrow> \<not> bit w k" using byte_clear [of 0 w] by simp
    with 4 have "\<And>k. k < 16 \<Longrightarrow> \<not> bit w k" using byte_clear [of 8 w] by simp
    with 4 have low: "\<And>k. k < 24 \<Longrightarrow> \<not> bit w k" using byte_clear [of 16 w] by simp
    have "?b 24 \<noteq> 0"
    proof
      assume "?b 24 = 0"
      with low have "\<And>k. k < 32 \<Longrightarrow> \<not> bit w k" using byte_clear [of 24 w] by simp
      then have "w = 0" by (intro bit_word_eqI) simp
      with assms show False ..
    qed
    with 4 show ?thesis using assms by (intro rt_ffs_byte [of 24] low) (simp_all add: rt_ffs_bytes)
  qed
  then obtain n where "rt_ffs w = n + 1" "bit w n" "\<forall>k < n. \<not> bit w k" by blast
  moreover from this(2) have "n < 32" using bit_imp_le_length by fastforce
  ultimately show thesis using that by blast
qed

section \<open>The invariant of the scheduler\<close>

text \<open>
  \<^item> Bit \<open>p\<close> of the group is set exactly when the ready queue of priority \<open>p\<close> is not empty.
  \<^item> A thread is linked at most once, and the list it is in fits its status and priority.
  \<^item> A ready thread is in its ready queue, and only the current thread is running.

  Inside an operation the last point fails for the threads that are being moved: \<open>sched_inv_ex T\<close>
  excuses the threads in \<open>T\<close>.
\<close>

definition head_stat :: "list_head \<Rightarrow> thread_stat" where
  "head_stat l = (case l of Ready_Queue p \<Rightarrow> RT_THREAD_READY | Defunct_List \<Rightarrow> RT_THREAD_CLOSE
     | _ \<Rightarrow> RT_THREAD_SUSPEND)"

definition linked :: "kernel \<Rightarrow> tid \<Rightarrow> bool" where
  "linked s t \<longleftrightarrow> (\<exists>l. t \<in> set (lists s l))"

definition ready_bits :: "kernel \<Rightarrow> bool" where
  "ready_bits s \<longleftrightarrow> (\<forall>p < 32. bit (rt_thread_ready_priority_group s) p \<longleftrightarrow> lists s (Ready_Queue p) \<noteq> [])"

definition links_once :: "kernel \<Rightarrow> bool" where
  "links_once s \<longleftrightarrow> (\<forall>l. distinct (lists s l)) \<and>
     (\<forall>l l' t. t \<in> set (lists s l) \<longrightarrow> t \<in> set (lists s l') \<longrightarrow> l = l')"

definition heads_ok :: "kernel \<Rightarrow> bool" where
  "heads_ok s \<longleftrightarrow> (\<forall>l t. t \<in> set (lists s l) \<longrightarrow> stat_of s t = head_stat l) \<and>
     (\<forall>p t. t \<in> set (lists s (Ready_Queue p)) \<longrightarrow> prio s t = p)"

text \<open>A thread that was never started has no bit in the group; it may have been closed since.\<close>

definition dormant :: "thread_stat \<Rightarrow> bool" where
  "dormant st \<longleftrightarrow> st = RT_THREAD_INIT \<or> st = RT_THREAD_CLOSE"

lemma dormant_simps [simp]:
  "dormant RT_THREAD_INIT" "dormant RT_THREAD_CLOSE" "\<not> dormant RT_THREAD_READY"
  "\<not> dormant RT_THREAD_SUSPEND" "\<not> dormant RT_THREAD_RUNNING"
  by (simp_all add: dormant_def)

definition prios_ok :: "kernel \<Rightarrow> bool" where
  "prios_ok s \<longleftrightarrow> (\<forall>t. prio s t < 32 \<and> init_priority (threads s t) < 32 \<and>
     (number_mask (threads s t) = 2 ^ prio s t \<or> dormant (stat_of s t) \<and> number_mask (threads s t) = 0))"

definition stats_ok :: "tid set \<Rightarrow> kernel \<Rightarrow> bool" where
  "stats_ok T s \<longleftrightarrow> (\<forall>t. t \<notin> T \<longrightarrow>
     (stat_of s t = RT_THREAD_READY \<longrightarrow> cur s \<noteq> Some t \<and> t \<in> set (lists s (Ready_Queue (prio s t)))) \<and>
     (stat_of s t = RT_THREAD_RUNNING \<longrightarrow> cur s = Some t))"

definition sched_inv_ex :: "tid set \<Rightarrow> kernel \<Rightarrow> bool" where
  "sched_inv_ex T s \<longleftrightarrow> ready_bits s \<and> links_once s \<and> heads_ok s \<and> prios_ok s \<and> stats_ok T s"

definition sched_inv :: "kernel \<Rightarrow> bool" where
  "sched_inv s \<longleftrightarrow> sched_inv_ex {} s"

lemmas sched_parts = ready_bits_def links_once_def heads_ok_def prios_ok_def stats_ok_def

lemma linked_simps [simp]:
  "linked (unlink t s) u \<longleftrightarrow> linked s u \<and> u \<noteq> t"
  "linked (thr_upd t f s) u \<longleftrightarrow> linked s u"
  "linked (s\<lparr>rt_thread_ready_priority_group := g\<rparr>) u \<longleftrightarrow> linked s u"
  "linked (s\<lparr>cur := c\<rparr>) u \<longleftrightarrow> linked s u"
  "linked (s\<lparr>rt_current_priority := n\<rparr>) u \<longleftrightarrow> linked s u"
  by (auto simp: linked_def unlink_def thr_upd_def)

lemma thr_upd_simps [simp]:
  "threads (thr_upd t f s) u = (if u = t then f (threads s t) else threads s u)"
  "lists (thr_upd t f s) = lists s" "cur (thr_upd t f s) = cur s"
  "rt_thread_ready_priority_group (thr_upd t f s) = rt_thread_ready_priority_group s"
  "rt_scheduler_lock_nest (thr_upd t f s) = rt_scheduler_lock_nest s"
  "rt_interrupt_nest (thr_upd t f s) = rt_interrupt_nest s" "rt_tick (thr_upd t f s) = rt_tick s"
  "timers (thr_upd t f s) = timers s" "rt_timer_list (thr_upd t f s) = rt_timer_list s"
  "rt_current_priority (thr_upd t f s) = rt_current_priority s"
  by (simp_all add: thr_upd_def)

lemma unlink_simps [simp]:
  "lists (unlink t s) l = removeAll t (lists s l)" "threads (unlink t s) = threads s" "cur (unlink t s) = cur s"
  "rt_thread_ready_priority_group (unlink t s) = rt_thread_ready_priority_group s"
  "rt_scheduler_lock_nest (unlink t s) = rt_scheduler_lock_nest s"
  "rt_interrupt_nest (unlink t s) = rt_interrupt_nest s" "rt_tick (unlink t s) = rt_tick s"
  "timers (unlink t s) = timers s" "rt_timer_list (unlink t s) = rt_timer_list s"
  "rt_current_priority (unlink t s) = rt_current_priority s"
  by (simp_all add: unlink_def)

lemma link_simps [simp]:
  "threads (link_last l t s) = threads s" "cur (link_last l t s) = cur s"
  "lists (link_last l t s) l' = (if l' = l then lists s l @ [t] else lists s l')"
  "rt_thread_ready_priority_group (link_last l t s) = rt_thread_ready_priority_group s"
  "threads (link_first l t s) = threads s" "cur (link_first l t s) = cur s"
  "lists (link_first l t s) l' = (if l' = l then t # lists s l else lists s l')"
  "rt_thread_ready_priority_group (link_first l t s) = rt_thread_ready_priority_group s"
  "rt_tick (link_last l t s) = rt_tick s" "timers (link_last l t s) = timers s" "rt_timer_list (link_last l t s) = rt_timer_list s"
  "rt_scheduler_lock_nest (link_last l t s) = rt_scheduler_lock_nest s"
  by (simp_all add: link_last_def link_first_def)

lemma unlinkedD: "\<not> linked s t \<Longrightarrow> t \<notin> set (lists s l)"
  by (auto simp: linked_def)

lemma bit_or_mask: "p < 32 \<Longrightarrow> q < 32 \<Longrightarrow> bit ((g :: u32) OR 2 ^ p) q \<longleftrightarrow> bit g q \<or> q = p"
  by (auto simp: bit_simps)

lemma bit_clear_mask: "p < 32 \<Longrightarrow> q < 32 \<Longrightarrow> bit ((g :: u32) AND NOT (2 ^ p)) q \<longleftrightarrow> bit g q \<and> q \<noteq> p"
  by (auto simp: bit_simps)

lemma prios_okD: "prios_ok s \<Longrightarrow> prio s t < 32" "prios_ok s \<Longrightarrow> init_priority (threads s t) < 32"
  "prios_ok s \<Longrightarrow> \<not> dormant (stat_of s t) \<Longrightarrow> number_mask (threads s t) = 2 ^ prio s t"
  by (auto simp: prios_ok_def)

text \<open>Changing the status of a thread that is in no list.\<close>

lemma set_stat_inv:
  assumes "sched_inv_ex T s" "\<not> linked s t" "dormant (stat_of s t) \<longrightarrow> dormant st"
    "st = RT_THREAD_RUNNING \<longrightarrow> cur s = Some t" "st \<noteq> RT_THREAD_READY"
  shows "sched_inv_ex (T - {t}) (thr_upd t (\<lambda>r. r\<lparr>stat := st\<rparr>) s)"
  using assms unlinkedD [OF assms(2)]
  by (auto simp: sched_inv_ex_def sched_parts)

lemma insert_other:
  assumes "cur s \<noteq> Some t"
  shows "rt_schedule_insert_thread t s =
    (thr_upd t (\<lambda>r. r\<lparr>stat := RT_THREAD_READY\<rparr>) s)
      \<lparr>lists := (lists s)(Ready_Queue (prio s t) := lists s (Ready_Queue (prio s t)) @ [t]),
       rt_thread_ready_priority_group := rt_thread_ready_priority_group s OR number_mask (threads s t)\<rparr>"
  using assms by (simp add: rt_schedule_insert_thread_def link_last_def Let_def thr_upd_def)

lemma insert_inv:
  assumes "sched_inv_ex T s" "\<not> linked s t" "\<not> dormant (stat_of s t)"
  shows "sched_inv_ex (T - {t}) (rt_schedule_insert_thread t s)"
proof (cases "cur s = Some t")
  case True
  with set_stat_inv [OF assms(1,2), of RT_THREAD_RUNNING] assms(3) show ?thesis
    by (simp add: rt_schedule_insert_thread_def)
next
  case False
  have parts: "ready_bits s" "links_once s" "heads_ok s" "prios_ok s" "stats_ok T s"
    using assms(1) by (simp_all add: sched_inv_ex_def)
  note free = unlinkedD [OF assms(2)]
  have p: "prio s t < 32" "number_mask (threads s t) = 2 ^ prio s t"
    using prios_okD [OF parts(4)] assms(3) by auto
  let ?s = "rt_schedule_insert_thread t s"
  have "ready_bits ?s" using parts(1) p
    by (auto simp: ready_bits_def insert_other [OF False] bit_or_mask)
  moreover have "links_once ?s" using parts(2) free
    unfolding links_once_def insert_other [OF False] by (auto; blast)
  moreover have "heads_ok ?s" using parts(3) free
    by (auto simp: heads_ok_def insert_other [OF False] head_stat_def)
  moreover have "prios_ok ?s" using parts(4) p
    by (auto simp: prios_ok_def insert_other [OF False])
  moreover have "stats_ok (T - {t}) ?s" using parts(5) False
    by (auto simp: stats_ok_def insert_other [OF False])
  ultimately show ?thesis by (simp add: sched_inv_ex_def)
qed

lemma remove_lists [simp]:
  "lists (rt_schedule_remove_thread t s) l = removeAll t (lists s l)"
  "threads (rt_schedule_remove_thread t s) = threads s"
  "cur (rt_schedule_remove_thread t s) = cur s"
  "rt_scheduler_lock_nest (rt_schedule_remove_thread t s) = rt_scheduler_lock_nest s"
  "timers (rt_schedule_remove_thread t s) = timers s"
  "rt_timer_list (rt_schedule_remove_thread t s) = rt_timer_list s"
  "rt_tick (rt_schedule_remove_thread t s) = rt_tick s"
  "linked (rt_schedule_remove_thread t s) u \<longleftrightarrow> linked s u \<and> u \<noteq> t"
  by (auto simp: rt_schedule_remove_thread_def Let_def linked_def)

lemma remove_inv:
  assumes "sched_inv_ex T s"
  shows "sched_inv_ex (insert t T) (rt_schedule_remove_thread t s)"
proof -
  have parts: "ready_bits s" "links_once s" "heads_ok s" "prios_ok s" "stats_ok T s"
    using assms(1) by (simp_all add: sched_inv_ex_def)
  let ?s = "rt_schedule_remove_thread t s"
  have p: "prio s t < 32" using prios_okD [OF parts(4)] by simp
  have other: "removeAll t (lists s (Ready_Queue q)) = lists s (Ready_Queue q)" if "q \<noteq> prio s t" for q
    using parts(3) that by (intro removeAll_id) (auto simp: heads_ok_def)
  have init: "removeAll t (lists s (Ready_Queue q)) = lists s (Ready_Queue q)" if "dormant (stat_of s t)" for q
    using parts(3) that by (intro removeAll_id) (fastforce simp: heads_ok_def head_stat_def)
  have "bit (rt_thread_ready_priority_group ?s) q \<longleftrightarrow> lists ?s (Ready_Queue q) \<noteq> []" if q: "q < 32" for q
  proof (cases "number_mask (threads s t) = 2 ^ prio s t")
    case True
    then show ?thesis
      using parts(1) p q other
      by (cases "q = prio s t") (auto simp: rt_schedule_remove_thread_def Let_def ready_bits_def bit_clear_mask)
  next
    case False
    then have "dormant (stat_of s t)" "number_mask (threads s t) = 0" using parts(4) by (auto simp: prios_ok_def)
    then show ?thesis
      using parts(1) p q init by (auto simp: rt_schedule_remove_thread_def Let_def ready_bits_def)
  qed
  then have "ready_bits ?s" by (simp add: ready_bits_def)
  moreover have "links_once ?s" using parts(2) by (auto simp: links_once_def distinct_removeAll)
  moreover have "heads_ok ?s" using parts(3) by (auto simp: heads_ok_def)
  moreover have "prios_ok ?s" using parts(4) by (auto simp: prios_ok_def)
  moreover have "stats_ok (insert t T) ?s" using parts(5) by (auto simp: stats_ok_def)
  ultimately show ?thesis by (simp add: sched_inv_ex_def)
qed

section \<open>Scheduling\<close>

lemma highest_priority:
  assumes "sched_inv_ex T s" "rt_thread_ready_priority_group s \<noteq> 0"
    "get_highest_priority_thread s = (t, p)"
  shows "t \<in> set (lists s (Ready_Queue p))" "t = hd (lists s (Ready_Queue p))" "p < 32" "prio s t = p"
    "stat_of s t = RT_THREAD_READY" "\<And>q. q < p \<Longrightarrow> lists s (Ready_Queue q) = []"
proof -
  obtain n where n: "rt_ffs (rt_thread_ready_priority_group s) = n + 1" "n < 32"
      "bit (rt_thread_ready_priority_group s) n" "\<And>k. k < n \<Longrightarrow> \<not> bit (rt_thread_ready_priority_group s) k"
    using rt_ffs_lowest [OF assms(2)] by blast
  have tp: "p = n" "t = hd (lists s (Ready_Queue n))"
    using assms(3) n(1) by (auto simp: get_highest_priority_thread_def)
  have r: "ready_bits s" "heads_ok s" using assms(1) by (simp_all add: sched_inv_ex_def)
  have ne: "lists s (Ready_Queue n) \<noteq> []" using r(1) n(2,3) by (simp add: ready_bits_def)
  then show t: "t \<in> set (lists s (Ready_Queue p))" using tp by simp
  show "t = hd (lists s (Ready_Queue p))" "p < 32" using tp n(2) by simp_all
  show "prio s t = p" "stat_of s t = RT_THREAD_READY" using t r(2) by (auto simp: heads_ok_def head_stat_def)
  show "lists s (Ready_Queue q) = []" if "q < p" for q
    using that tp n r(1) by (auto simp: ready_bits_def)
qed

lemma cur_upd_inv:
  assumes "sched_inv_ex T s" "\<And>c. cur s = Some c \<Longrightarrow> c \<in> T" "t \<in> T"
  shows "sched_inv_ex T (s\<lparr>rt_current_priority := p, cur := Some t\<rparr>)"
proof -
  obtain s' where s': "s' = s\<lparr>rt_current_priority := p, cur := Some t\<rparr>" by blast
  have f: "threads s' = threads s" "lists s' = lists s"
    "rt_thread_ready_priority_group s' = rt_thread_ready_priority_group s" "cur s' = Some t"
    by (simp_all add: s')
  have "ready_bits s' = ready_bits s" by (simp only: ready_bits_def f)
  moreover have "links_once s' = links_once s" by (simp only: links_once_def f)
  moreover have "heads_ok s' = heads_ok s" by (simp only: heads_ok_def f)
  moreover have "prios_ok s' = prios_ok s" by (simp only: prios_ok_def f)
  moreover have "stats_ok T s'" unfolding stats_ok_def f
  proof (intro allI impI)
    fix u assume u: "u \<notin> T"
    have "(stat_of s u = RT_THREAD_READY \<longrightarrow> cur s \<noteq> Some u \<and> u \<in> set (lists s (Ready_Queue (prio s u)))) \<and>
       (stat_of s u = RT_THREAD_RUNNING \<longrightarrow> cur s = Some u)"
      using assms(1) u by (simp add: sched_inv_ex_def stats_ok_def)
    then show "(stat_of s u = RT_THREAD_READY \<longrightarrow> Some t \<noteq> Some u \<and> u \<in> set (lists s (Ready_Queue (prio s u)))) \<and>
       (stat_of s u = RT_THREAD_RUNNING \<longrightarrow> Some t = Some u)"
      using assms(2) [of u] assms(3) u by blast
  qed
  ultimately have "sched_inv_ex T s'" using assms(1) unfolding sched_inv_ex_def by blast
  then show ?thesis by (simp add: s')
qed

lemma sched_inv_ex_mono: "sched_inv_ex T s \<Longrightarrow> T \<subseteq> T' \<Longrightarrow> sched_inv_ex T' s"
  by (auto simp: sched_inv_ex_def stats_ok_def)

lemma running_unlinked:
  assumes "sched_inv_ex T s" "stat_of s t = RT_THREAD_RUNNING"
  shows "\<not> linked s t"
proof
  assume "linked s t"
  then obtain l where "t \<in> set (lists s l)" by (auto simp: linked_def)
  then have "head_stat l = RT_THREAD_RUNNING" using assms by (auto simp: sched_inv_ex_def heads_ok_def)
  then show False by (cases l) (simp_all add: head_stat_def)
qed

text \<open>
  The state after a switch from \<open>c\<close> to \<open>t\<close>: the new current thread runs, and everything but
  the two threads' status and place is as before.
\<close>

lemma schedule_switch:
  assumes inv: "sched_inv s" and c: "cur s = Some c" and t: "t \<in> set (lists s (Ready_Queue p))" "t \<noteq> c"
    and ins: "ins \<longleftrightarrow> stat_of s c = RT_THREAD_RUNNING"
    and s': "s' = (let s1 = s\<lparr>rt_current_priority := p, cur := Some t\<rparr>;
                 s2 = (if ins then rt_schedule_insert_thread c s1 else s1);
                 s3 = rt_schedule_remove_thread t s2
             in thr_upd t (\<lambda>r. r\<lparr>stat := RT_THREAD_RUNNING\<rparr>) s3)"
  shows "sched_inv s'"
proof -
  let ?s1 = "s\<lparr>rt_current_priority := p, cur := Some t\<rparr>"
  let ?s2 = "if ins then rt_schedule_insert_thread c ?s1 else ?s1"
  let ?s3 = "rt_schedule_remove_thread t ?s2"
  have t': "stat_of s t = RT_THREAD_READY"
    using inv t by (auto simp: sched_inv_def sched_inv_ex_def heads_ok_def head_stat_def)
  have i1: "sched_inv_ex {c, t} ?s1"
    using inv c by (intro cur_upd_inv) (auto simp: sched_inv_def intro: sched_inv_ex_mono)
  have i2: "sched_inv_ex {t} ?s2"
  proof (cases ins)
    case True
    then have r: "stat_of s c = RT_THREAD_RUNNING" using ins by simp
    then have "\<not> linked s c" using running_unlinked inv by (simp add: sched_inv_def)
    then show ?thesis
      using insert_inv [OF i1, of c] r t(2) True by (auto intro: sched_inv_ex_mono)
  next
    case False
    then have "stat_of s c \<noteq> RT_THREAD_RUNNING" "stat_of s c \<noteq> RT_THREAD_READY"
      using ins inv c by (auto simp: sched_inv_def sched_inv_ex_def stats_ok_def)
    then show ?thesis using i1 False by (auto simp: sched_inv_ex_def stats_ok_def)
  qed
  have i3: "sched_inv_ex {t} ?s3" using remove_inv [OF i2, of t] by simp
  have st: "\<not> dormant (stat_of ?s3 t)" "cur ?s3 = Some t" "\<not> linked ?s3 t"
    using t(2) t' by (auto simp: insert_other)
  have "sched_inv_ex ({t} - {t}) (thr_upd t (\<lambda>r. r\<lparr>stat := RT_THREAD_RUNNING\<rparr>) ?s3)"
    by (rule set_stat_inv [OF i3 st(3)]) (use st(1,2) in simp_all)
  then show ?thesis by (simp add: s' sched_inv_def Let_def)
qed

text \<open>What a scheduling leaves alone, and what it may do to the threads.\<close>

definition sched_frame :: "kernel \<Rightarrow> kernel \<Rightarrow> bool" where
  "sched_frame s s' \<longleftrightarrow>
     timers s' = timers s \<and> rt_timer_list s' = rt_timer_list s \<and> rt_tick s' = rt_tick s \<and>
     rt_scheduler_lock_nest s' = rt_scheduler_lock_nest s \<and> rt_interrupt_nest s' = rt_interrupt_nest s \<and>
     (\<forall>l. (\<forall>p. l \<noteq> Ready_Queue p) \<longrightarrow> lists s' l = lists s l) \<and>
     (\<forall>u. threads s' u = (threads s u)\<lparr>stat := stat_of s' u\<rparr>) \<and>
     (\<forall>u. stat_of s' u = stat_of s u \<or>
        {stat_of s u, stat_of s' u} = {RT_THREAD_READY, RT_THREAD_RUNNING})"

lemma sched_frame_refl [simp]: "sched_frame s s"
  by (simp add: sched_frame_def)

lemma sched_frame_fields:
  assumes "sched_frame s s'"
  shows "timers s' = timers s" "rt_timer_list s' = rt_timer_list s" "rt_tick s' = rt_tick s"
    "rt_scheduler_lock_nest s' = rt_scheduler_lock_nest s" "rt_interrupt_nest s' = rt_interrupt_nest s"
    "lists s' (Suspend_List n) = lists s (Suspend_List n)" "lists s' (Sender_List n) = lists s (Sender_List n)"
    "lists s' Defunct_List = lists s Defunct_List"
    "prio s' u = prio s u" "error (threads s' u) = error (threads s u)"
    "event_set (threads s' u) = event_set (threads s u)" "event_info (threads s' u) = event_info (threads s u)"
    "number_mask (threads s' u) = number_mask (threads s u)"
    "stat_of s' u = RT_THREAD_SUSPEND \<longleftrightarrow> stat_of s u = RT_THREAD_SUSPEND"
    "stat_of s' u = RT_THREAD_CLOSE \<longleftrightarrow> stat_of s u = RT_THREAD_CLOSE"
    "stat_of s' u = RT_THREAD_INIT \<longleftrightarrow> stat_of s u = RT_THREAD_INIT"
proof -
  have t: "threads s' u = (threads s u)\<lparr>stat := stat_of s' u\<rparr>" using assms by (simp add: sched_frame_def)
  show "prio s' u = prio s u" by (subst t) simp
  show "error (threads s' u) = error (threads s u)" by (subst t) simp
  show "event_set (threads s' u) = event_set (threads s u)" by (subst t) simp
  show "event_info (threads s' u) = event_info (threads s u)" by (subst t) simp
  show "number_mask (threads s' u) = number_mask (threads s u)" by (subst t) simp
  have d: "stat_of s' u = stat_of s u \<or> {stat_of s u, stat_of s' u} = {RT_THREAD_READY, RT_THREAD_RUNNING}"
    using assms by (simp add: sched_frame_def)
  show "stat_of s' u = RT_THREAD_SUSPEND \<longleftrightarrow> stat_of s u = RT_THREAD_SUSPEND"
    "stat_of s' u = RT_THREAD_CLOSE \<longleftrightarrow> stat_of s u = RT_THREAD_CLOSE"
    "stat_of s' u = RT_THREAD_INIT \<longleftrightarrow> stat_of s u = RT_THREAD_INIT"
    using d by (auto simp: doubleton_eq_iff)
qed (use assms in \<open>simp_all add: sched_frame_def\<close>)

text \<open>A thread is \<open>runnable\<close> when it is ready or running.\<close>

definition runnable :: "kernel \<Rightarrow> tid \<Rightarrow> bool" where
  "runnable s t \<longleftrightarrow> stat_of s t = RT_THREAD_READY \<or> stat_of s t = RT_THREAD_RUNNING"

lemma sched_frame_runnable:
  assumes "sched_frame s s'"
  shows "runnable s' t \<longleftrightarrow> runnable s t"
proof -
  have "stat_of s' t = stat_of s t \<or> {stat_of s t, stat_of s' t} = {RT_THREAD_READY, RT_THREAD_RUNNING}"
    using assms unfolding sched_frame_def by blast
  then show ?thesis by (auto simp: runnable_def doubleton_eq_iff)
qed

lemma schedule_switch_frame:
  assumes inv: "sched_inv s" and c: "cur s = Some c" and t: "t \<in> set (lists s (Ready_Queue p))" "t \<noteq> c"
    and ins: "ins \<longleftrightarrow> stat_of s c = RT_THREAD_RUNNING"
    and s': "s' = (let s1 = s\<lparr>rt_current_priority := p, cur := Some t\<rparr>;
                 s2 = (if ins then rt_schedule_insert_thread c s1 else s1);
                 s3 = rt_schedule_remove_thread t s2
             in thr_upd t (\<lambda>r. r\<lparr>stat := RT_THREAD_RUNNING\<rparr>) s3)"
  shows "sched_frame s s'" "cur s' = Some t" "stat_of s' t = RT_THREAD_RUNNING"
    "threads s' = (if ins then (threads s)(c := (threads s c)\<lparr>stat := RT_THREAD_READY\<rparr>) else threads s)
        (t := (threads s t)\<lparr>stat := RT_THREAD_RUNNING\<rparr>)"
    "lists s' (Ready_Queue q) = removeAll t (lists s (Ready_Queue q) @ (if ins \<and> q = prio s c then [c] else []))"
proof -
  have ot: "t \<notin> set (lists s l)" if "\<forall>p. l \<noteq> Ready_Queue p" for l
  proof
    assume "t \<in> set (lists s l)"
    moreover have "links_once s" using inv by (simp add: sched_inv_def sched_inv_ex_def)
    ultimately have "l = Ready_Queue p" using t(1) unfolding links_once_def by blast
    with that show False by blast
  qed
  have st: "stat_of s t = RT_THREAD_READY"
    using inv t by (auto simp: sched_inv_def sched_inv_ex_def heads_ok_def head_stat_def)
  show th: "threads s' = (if ins then (threads s)(c := (threads s c)\<lparr>stat := RT_THREAD_READY\<rparr>) else threads s)
        (t := (threads s t)\<lparr>stat := RT_THREAD_RUNNING\<rparr>)"
    using t(2) by (auto simp: s' Let_def insert_other thr_upd_def)
  show "lists s' (Ready_Queue q) = removeAll t (lists s (Ready_Queue q) @ (if ins \<and> q = prio s c then [c] else []))"
    using t(2) by (simp add: s' Let_def insert_other)
  show "cur s' = Some t" using t(2) by (simp add: s' Let_def insert_other)
  show "stat_of s' t = RT_THREAD_RUNNING" by (simp add: th)
  have "lists s' l = lists s l" if "\<forall>p. l \<noteq> Ready_Queue p" for l
    using ot [OF that] that t(2) by (auto simp: s' Let_def insert_other)
  moreover have "threads s' u = (threads s u)\<lparr>stat := stat_of s' u\<rparr>" for u
    by (simp add: th)
  moreover have "stat_of s' u = stat_of s u \<or> {stat_of s u, stat_of s' u} = {RT_THREAD_READY, RT_THREAD_RUNNING}" for u
    using ins st t(2) by (auto simp: th)
  ultimately show "sched_frame s s'"
    using t(2) by (simp add: sched_frame_def) (simp add: s' Let_def insert_other rt_schedule_remove_thread_def)
qed

text \<open>No ready thread is more urgent.\<close>

definition most_urgent :: "kernel \<Rightarrow> tid \<Rightarrow> bool" where
  "most_urgent s t \<longleftrightarrow> (\<forall>u. stat_of s u = RT_THREAD_READY \<longrightarrow> prio s t \<le> prio s u)"

lemma ready_in_queue:
  assumes "sched_inv s" "stat_of s u = RT_THREAD_READY"
  shows "u \<in> set (lists s (Ready_Queue (prio s u)))"
  using assms by (auto simp: sched_inv_def sched_inv_ex_def stats_ok_def)

lemma no_ready:
  assumes "sched_inv s" "rt_thread_ready_priority_group s = 0"
  shows "stat_of s u \<noteq> RT_THREAD_READY"
proof
  assume "stat_of s u = RT_THREAD_READY"
  then have "lists s (Ready_Queue (prio s u)) \<noteq> []" using ready_in_queue [OF assms(1)] by fastforce
  moreover have "prio s u < 32" "ready_bits s"
    using assms(1) prios_okD(1) by (auto simp: sched_inv_def sched_inv_ex_def)
  ultimately show False using assms(2) by (simp add: ready_bits_def)
qed

lemma schedule_from_spec:
  assumes inv: "sched_inv s" and c: "cur s = Some c" and g: "rt_thread_ready_priority_group s \<noteq> 0"
  shows "sched_inv (schedule_from c s) \<and> sched_frame s (schedule_from c s) \<and>
    (\<exists>t. cur (schedule_from c s) = Some t \<and> stat_of (schedule_from c s) t = RT_THREAD_RUNNING \<and>
       most_urgent (schedule_from c s) t)"
proof -
  obtain t p where tp: "get_highest_priority_thread s = (t, p)" by (cases "get_highest_priority_thread s")
  note h = highest_priority [OF inv [unfolded sched_inv_def] g tp]
  have tc: "t \<noteq> c" using h(5) inv c by (auto simp: sched_inv_def sched_inv_ex_def stats_ok_def)
  have urgent: "p \<le> prio s u" if "stat_of s u = RT_THREAD_READY" for u
    using ready_in_queue [OF inv that] h(6) [of "prio s u"] by (cases "prio s u < p") auto
  show ?thesis
  proof (cases "stat_of s c = RT_THREAD_RUNNING \<and> prio s c < p")
    case True
    have nl: "\<not> linked s c" using True running_unlinked inv by (simp add: sched_inv_def)
    obtain s' where s': "s' = schedule_from c s" by blast
    have e: "s' = thr_upd c (\<lambda>r. r\<lparr>stat := RT_THREAD_RUNNING\<rparr>) (rt_schedule_remove_thread c s)"
      using True g tp by (simp add: s' schedule_from_def Let_def)
    have "sched_inv_ex {c} (rt_schedule_remove_thread c s)"
      using remove_inv inv by (auto simp: sched_inv_def)
    then have "sched_inv_ex ({c} - {c}) s'" unfolding e
      using True c by (intro set_stat_inv) simp_all
    moreover have th: "threads s' = threads s" using True by (auto simp: e thr_upd_def)
    moreover have "lists s' l = lists s l" for l using unlinkedD [OF nl] by (simp add: e)
    moreover have "cur s' = cur s" by (simp add: e)
    moreover have "sched_frame s s'"
      using th by (simp add: sched_frame_def calculation(3)) (simp add: e rt_schedule_remove_thread_def Let_def)
    moreover have "most_urgent s' c" using urgent True by (fastforce simp: most_urgent_def th)
    ultimately show ?thesis using c True by (auto simp: s' sched_inv_def)
  next
    case False
    let ?ins = "stat_of s c = RT_THREAD_RUNNING"
    obtain s' where s': "s' = schedule_from c s" by blast
    have e: "s' = (let s1 = s\<lparr>rt_current_priority := p, cur := Some t\<rparr>;
                 s2 = (if ?ins then rt_schedule_insert_thread c s1 else s1);
                 s3 = rt_schedule_remove_thread t s2
             in thr_upd t (\<lambda>r. r\<lparr>stat := RT_THREAD_RUNNING\<rparr>) s3)"
      using False g tp tc by (auto simp: s' schedule_from_def Let_def)
    note sw = schedule_switch [OF inv c h(1) tc refl e] schedule_switch_frame [OF inv c h(1) tc refl e]
    have "p \<le> prio s' u" if "stat_of s' u = RT_THREAD_READY" for u
      using that urgent [of u] False by (auto simp: sw(5) split: if_splits)
    then have "most_urgent s' t" using sw(5) h(4) by (simp add: most_urgent_def)
    then show ?thesis using sw by (auto simp: s')
  qed
qed

lemma rt_schedule_spec:
  assumes "sched_inv s" "cur s = Some c"
  shows "\<exists>s' t. rt_schedule s = Inr s' \<and> sched_inv s' \<and> sched_frame s s' \<and> cur s' = Some t"
  using schedule_from_spec [OF assms] assms by (auto simp: rt_schedule_def)

lemma rt_schedule_locked [simp]: "rt_scheduler_lock_nest s \<noteq> 0 \<Longrightarrow> rt_schedule s = Inr s"
  by (simp add: rt_schedule_def)

lemma rt_schedule_ok:
  assumes "rt_schedule s = Inr s'" "sched_inv s"
  shows "sched_inv s'" "sched_frame s s'" "(cur s' = None) = (cur s = None)"
proof -
  have "sched_inv s' \<and> sched_frame s s' \<and> (cur s' = None) = (cur s = None)"
  proof (cases "cur s")
    case None
    then show ?thesis using assms by (auto simp: rt_schedule_def split: if_splits)
  next
    case (Some c)
    then show ?thesis using rt_schedule_spec [OF assms(2) Some] assms(1) by auto
  qed
  then show "sched_inv s'" "sched_frame s s'" "(cur s' = None) = (cur s = None)" by simp_all
qed

section \<open>Rotation among equals\<close>

lemma highest_of_queue:
  assumes "sched_inv s" "lists s (Ready_Queue p) = t # ts" "\<And>q. q < p \<Longrightarrow> lists s (Ready_Queue q) = []"
  shows "rt_thread_ready_priority_group s \<noteq> 0" "get_highest_priority_thread s = (t, p)"
proof -
  have parts: "ready_bits s" "heads_ok s" "prios_ok s"
    using assms(1) by (simp_all add: sched_inv_def sched_inv_ex_def)
  have "prio s t = p" using parts(2) assms(2) by (simp add: heads_ok_def)
  then have p: "p < 32" using prios_okD(1) [OF parts(3)] by metis
  then have "bit (rt_thread_ready_priority_group s) p" using parts(1) assms(2) by (simp add: ready_bits_def)
  then show g: "rt_thread_ready_priority_group s \<noteq> 0" by auto
  obtain t' p' where tp: "get_highest_priority_thread s = (t', p')" by (cases "get_highest_priority_thread s")
  note h = highest_priority [OF assms(1) [unfolded sched_inv_def] g tp]
  have "\<not> p' < p" using h(1) assms(3) by fastforce
  moreover have "\<not> p < p'" using h(6) [of p] assms(2) by auto
  ultimately have "p' = p" by simp
  then show "get_highest_priority_thread s = (t, p)" using tp h(2) assms(2) by simp
qed

lemma rt_schedule_rotates:
  assumes inv: "sched_inv s" and c: "cur s = Some c" "stat_of s c = RT_THREAD_RUNNING"
    and l: "rt_scheduler_lock_nest s = 0" and q: "lists s (Ready_Queue (prio s c)) = t # ts"
    and top: "\<And>p. p < prio s c \<Longrightarrow> lists s (Ready_Queue p) = []"
  shows "\<exists>s'. rt_schedule s = Inr s' \<and> sched_inv s' \<and> cur s' = Some t \<and> stat_of s' t = RT_THREAD_RUNNING \<and>
    prio s' t = prio s c \<and> rt_scheduler_lock_nest s' = 0 \<and> lists s' (Ready_Queue (prio s c)) = ts @ [c] \<and>
    (\<forall>p < prio s c. lists s' (Ready_Queue p) = [])"
proof -
  note g = highest_of_queue [OF inv q top]
  note h = highest_priority [OF inv [unfolded sched_inv_def] g]
  have tc: "t \<noteq> c" using h(5) c by auto
  obtain s' where s': "s' = schedule_from c s" by blast
  have e: "s' = (let s1 = s\<lparr>rt_current_priority := prio s c, cur := Some t\<rparr>;
               s2 = (if True then rt_schedule_insert_thread c s1 else s1);
               s3 = rt_schedule_remove_thread t s2
           in thr_upd t (\<lambda>r. r\<lparr>stat := RT_THREAD_RUNNING\<rparr>) s3)"
    using g c tc by (auto simp: s' schedule_from_def Let_def)
  have ins: "True \<longleftrightarrow> stat_of s c = RT_THREAD_RUNNING" using c by simp
  note sw = schedule_switch [OF inv c(1) h(1) tc ins e] schedule_switch_frame [OF inv c(1) h(1) tc ins e]
  have "distinct (t # ts)" using inv q by (metis sched_inv_def sched_inv_ex_def links_once_def)
  then have "lists s' (Ready_Queue (prio s c)) = ts @ [c]" using tc by (simp add: sw(6) q removeAll_id)
  moreover have "\<forall>p < prio s c. lists s' (Ready_Queue p) = []" using top by (simp add: sw(6))
  moreover have "rt_schedule s = Inr s'" using g c l by (simp add: rt_schedule_def s')
  ultimately show ?thesis
    using sw sched_frame_fields(4,9) [OF sw(2)] h(4) l by simp
qed

text \<open>Yielding \<open>n\<close> times.\<close>

fun yields :: "nat \<Rightarrow> kernel \<Rightarrow> fault + kernel" where
  "yields 0 s = Inr s"
| "yields (Suc n) s = rbind (rt_schedule s) (yields n)"

definition running_top :: "kernel \<Rightarrow> tid \<Rightarrow> tid list \<Rightarrow> bool" where
  "running_top s c ts \<longleftrightarrow> sched_inv s \<and> cur s = Some c \<and> stat_of s c = RT_THREAD_RUNNING \<and>
     rt_scheduler_lock_nest s = 0 \<and> lists s (Ready_Queue (prio s c)) = ts \<and>
     list_all (\<lambda>p. lists s (Ready_Queue p) = []) [0..<prio s c]"

lemma running_top_yield:
  assumes "running_top s c (t # ts)"
  shows "\<exists>s'. rt_schedule s = Inr s' \<and> running_top s' t (ts @ [c])"
proof -
  have q: "lists s (Ready_Queue p) = []" if "p < prio s c" for p
    using assms that by (auto simp: running_top_def list_all_iff)
  obtain s' where "rt_schedule s = Inr s'" "sched_inv s'" "cur s' = Some t" "stat_of s' t = RT_THREAD_RUNNING"
    "prio s' t = prio s c" "rt_scheduler_lock_nest s' = 0" "lists s' (Ready_Queue (prio s c)) = ts @ [c]"
    "\<forall>p < prio s c. lists s' (Ready_Queue p) = []"
    using rt_schedule_rotates [of s c t ts] assms q by (auto simp: running_top_def)
  then have "running_top s' t (ts @ [c])" by (simp add: running_top_def list_all_iff)
  then show ?thesis using \<open>rt_schedule s = Inr s'\<close> by blast
qed

section \<open>Properties\<close>

text \<open>An example: thread 0 runs and threads 1 and 2 are ready at its priority, thread 3 below.\<close>

definition thread_reset :: rt_thread where
  "thread_reset = \<lparr>stat = RT_THREAD_INIT, current_priority = 0, init_priority = 0, number_mask = 0, error = 0,
     event_set = 0, event_info = 0, init_tick = 0, remaining_tick = 0, is_system = False, has_cleanup = False\<rparr>"

definition timer_reset :: rt_timer where
  "timer_reset = \<lparr>activated = False, periodic = False, tm_init_tick = 0, timeout_tick = 0\<rparr>"

definition kernel_reset :: kernel where
  "kernel_reset = \<lparr>threads = (\<lambda>_. thread_reset), lists = (\<lambda>_. []), rt_thread_ready_priority_group = 0,
     cur = None, rt_current_priority = 0, rt_scheduler_lock_nest = 0, rt_interrupt_nest = 0, rt_tick = 0,
     timers = (\<lambda>_. timer_reset), rt_timer_list = []\<rparr>"

definition example_thread :: "thread_stat \<Rightarrow> nat \<Rightarrow> rt_thread" where
  "example_thread st p = thread_reset\<lparr>stat := st, current_priority := p, init_priority := p, number_mask := 2 ^ p,
     init_tick := 10, remaining_tick := 10\<rparr>"

definition example_kernel :: kernel where
  "example_kernel = kernel_reset
     \<lparr>threads := (\<lambda>_. thread_reset)(0 := example_thread RT_THREAD_RUNNING 10, 1 := example_thread RT_THREAD_READY 10,
         2 := example_thread RT_THREAD_READY 10, 3 := example_thread RT_THREAD_READY 20),
      lists := (\<lambda>_. [])(Ready_Queue 10 := [1, 2], Ready_Queue 20 := [3]),
      rt_thread_ready_priority_group := 2 ^ 10 OR 2 ^ 20, cur := Some 0\<rparr>"

lemma example_kernel_inv: "sched_inv example_kernel"
proof -
  have "bit (2 ^ 10 OR 2 ^ 20 :: u32) p \<longleftrightarrow> p = 10 \<or> p = 20" if "p < 32" for p
    using that by (auto simp only: bit_or_iff bit_exp_iff possible_bit_def) simp_all
  then have "ready_bits example_kernel"
    unfolding ready_bits_def example_kernel_def by (simp del: or_numerals)
  moreover have "links_once example_kernel"
    by (auto simp: links_once_def example_kernel_def kernel_reset_def split: if_splits)
  moreover have "heads_ok example_kernel"
    by (auto simp: heads_ok_def example_kernel_def kernel_reset_def head_stat_def example_thread_def)
  moreover have "prios_ok example_kernel"
    by (simp add: prios_ok_def example_kernel_def kernel_reset_def thread_reset_def example_thread_def)
  moreover have "stats_ok {} example_kernel"
    by (simp add: stats_ok_def example_kernel_def kernel_reset_def thread_reset_def example_thread_def)
  ultimately show ?thesis by (simp add: sched_inv_def sched_inv_ex_def)
qed

text \<open>C31: The first-bit search returns one more than the index of the lowest bit that is set.
\<close>

theorem rt_ffs_is_lowest_bit:
  "rt_ffs w = (if w = 0 then 0 else Suc (LEAST n. bit w n))"
proof (cases "w = 0")
  case False
  then obtain n where n: "rt_ffs w = n + 1" "bit w n" "\<And>k. k < n \<Longrightarrow> \<not> bit w k"
    using rt_ffs_lowest by metis
  then have "(LEAST n. bit w n) = n" by (intro Least_equality) (auto simp: not_less [symmetric])
  then show ?thesis using n(1) False by simp
qed (simp add: rt_ffs_def)

lemma schedule_running:
  assumes "sched_inv s" "cur s = Some c" "rt_scheduler_lock_nest s = 0"
    "stat_of s c = RT_THREAD_RUNNING \<or> stat_of s u = RT_THREAD_READY"
  shows "\<exists>s' t. rt_schedule s = Inr s' \<and> sched_inv s' \<and> cur s' = Some t \<and>
    stat_of s' t = RT_THREAD_RUNNING \<and> most_urgent s' t"
proof (cases "rt_thread_ready_priority_group s = 0")
  case True
  then show ?thesis
    using assms no_ready [OF assms(1) True] by (auto simp: rt_schedule_def most_urgent_def)
next
  case False
  then show ?thesis
    using schedule_from_spec [OF assms(1,2) False] assms(2,3) by (auto simp: rt_schedule_def)
qed

text \<open>An unlocked scheduler that has a thread to run leaves the most urgent one running: no ready
  thread has a smaller priority number than the thread that runs afterwards, and the scheduler's
  invariant holds again.
\<close>

theorem rt_schedule_runs_most_urgent:
  assumes "sched_inv s" "cur s = Some c" "rt_scheduler_lock_nest s = 0"
    "stat_of s c = RT_THREAD_RUNNING \<or> stat_of s u = RT_THREAD_READY"
  shows "\<exists>s' t. rt_schedule s = Inr s' \<and> sched_inv s' \<and> cur s' = Some t \<and>
    stat_of s' t = RT_THREAD_RUNNING \<and> most_urgent s' t"
  by (rule schedule_running [OF assms])

theorem rt_schedule_runs_most_urgent_witness:
  "\<exists>s' t. rt_schedule example_kernel = Inr s' \<and> sched_inv s' \<and> cur s' = Some t \<and>
    stat_of s' t = RT_THREAD_RUNNING \<and> most_urgent s' t"
  by (rule rt_schedule_runs_most_urgent [OF example_kernel_inv, of 0 1])
    (simp_all add: example_kernel_def kernel_reset_def example_thread_def)

text \<open>C30: Threads of one priority take turns: with \<open>c\<close> running, \<open>ts\<close> ready at its priority and nothing
  more urgent, \<open>k\<close> yields leave the \<open>k\<close>-th of them running, so each of them gets the processor
  before \<open>c\<close> gets it again.
\<close>

theorem yields_take_turns:
  assumes "running_top s c ts" "k \<le> length ts"
  shows "\<exists>s'. yields k s = Inr s' \<and> running_top s' ((c # ts) ! k) (drop k ts @ take k (c # ts))"
  using assms
proof (induction k arbitrary: s c ts)
  case (Suc k)
  then obtain t us where ts: "ts = t # us" by (cases ts) auto
  obtain s1 where s1: "rt_schedule s = Inr s1" "running_top s1 t (us @ [c])"
    using running_top_yield Suc.prems ts by blast
  obtain s' where s': "yields k s1 = Inr s'"
      "running_top s' ((t # us @ [c]) ! k) (drop k (us @ [c]) @ take k (t # us @ [c]))"
    using Suc.IH [OF s1(2)] Suc.prems(2) ts by auto
  have "(t # us @ [c]) ! k = (c # ts) ! Suc k"
    using Suc.prems(2) ts by (simp add: nth_append nth_Cons split: nat.split)
  moreover have "drop k (us @ [c]) @ take k (t # us @ [c]) = drop (Suc k) ts @ take (Suc k) (c # ts)"
    using Suc.prems(2) ts by (cases k) simp_all
  ultimately show ?case using s1(1) s' by auto
qed simp

theorem yields_take_turns_witness:
  "running_top example_kernel 0 [1, 2] \<and> (\<exists>s'. yields 2 example_kernel = Inr s' \<and> running_top s' 2 [0, 1])"
proof -
  have "running_top example_kernel 0 [1, 2]"
    using example_kernel_inv
    by (simp add: running_top_def example_kernel_def kernel_reset_def example_thread_def list_all_iff)
  then show ?thesis using yields_take_turns [of example_kernel 0 "[1, 2]" 2] by simp
qed

end
