(* ===== verification/Timer.thy ===== *)
theory Timer
  imports Scheduler
begin

text \<open>
  The hard timers of the kernel, \<^verbatim>\<open>rt-thread/src/timer.c\<close>, in the configuration of the
  application: one list (\<open>RT_TIMER_SKIP_LIST_LEVEL\<close> is 1), no soft timers, no hooks installed.

  \<^item> The list \<open>rt_timer_list\<close> is ordered by the time to go. Ticks wrap around, so the order only
    makes sense seen from the present: \<open>ahead s i\<close> is the distance of a timeout from the tick
    before the present one.
  \<^item> \<open>timer_place\<close> is the search of \<open>rt_timer_start\<close> for the place of a timer. The timer thread
    and the soft timers are not configured.
  \<^item> The check of the list at a tick is in the theory of ticks, because it calls the timeout
    function of the threads.
\<close>

section \<open>Operations\<close>

definition RT_TICK_MAX :: u32 where "RT_TICK_MAX = 0xffffffff"

definition HALF_TICK_MAX :: u32 where "HALF_TICK_MAX = RT_TICK_MAX div 2"

lemma half_tick_max [simp]: "HALF_TICK_MAX = 0x7fffffff"
  by (simp add: HALF_TICK_MAX_def RT_TICK_MAX_def)

definition tm_upd :: "timer_id \<Rightarrow> (rt_timer \<Rightarrow> rt_timer) \<Rightarrow> kernel \<Rightarrow> kernel" where
  "tm_upd i f s = s\<lparr>timers := (timers s)(i := f (timers s i))\<rparr>"

definition rt_timer_init_core :: "timer_id \<Rightarrow> u32 \<Rightarrow> bool \<Rightarrow> kernel \<Rightarrow> kernel" where
  "rt_timer_init_core i time flag_periodic s =
     tm_upd i (\<lambda>_. \<lparr>activated = False, periodic = flag_periodic, tm_init_tick = time, timeout_tick = 0\<rparr>) s"

definition rt_timer_list_next_timeout :: "kernel \<Rightarrow> u32" where
  "rt_timer_list_next_timeout s =
     (case rt_timer_list s of [] \<Rightarrow> RT_TICK_MAX | i # _ \<Rightarrow> timeout_tick (timers s i))"

definition rt_timer_next_timeout_tick :: "kernel \<Rightarrow> u32" where
  "rt_timer_next_timeout_tick s = rt_timer_list_next_timeout s"

definition rt_timer_remove :: "timer_id \<Rightarrow> kernel \<Rightarrow> kernel" where
  "rt_timer_remove i s = s\<lparr>rt_timer_list := removeAll i (rt_timer_list s)\<rparr>"

definition rt_timer_init :: "timer_id \<Rightarrow> u32 \<Rightarrow> bool \<Rightarrow> kernel \<Rightarrow> kernel" where
  "rt_timer_init i time flag_periodic s = rt_timer_init_core i time flag_periodic s"

definition rt_timer_detach :: "timer_id \<Rightarrow> kernel \<Rightarrow> int \<times> kernel" where
  "rt_timer_detach i s = (RT_EOK, rt_timer_remove i s)"

text \<open>\<open>mem\<close> says whether the object pool has memory for the timer \<open>i\<close>.\<close>

definition rt_timer_create :: "bool \<Rightarrow> timer_id \<Rightarrow> u32 \<Rightarrow> bool \<Rightarrow> kernel \<Rightarrow> timer_id option \<times> kernel" where
  "rt_timer_create mem i time flag_periodic s =
     (if \<not> mem then (None, s) else (Some i, rt_timer_init_core i time flag_periodic s))"

definition rt_timer_delete :: "timer_id \<Rightarrow> kernel \<Rightarrow> int \<times> kernel" where
  "rt_timer_delete i s = (RT_EOK, rt_timer_remove i s)"

text \<open>
  The place of a timer with timeout \<open>tmo\<close>: before the first one that is later. \<open>f\<close> gives the
  timeouts of the timers in the list.
\<close>

fun timer_place :: "(timer_id \<Rightarrow> u32) \<Rightarrow> u32 \<Rightarrow> timer_id \<Rightarrow> timer_id list \<Rightarrow> timer_id list" where
  "timer_place f tmo i [] = [i]"
| "timer_place f tmo i (t # ts) =
     (if f t - tmo = 0 then t # timer_place f tmo i ts
      else if f t - tmo < HALF_TICK_MAX then i # t # ts
      else t # timer_place f tmo i ts)"

definition rt_timer_start :: "timer_id \<Rightarrow> kernel \<Rightarrow> fault + int \<times> kernel" where
  "rt_timer_start i s =
     (let s = rt_timer_remove i s;
          s = tm_upd i (\<lambda>t. t\<lparr>activated := False\<rparr>) s
      in if \<not> tm_init_tick (timers s i) < HALF_TICK_MAX then Inl Assert_Fail
         else
           let tmo = rt_tick s + tm_init_tick (timers s i);
               s = tm_upd i (\<lambda>t. t\<lparr>timeout_tick := tmo\<rparr>) s;
               s = s\<lparr>rt_timer_list := timer_place (\<lambda>j. timeout_tick (timers s j)) tmo i (rt_timer_list s)\<rparr>
           in Inr (RT_EOK, tm_upd i (\<lambda>t. t\<lparr>activated := True\<rparr>) s))"

definition rt_timer_stop :: "timer_id \<Rightarrow> kernel \<Rightarrow> int \<times> kernel" where
  "rt_timer_stop i s =
     (if \<not> activated (timers s i) then (- RT_ERROR, s)
      else (RT_EOK, tm_upd i (\<lambda>t. t\<lparr>activated := False\<rparr>) (rt_timer_remove i s)))"

text \<open>
  The command of \<open>rt_timer_control\<close> with its argument. The second result is what \<open>GET_TIME\<close> writes
  through its argument.
\<close>

datatype timer_cmd =
    RT_TIMER_CTRL_SET_TIME u32
  | RT_TIMER_CTRL_GET_TIME
  | RT_TIMER_CTRL_SET_ONESHOT
  | RT_TIMER_CTRL_SET_PERIODIC

definition rt_timer_control :: "timer_id \<Rightarrow> timer_cmd \<Rightarrow> kernel \<Rightarrow> int \<times> u32 option \<times> kernel" where
  "rt_timer_control i cmd s =
     (case cmd of
        RT_TIMER_CTRL_GET_TIME \<Rightarrow> (RT_EOK, Some (tm_init_tick (timers s i)), s)
      | RT_TIMER_CTRL_SET_TIME time \<Rightarrow> (RT_EOK, None, tm_upd i (\<lambda>t. t\<lparr>tm_init_tick := time\<rparr>) s)
      | RT_TIMER_CTRL_SET_ONESHOT \<Rightarrow> (RT_EOK, None, tm_upd i (\<lambda>t. t\<lparr>periodic := False\<rparr>) s)
      | RT_TIMER_CTRL_SET_PERIODIC \<Rightarrow> (RT_EOK, None, tm_upd i (\<lambda>t. t\<lparr>periodic := True\<rparr>) s))"

definition rt_system_timer_init :: "kernel \<Rightarrow> kernel" where
  "rt_system_timer_init s = s\<lparr>rt_timer_list := []\<rparr>"

section \<open>Frame\<close>

lemma tm_upd_simps [simp]:
  "timers (tm_upd i f s) = (timers s)(i := f (timers s i))"
  "rt_timer_list (tm_upd i f s) = rt_timer_list s" "rt_tick (tm_upd i f s) = rt_tick s"
  "threads (tm_upd i f s) = threads s" "lists (tm_upd i f s) = lists s" "cur (tm_upd i f s) = cur s"
  "rt_thread_ready_priority_group (tm_upd i f s) = rt_thread_ready_priority_group s"
  "rt_current_priority (tm_upd i f s) = rt_current_priority s"
  "rt_scheduler_lock_nest (tm_upd i f s) = rt_scheduler_lock_nest s"
  "rt_interrupt_nest (tm_upd i f s) = rt_interrupt_nest s"
  by (simp_all add: tm_upd_def)

lemma timer_remove_simps [simp]:
  "rt_timer_list (rt_timer_remove i s) = removeAll i (rt_timer_list s)"
  "timers (rt_timer_remove i s) = timers s" "rt_tick (rt_timer_remove i s) = rt_tick s"
  "threads (rt_timer_remove i s) = threads s" "lists (rt_timer_remove i s) = lists s" "cur (rt_timer_remove i s) = cur s"
  "rt_thread_ready_priority_group (rt_timer_remove i s) = rt_thread_ready_priority_group s"
  "rt_current_priority (rt_timer_remove i s) = rt_current_priority s"
  "rt_scheduler_lock_nest (rt_timer_remove i s) = rt_scheduler_lock_nest s"
  "rt_interrupt_nest (rt_timer_remove i s) = rt_interrupt_nest s"
  by (simp_all add: rt_timer_remove_def)

text \<open>The timer operations change nothing but the timers.\<close>

definition timer_frame :: "kernel \<Rightarrow> kernel \<Rightarrow> bool" where
  "timer_frame s s' \<longleftrightarrow> threads s' = threads s \<and> lists s' = lists s \<and> cur s' = cur s \<and>
     rt_thread_ready_priority_group s' = rt_thread_ready_priority_group s \<and>
     rt_scheduler_lock_nest s' = rt_scheduler_lock_nest s \<and>
     rt_interrupt_nest s' = rt_interrupt_nest s \<and> rt_tick s' = rt_tick s"

lemma timer_frame_inv: "timer_frame s s' \<Longrightarrow> sched_inv_ex T s' \<longleftrightarrow> sched_inv_ex T s"
  unfolding timer_frame_def sched_inv_ex_def ready_bits_def links_once_def heads_ok_def prios_ok_def stats_ok_def
  by (elim conjE) (simp only:)

section \<open>The order of the list\<close>

definition ahead_at :: "u32 \<Rightarrow> u32 \<Rightarrow> nat" where
  "ahead_at now tmo = unat (tmo - now + 1)"

abbreviation ahead :: "kernel \<Rightarrow> timer_id \<Rightarrow> nat" where
  "ahead s i \<equiv> ahead_at (rt_tick s) (timeout_tick (timers s i))"

lemma window_cmp:
  fixes x y :: u32
  assumes "unat x \<le> 0x7fffffff" "1 \<le> unat y" "unat y \<le> 0x7fffffff"
  shows "x - y = 0 \<longleftrightarrow> unat x = unat y" "x \<noteq> y \<Longrightarrow> x - y < 0x7fffffff \<longleftrightarrow> unat y < unat x"
proof -
  show "x - y = 0 \<longleftrightarrow> unat x = unat y" by (metis eq_iff_diff_eq_0 word_unat_eq_iff)
  assume ne: "x \<noteq> y"
  then have u: "unat x \<noteq> unat y" by (simp add: word_unat_eq_iff)
  show "x - y < 0x7fffffff \<longleftrightarrow> unat y < unat x"
  proof (cases "unat y < unat x")
    case True
    then have "unat (x - y) = unat x - unat y" by (intro unat_sub) (simp add: word_le_nat_alt)
    then show ?thesis using True assms by (simp add: word_less_nat_alt)
  next
    case False
    then have "unat (x - y) = 2 ^ 32 + unat x - unat y"
      using u by (simp add: unat_sub_if')
    then show ?thesis using False assms by (simp add: word_less_nat_alt)
  qed
qed

text \<open>The timeout a timer of \<open>d\<close> ticks gets at \<open>now\<close>.\<close>

lemma ahead_new: "(d :: u32) < 0x7fffffff \<Longrightarrow> ahead_at now (now + d) = unat d + 1"
proof -
  assume "d < 0x7fffffff"
  then have "unat d + 1 < 2 ^ 32" by (simp add: word_less_nat_alt)
  then have "unat (d + 1) = unat d + 1" by (simp add: unat_plus_if')
  then show ?thesis by (simp add: ahead_at_def)
qed

lemma timer_place_after:
  assumes "\<forall>t \<in> set ts. ahead_at now (f t) \<le> 0x7fffffff" "d < 0x7fffffff" "f i = now + d"
  shows "timer_place f (now + d) i ts = place_after (\<lambda>t. ahead_at now (f t)) i ts"
  using assms(1)
proof (induction ts)
  case (Cons t ts)
  obtain x where x: "x = f t - now + 1" by blast
  obtain y where y: "y = now + d - now + 1" by blast
  have ux: "ahead_at now (f t) = unat x" by (simp add: ahead_at_def x)
  have uy: "unat d + 1 = unat y" using ahead_new [OF assms(2), of now] by (simp add: ahead_at_def y)
  have xy: "f t - (now + d) = x - y" by (simp add: x y)
  have "unat d < 0x7fffffff" using assms(2) by (simp add: word_less_nat_alt)
  then have "unat x \<le> 0x7fffffff" "1 \<le> unat y" "unat y \<le> 0x7fffffff"
    using Cons.prems ux uy by simp_all
  note cmp = window_cmp [OF this]
  have "f t - (now + d) = 0 \<longleftrightarrow> ahead_at now (f t) = unat d + 1"
    unfolding xy ux uy by (rule cmp(1))
  moreover have "f t - (now + d) \<noteq> 0 \<Longrightarrow> f t - (now + d) < 0x7fffffff \<longleftrightarrow> unat d + 1 < ahead_at now (f t)"
    unfolding xy ux uy by (rule cmp(2)) simp
  moreover have "ahead_at now (f i) = unat d + 1" using ahead_new [OF assms(2), of now] assms(3) by simp
  ultimately show ?case using Cons by auto
qed simp

section \<open>The invariant of the timers\<close>

text \<open>
  The timers in the list are active, and the list is ordered by the time to go, which is less
  than half the range of the ticks. The lower bound \<open>m\<close> is 1 between the ticks: no timer that is
  overdue waits. While a tick is being handled it is 0. The timer of a thread is never periodic.
\<close>

definition timers_ok :: "nat \<Rightarrow> kernel \<Rightarrow> bool" where
  "timers_ok m s \<longleftrightarrow> distinct (rt_timer_list s) \<and> sorted (map (ahead s) (rt_timer_list s)) \<and>
     (\<forall>i \<in> set (rt_timer_list s). activated (timers s i) \<and> m \<le> ahead s i \<and> ahead s i \<le> 0x7fffffff) \<and>
     (\<forall>t. \<not> periodic (timers s (Thread_Timer t)))"

lemma timers_ok_cong:
  assumes "rt_timer_list s' = rt_timer_list s" "rt_tick s' = rt_tick s"
    "\<And>i. i \<in> set (rt_timer_list s) \<Longrightarrow> activated (timers s' i) = activated (timers s i) \<and>
       timeout_tick (timers s' i) = timeout_tick (timers s i)"
    "\<And>t. periodic (timers s' (Thread_Timer t)) = periodic (timers s (Thread_Timer t))"
  shows "timers_ok m s' \<longleftrightarrow> timers_ok m s"
proof -
  have m: "map (ahead s') (rt_timer_list s) = map (ahead s) (rt_timer_list s)"
    using assms by simp
  show ?thesis unfolding timers_ok_def assms(1) m using assms(2,3,4) by auto
qed

lemma timer_remove_ok: "timers_ok m s \<Longrightarrow> timers_ok m (rt_timer_remove i s)"
  by (auto simp: timers_ok_def sorted_removeAll distinct_removeAll)

text \<open>No timer gets another timeout, period or mode.\<close>

definition timers_kept :: "kernel \<Rightarrow> kernel \<Rightarrow> bool" where
  "timers_kept s s' \<longleftrightarrow> (\<forall>i. timeout_tick (timers s' i) = timeout_tick (timers s i) \<and>
     periodic (timers s' i) = periodic (timers s i) \<and> tm_init_tick (timers s' i) = tm_init_tick (timers s i))"

lemma timers_kept_same: "timers s' = timers s \<Longrightarrow> timers_kept s s'"
  by (simp add: timers_kept_def)

lemma timer_stop_kept: "timers_kept s (snd (rt_timer_stop i s))"
  by (simp add: timers_kept_def rt_timer_stop_def)

lemma timer_stop_ok:
  assumes "timers_ok m s"
  shows "timers_ok m (snd (rt_timer_stop i s))" "i \<notin> set (rt_timer_list (snd (rt_timer_stop i s)))"
    "timer_frame s (snd (rt_timer_stop i s))" "\<not> activated (timers (snd (rt_timer_stop i s)) i)"
    "set (rt_timer_list (snd (rt_timer_stop i s))) = set (rt_timer_list s) - {i}"
    "\<And>j. j \<noteq> i \<Longrightarrow> timers (snd (rt_timer_stop i s)) j = timers s j"
proof -
  let ?s = "tm_upd i (\<lambda>t. t\<lparr>activated := False\<rparr>) (rt_timer_remove i s)"
  have ok: "timers_ok m ?s"
    using timers_ok_cong [of ?s "rt_timer_remove i s" m] timer_remove_ok [OF assms, of i] by simp
  have i: "i \<notin> set (rt_timer_list s)" if "\<not> activated (timers s i)"
    using assms that by (auto simp: timers_ok_def)
  show "timers_ok m (snd (rt_timer_stop i s))" using assms ok by (simp add: rt_timer_stop_def)
  show "i \<notin> set (rt_timer_list (snd (rt_timer_stop i s)))" "\<not> activated (timers (snd (rt_timer_stop i s)) i)"
    using i by (auto simp: rt_timer_stop_def)
  show "timer_frame s (snd (rt_timer_stop i s))" by (simp add: timer_frame_def rt_timer_stop_def)
  show "set (rt_timer_list (snd (rt_timer_stop i s))) = set (rt_timer_list s) - {i}"
    using i by (auto simp: rt_timer_stop_def)
  show "timers (snd (rt_timer_stop i s)) j = timers s j" if "j \<noteq> i" for j
    using that by (simp add: rt_timer_stop_def)
qed

text \<open>The timer after a start at tick \<open>now\<close>.\<close>

definition started :: "u32 \<Rightarrow> rt_timer \<Rightarrow> rt_timer" where
  "started now t = t\<lparr>activated := True, timeout_tick := now + tm_init_tick t\<rparr>"

lemma timer_start_ok:
  assumes "timers_ok m s" "tm_init_tick (timers s i) < 0x7fffffff" "m \<le> 1"
  shows "\<exists>s'. rt_timer_start i s = Inr (RT_EOK, s') \<and> timers_ok m s' \<and> timer_frame s s' \<and>
    timers s' = (timers s)(i := started (rt_tick s) (timers s i)) \<and>
    rt_timer_list s' = place_after (ahead s') i (removeAll i (rt_timer_list s)) \<and>
    ahead s' i = unat (tm_init_tick (timers s i)) + 1"
proof -
  let ?d = "tm_init_tick (timers s i)" and ?now = "rt_tick s"
  obtain s' where start: "rt_timer_start i s = Inr (RT_EOK, s')"
    using assms(2) by (simp add: rt_timer_start_def Let_def)
  have now: "rt_tick s' = ?now" using start by (auto simp: rt_timer_start_def Let_def split: if_splits)
  have tms: "timers s' = (timers s)(i := started ?now (timers s i))"
    using start by (auto simp: rt_timer_start_def Let_def started_def split: if_splits)
  have a: "ahead s' i = unat ?d + 1" using ahead_new [OF assms(2)] by (simp add: tms now started_def)
  have l: "rt_timer_list s' = place_after (ahead s') i (removeAll i (rt_timer_list s))"
  proof -
    have "rt_timer_list s' =
        timer_place (\<lambda>j. timeout_tick (timers s' j)) (?now + ?d) i (removeAll i (rt_timer_list s))"
      using start by (auto simp: rt_timer_start_def Let_def tms started_def
          intro!: arg_cong [of _ _ "\<lambda>f. timer_place f _ _ _"] ext split: if_splits)
    also have "\<dots> = place_after (ahead s') i (removeAll i (rt_timer_list s))"
      unfolding now using assms by (intro timer_place_after) (auto simp: timers_ok_def tms started_def)
    finally show ?thesis .
  qed
  have "timer_frame s s'"
    using start by (auto simp: timer_frame_def rt_timer_start_def Let_def split: if_splits)
  moreover have "timers_ok m s'"
  proof -
    have keys: "map (ahead s') (removeAll i (rt_timer_list s)) = map (ahead s) (removeAll i (rt_timer_list s))"
      by (simp add: now tms)
    have "sorted (map (ahead s) (removeAll i (rt_timer_list s)))"
      using assms(1) by (simp add: timers_ok_def sorted_removeAll)
    then have "sorted (map (ahead s') (rt_timer_list s'))"
      unfolding l sorted_place_after keys .
    moreover have "distinct (rt_timer_list s')"
      using assms(1) by (simp add: l distinct_removeAll timers_ok_def)
    moreover have "ahead s' i \<le> 0x7fffffff" using a assms(2) by (simp add: word_less_nat_alt)
    moreover have "activated (timers s' j) \<and> m \<le> ahead s' j \<and> ahead s' j \<le> 0x7fffffff" if "j \<in> set (rt_timer_list s)" "j \<noteq> i" for j
      using assms(1) that by (simp add: timers_ok_def tms now)
    moreover have "m \<le> ahead s' i" using a assms(3) by simp
    moreover have "\<not> periodic (timers s' (Thread_Timer t))" for t
      using assms(1) by (auto simp: timers_ok_def tms started_def)
    ultimately show ?thesis unfolding timers_ok_def by (auto simp: l tms started_def)
  qed
  ultimately show ?thesis using start tms l a by blast
qed

lemma timer_start_refused:
  "\<not> tm_init_tick (timers s i) < 0x7fffffff \<Longrightarrow> rt_timer_start i s = Inl Assert_Fail"
  by (simp add: rt_timer_start_def)

lemma timer_stop_absent: "rt_timer_stop i s = (r, s') \<Longrightarrow> timers_ok m s \<Longrightarrow> i \<notin> set (rt_timer_list s')"
  using timer_stop_ok(2) [of m s i] by simp

end
