(* ===== verification/Thread.thy ===== *)
theory Thread
  imports Timer Hardware
begin

text \<open>
  Threads, \<^verbatim>\<open>rt-thread/src/thread.c\<close>.

  \<^item> A thread is its control block in the kernel state; its stack, entry and name are not
    modelled, and neither is the object container that \<open>rt_thread_find\<close> searches.
  \<^item> An assertion that fails is the fault \<open>Assert_Fail\<close> (\<open>RT_DEBUG\<close> is configured). The
    assertions on the object type hold by typing.
  \<^item> A call that blocks is split where it switches the context: \<open>rt_thread_sleep\<close> ends with
    \<open>rt_schedule\<close>, and \<open>rt_thread_sleep_wake\<close> is the rest, run when the thread is current again.
\<close>

section \<open>Suspending and resuming\<close>

definition rt_thread_suspend :: "tid \<Rightarrow> kernel \<Rightarrow> fault + int \<times> kernel" where
  "rt_thread_suspend t s =
     (let st = stat_of s t
      in if st \<noteq> RT_THREAD_READY \<and> st \<noteq> RT_THREAD_RUNNING then Inr (- RT_ERROR, s)
         else if st = RT_THREAD_RUNNING \<and> rt_thread_self s \<noteq> Some t then Inl Assert_Fail
         else
           let s = rt_schedule_remove_thread t s;
               s = thr_upd t (\<lambda>r. r\<lparr>stat := RT_THREAD_SUSPEND\<rparr>) s;
               s = snd (rt_timer_stop (Thread_Timer t) s)
           in Inr (RT_EOK, s))"

definition rt_thread_resume :: "tid \<Rightarrow> kernel \<Rightarrow> int \<times> kernel" where
  "rt_thread_resume t s =
     (if stat_of s t \<noteq> RT_THREAD_SUSPEND then (- RT_ERROR, s)
      else
        let s = unlink t s;
            s = snd (rt_timer_stop (Thread_Timer t) s)
        in (RT_EOK, rt_schedule_insert_thread t s))"

definition rt_thread_timeout :: "tid \<Rightarrow> kernel \<Rightarrow> fault + kernel" where
  "rt_thread_timeout t s =
     (if stat_of s t \<noteq> RT_THREAD_SUSPEND then Inl Assert_Fail
      else
        let s = thr_upd t (\<lambda>r. r\<lparr>error := - RT_ETIMEOUT\<rparr>) s;
            s = unlink t s;
            s = rt_schedule_insert_thread t s
        in rt_schedule s)"

section \<open>Life of a thread\<close>

text \<open>\<open>system\<close> says whether the object is static.\<close>

definition rt_thread_init_core :: "tid \<Rightarrow> bool \<Rightarrow> u8 \<Rightarrow> u32 \<Rightarrow> kernel \<Rightarrow> fault + kernel" where
  "rt_thread_init_core t system priority tick s =
     (if \<not> unat priority < RT_THREAD_PRIORITY_MAX then Inl Assert_Fail
      else
        let s = thr_upd t (\<lambda>r. r\<lparr>init_priority := unat priority, current_priority := unat priority,
                  number_mask := 0, init_tick := tick, remaining_tick := tick, error := RT_EOK,
                  stat := RT_THREAD_INIT, has_cleanup := False, is_system := system\<rparr>) s
        in Inr (rt_timer_init (Thread_Timer t) 0 False s))"

definition rt_thread_init :: "tid \<Rightarrow> u8 \<Rightarrow> u32 \<Rightarrow> kernel \<Rightarrow> fault + int \<times> kernel" where
  "rt_thread_init t priority tick s =
     rbind (rt_thread_init_core t True priority tick s) (\<lambda>s. Inr (RT_EOK, s))"

text \<open>\<open>mem_obj\<close> and \<open>mem_stack\<close> say whether the heap has room for the thread and its stack.\<close>

definition rt_thread_create ::
  "bool \<Rightarrow> bool \<Rightarrow> tid \<Rightarrow> u8 \<Rightarrow> u32 \<Rightarrow> kernel \<Rightarrow> fault + tid option \<times> kernel" where
  "rt_thread_create mem_obj mem_stack t priority tick s =
     (if \<not> mem_obj then Inr (None, s)
      else if \<not> mem_stack then Inr (None, s)
      else rbind (rt_thread_init_core t False priority tick s) (\<lambda>s. Inr (Some t, s)))"

definition rt_thread_startup :: "tid \<Rightarrow> kernel \<Rightarrow> fault + int \<times> kernel" where
  "rt_thread_startup t s =
     (if stat_of s t \<noteq> RT_THREAD_INIT then Inl Assert_Fail
      else
        let p = init_priority (threads s t);
            s = thr_upd t (\<lambda>r. r\<lparr>current_priority := p, number_mask := push_bit p 1, stat := RT_THREAD_SUSPEND\<rparr>) s;
            s = snd (rt_thread_resume t s)
        in if rt_thread_self s \<noteq> None then rbind (rt_schedule s) (\<lambda>s. Inr (RT_EOK, s)) else Inr (RT_EOK, s))"

definition rt_thread_exit :: "kernel \<Rightarrow> fault + kernel" where
  "rt_thread_exit s =
     (case rt_thread_self s of
        None \<Rightarrow> Inl Null_Deref
      | Some t \<Rightarrow>
          let s = rt_schedule_remove_thread t s;
              s = thr_upd t (\<lambda>r. r\<lparr>stat := RT_THREAD_CLOSE\<rparr>) s;
              s = snd (rt_timer_detach (Thread_Timer t) s);
              s = (if is_system (threads s t) \<and> \<not> has_cleanup (threads s t) then s
                   else link_first Defunct_List t s)
          in rt_schedule s)"

definition rt_thread_detach :: "tid \<Rightarrow> kernel \<Rightarrow> fault + int \<times> kernel" where
  "rt_thread_detach t s =
     (if \<not> is_system (threads s t) then Inl Assert_Fail
      else
        let s = (if stat_of s t \<noteq> RT_THREAD_INIT then rt_schedule_remove_thread t s else s);
            s = snd (rt_timer_detach (Thread_Timer t) s);
            s = thr_upd t (\<lambda>r. r\<lparr>stat := RT_THREAD_CLOSE\<rparr>) s;
            s = (if is_system (threads s t) \<and> \<not> has_cleanup (threads s t) then s
                 else link_first Defunct_List t s)
        in Inr (RT_EOK, s))"

definition rt_thread_delete :: "tid \<Rightarrow> kernel \<Rightarrow> fault + int \<times> kernel" where
  "rt_thread_delete t s =
     (if is_system (threads s t) then Inl Assert_Fail
      else
        let s = (if stat_of s t \<noteq> RT_THREAD_INIT then rt_schedule_remove_thread t s else s);
            s = snd (rt_timer_detach (Thread_Timer t) s);
            s = thr_upd t (\<lambda>r. r\<lparr>stat := RT_THREAD_CLOSE\<rparr>) s
        in Inr (RT_EOK, link_first Defunct_List t s))"

section \<open>Yielding and sleeping\<close>

definition rt_thread_yield :: "kernel \<Rightarrow> fault + int \<times> kernel" where
  "rt_thread_yield s = rbind (rt_schedule s) (\<lambda>s. Inr (RT_EOK, s))"

text \<open>The two calls with which a blocking operation sets the timer of a thread and starts it.\<close>

definition arm_timer :: "tid \<Rightarrow> u32 \<Rightarrow> kernel \<Rightarrow> fault + kernel" where
  "arm_timer t tick s =
     (let (_, _, s) = rt_timer_control (Thread_Timer t) (RT_TIMER_CTRL_SET_TIME tick) s
      in rbind (rt_timer_start (Thread_Timer t) s) (\<lambda>(_, s). Inr s))"

definition rt_thread_sleep :: "u32 \<Rightarrow> kernel \<Rightarrow> fault + kernel" where
  "rt_thread_sleep tick s =
     (case rt_thread_self s of
        None \<Rightarrow> Inl Assert_Fail
      | Some t \<Rightarrow>
          rbind (rt_thread_suspend t s) (\<lambda>(_, s).
          rbind (arm_timer t tick s) (\<lambda>s.
          rt_schedule s)))"

definition rt_thread_sleep_wake :: "tid \<Rightarrow> kernel \<Rightarrow> int \<times> kernel" where
  "rt_thread_sleep_wake t s =
     (RT_EOK, if error (threads s t) = - RT_ETIMEOUT then thr_upd t (\<lambda>r. r\<lparr>error := RT_EOK\<rparr>) s else s)"

definition rt_thread_delay :: "u32 \<Rightarrow> kernel \<Rightarrow> fault + kernel" where
  "rt_thread_delay tick s = rt_thread_sleep tick s"

definition rt_thread_mdelay :: "int \<Rightarrow> kernel \<Rightarrow> fault + kernel" where
  "rt_thread_mdelay ms s = rt_thread_sleep (rt_tick_from_millisecond ms) s"

section \<open>Control\<close>

datatype thread_cmd =
    RT_THREAD_CTRL_STARTUP
  | RT_THREAD_CTRL_CLOSE
  | RT_THREAD_CTRL_CHANGE_PRIORITY u8
  | RT_THREAD_CTRL_INFO

definition set_priority :: "u8 \<Rightarrow> tid \<Rightarrow> kernel \<Rightarrow> fault + kernel" where
  "set_priority p t s =
     (if 32 \<le> unat p then Inl Bad_Shift
      else Inr (thr_upd t (\<lambda>r. r\<lparr>current_priority := unat p, number_mask := push_bit (unat p) 1\<rparr>) s))"

definition rt_thread_control :: "tid \<Rightarrow> thread_cmd \<Rightarrow> kernel \<Rightarrow> fault + int \<times> kernel" where
  "rt_thread_control t cmd s =
     (case cmd of
        RT_THREAD_CTRL_CHANGE_PRIORITY p \<Rightarrow>
          if stat_of s t = RT_THREAD_READY then
            rbind (set_priority p t (rt_schedule_remove_thread t s)) (\<lambda>s.
            Inr (RT_EOK, rt_schedule_insert_thread t s))
          else rbind (set_priority p t s) (\<lambda>s. Inr (RT_EOK, s))
      | RT_THREAD_CTRL_STARTUP \<Rightarrow> rt_thread_startup t s
      | RT_THREAD_CTRL_CLOSE \<Rightarrow> rt_thread_delete t s
      | RT_THREAD_CTRL_INFO \<Rightarrow> Inr (RT_EOK, s))"

section \<open>The invariant of the kernel\<close>

text \<open>The scheduler and the timers are in order, and only suspended threads have a timer running.\<close>

definition sleepers_ok :: "kernel \<Rightarrow> bool" where
  "sleepers_ok s \<longleftrightarrow> (\<forall>t. Thread_Timer t \<in> set (rt_timer_list s) \<longrightarrow> stat_of s t = RT_THREAD_SUSPEND)"

definition kernel_inv :: "nat \<Rightarrow> kernel \<Rightarrow> bool" where
  "kernel_inv m s \<longleftrightarrow> sched_inv s \<and> timers_ok m s \<and> sleepers_ok s"

lemma kernel_invD:
  assumes "kernel_inv m s"
  shows "sched_inv s" "sched_inv_ex {} s" "timers_ok m s" "sleepers_ok s"
  using assms by (simp_all add: kernel_inv_def sched_inv_def)

lemma timers_ok_same:
  "rt_timer_list s' = rt_timer_list s \<Longrightarrow> rt_tick s' = rt_tick s \<Longrightarrow> timers s' = timers s \<Longrightarrow> timers_ok m s' = timers_ok m s"
  by (rule timers_ok_cong) simp_all

lemma kernel_inv_schedule:
  assumes "kernel_inv m s" "rt_schedule s = Inr s'"
  shows "kernel_inv m s'"
proof -
  note r = rt_schedule_ok [OF assms(2) kernel_invD(1) [OF assms(1)]]
  note f = sched_frame_fields [OF r(2)]
  have "timers_ok m s'" using timers_ok_same [OF f(2) f(3) f(1)] kernel_invD(3) [OF assms(1)] by simp
  moreover have "sleepers_ok s'" using kernel_invD(4) [OF assms(1)] by (simp add: sleepers_ok_def f(2,14))
  ultimately show ?thesis using r(1) by (simp add: kernel_inv_def)
qed

lemma suspended_not_ready_queue:
  assumes "sched_inv_ex T s" "stat_of s t \<noteq> RT_THREAD_READY"
  shows "t \<notin> set (lists s (Ready_Queue p))"
  using assms by (auto simp: sched_inv_ex_def heads_ok_def head_stat_def)

lemma unlink_inv:
  assumes "sched_inv_ex T s" "stat_of s t \<noteq> RT_THREAD_READY"
  shows "sched_inv_ex T (unlink t s)"
proof -
  have parts: "ready_bits s" "links_once s" "heads_ok s" "prios_ok s" "stats_ok T s"
    using assms(1) by (simp_all add: sched_inv_ex_def)
  have rq: "lists (unlink t s) (Ready_Queue p) = lists s (Ready_Queue p)" for p
    using suspended_not_ready_queue [OF assms] by simp
  have "ready_bits (unlink t s)" using parts(1) unfolding ready_bits_def rq by simp
  moreover have "links_once (unlink t s)" using parts(2) by (auto simp: links_once_def distinct_removeAll)
  moreover have "heads_ok (unlink t s)" using parts(3) by (auto simp: heads_ok_def)
  moreover have "prios_ok (unlink t s)" using parts(4) by (simp add: prios_ok_def)
  moreover have "stats_ok T (unlink t s)" using parts(5) assms(2) by (simp add: stats_ok_def) blast
  ultimately show ?thesis by (simp add: sched_inv_ex_def)
qed

text \<open>Changing a field of a control block that the invariant does not look at.\<close>

lemma field_upd_inv:
  assumes "\<And>r. stat (f r) = stat r" "\<And>r. current_priority (f r) = current_priority r"
    "\<And>r. number_mask (f r) = number_mask r" "\<And>r. init_priority (f r) = init_priority r"
  shows "sched_inv_ex T (thr_upd t f s) \<longleftrightarrow> sched_inv_ex T s"
proof -
  have e: "stat_of (thr_upd t f s) u = stat_of s u" "prio (thr_upd t f s) u = prio s u"
      "number_mask (threads (thr_upd t f s) u) = number_mask (threads s u)"
      "init_priority (threads (thr_upd t f s) u) = init_priority (threads s u)" for u
    using assms by simp_all
  have "ready_bits (thr_upd t f s) = ready_bits s" by (simp only: ready_bits_def thr_upd_simps)
  moreover have "links_once (thr_upd t f s) = links_once s" by (simp only: links_once_def thr_upd_simps)
  moreover have "heads_ok (thr_upd t f s) = heads_ok s" by (simp only: heads_ok_def thr_upd_simps(2) e)
  moreover have "prios_ok (thr_upd t f s) = prios_ok s" by (simp only: prios_ok_def e)
  moreover have "stats_ok T (thr_upd t f s) = stats_ok T s" by (simp only: stats_ok_def thr_upd_simps(2,3) e)
  ultimately show ?thesis by (simp add: sched_inv_ex_def)
qed

lemma sleepers_same:
  assumes "rt_timer_list s' = rt_timer_list s" "\<And>u. stat_of s u = RT_THREAD_SUSPEND \<Longrightarrow> stat_of s' u = RT_THREAD_SUSPEND"
  shows "sleepers_ok s \<Longrightarrow> sleepers_ok s'"
  using assms by (simp add: sleepers_ok_def)

lemma link_inv:
  assumes "sched_inv_ex T s" "\<not> linked s t" "stat_of s t = head_stat l" "\<And>p. l \<noteq> Ready_Queue p"
    "lists s l = us @ vs"
  shows "sched_inv_ex T (s\<lparr>lists := (lists s)(l := us @ t # vs)\<rparr>)"
proof -
  have parts: "ready_bits s" "links_once s" "heads_ok s" "prios_ok s" "stats_ok T s"
    using assms(1) by (simp_all add: sched_inv_ex_def)
  note free = unlinkedD [OF assms(2)]
  let ?s = "s\<lparr>lists := (lists s)(l := us @ t # vs)\<rparr>"
  have mem: "u \<in> set (lists ?s k) \<longleftrightarrow> u \<in> set (lists s k) \<or> u = t \<and> k = l" for u k
    using assms(5) by auto
  have ne: "Ready_Queue p \<noteq> l" for p using assms(4) by metis
  have "ready_bits ?s" using parts(1) ne by (simp add: ready_bits_def)
  moreover have "links_once ?s"
    unfolding links_once_def mem
  proof (intro conjI allI)
    have "distinct (us @ vs)" using parts(2) assms(5) by (metis links_once_def)
    then have "distinct (us @ t # vs)" using free [of l] assms(5) by simp
    then show "distinct (lists ?s k)" for k using parts(2) by (simp add: links_once_def)
    show "u \<in> set (lists s k) \<or> u = t \<and> k = l \<longrightarrow> u \<in> set (lists s k') \<or> u = t \<and> k' = l \<longrightarrow> k = k'" for k k' u
      using parts(2) free unfolding links_once_def by blast
  qed
  moreover have "heads_ok ?s"
    using parts(3) assms(3) ne unfolding heads_ok_def mem by auto
  moreover have "prios_ok ?s" using parts(4) by (simp add: prios_ok_def)
  moreover have "stats_ok T ?s" using parts(5) ne by (simp add: stats_ok_def)
  ultimately show ?thesis by (simp add: sched_inv_ex_def)
qed

text \<open>The status of a thread that is in no list is changed to one that needs no list.\<close>

lemma kernel_inv_timer_frame:
  assumes "timer_frame s s'" "sched_inv s" "timers_ok m s'" "set (rt_timer_list s') \<subseteq> set (rt_timer_list s)" "sleepers_ok s"
  shows "kernel_inv m s'"
proof -
  have "threads s' = threads s" using assms(1) by (simp add: timer_frame_def)
  then have "sleepers_ok s'" using assms(4,5) by (auto simp: sleepers_ok_def)
  then show ?thesis using assms timer_frame_inv by (simp add: kernel_inv_def sched_inv_def)
qed

lemma rt_thread_suspend_ok:
  assumes inv: "kernel_inv m s" and st: "stat_of s t = RT_THREAD_READY \<or> stat_of s t = RT_THREAD_RUNNING"
  shows "\<exists>s'. rt_thread_suspend t s = Inr (RT_EOK, s') \<and> kernel_inv m s' \<and> \<not> linked s' t \<and>
    threads s' = (threads s)(t := (threads s t)\<lparr>stat := RT_THREAD_SUSPEND\<rparr>) \<and>
    (\<forall>l. lists s' l = removeAll t (lists s l)) \<and> cur s' = cur s \<and> rt_tick s' = rt_tick s \<and>
    rt_scheduler_lock_nest s' = rt_scheduler_lock_nest s \<and> rt_interrupt_nest s' = rt_interrupt_nest s \<and>
    rt_timer_list s' = rt_timer_list s \<and> timers_kept s s'"
proof -
  note k = kernel_invD [OF inv]
  let ?s1 = "rt_schedule_remove_thread t s"
  let ?s2 = "thr_upd t (\<lambda>r. r\<lparr>stat := RT_THREAD_SUSPEND\<rparr>) ?s1"
  let ?s3 = "snd (rt_timer_stop (Thread_Timer t) ?s2)"
  have self: "cur s = Some t" if "stat_of s t = RT_THREAD_RUNNING"
    using k(1) that by (simp add: sched_inv_def sched_inv_ex_def stats_ok_def)
  then have run: "rt_thread_suspend t s = Inr (RT_EOK, ?s3)"
    using st by (auto simp: rt_thread_suspend_def rt_thread_self_def Let_def)
  have out: "Thread_Timer t \<notin> set (rt_timer_list s)" using k(4) st by (auto simp: sleepers_ok_def)
  have "sched_inv_ex {t} ?s1" using remove_inv [OF k(2), of t] by simp
  then have "sched_inv_ex ({t} - {t}) ?s2" using st by (intro set_stat_inv) auto
  then have i2: "sched_inv ?s2" by (simp add: sched_inv_def)
  have t2: "timers_ok m ?s2" using timers_ok_same [of ?s2 s] k(3) by simp
  note stop = timer_stop_ok [OF t2, of "Thread_Timer t"]
  have sl: "sleepers_ok ?s2" using k(4) by (simp add: sleepers_ok_def)
  have l3: "rt_timer_list ?s3 = rt_timer_list s" using out by (simp add: rt_timer_stop_def)
  have "kernel_inv m ?s3" using stop sl i2 by (intro kernel_inv_timer_frame [of ?s2]) auto
  moreover have "threads ?s3 = (threads s)(t := (threads s t)\<lparr>stat := RT_THREAD_SUSPEND\<rparr>)"
    using stop(3) by (simp add: timer_frame_def) (simp add: thr_upd_def)
  moreover have "lists ?s3 = lists ?s2" "cur ?s3 = cur ?s2" "rt_tick ?s3 = rt_tick ?s2"
    "rt_scheduler_lock_nest ?s3 = rt_scheduler_lock_nest ?s2" "rt_interrupt_nest ?s3 = rt_interrupt_nest ?s2"
    using stop(3) by (simp_all add: timer_frame_def)
  moreover have "rt_interrupt_nest ?s1 = rt_interrupt_nest s"
    by (simp add: rt_schedule_remove_thread_def Let_def)
  moreover have "timers_kept s ?s3" using timer_stop_kept [of ?s2] by (simp add: timers_kept_def)
  ultimately show ?thesis unfolding run by (intro exI [of _ ?s3] conjI) (simp_all add: linked_def l3)
qed

lemma rt_thread_suspend_refused:
  "stat_of s t \<noteq> RT_THREAD_READY \<Longrightarrow> stat_of s t \<noteq> RT_THREAD_RUNNING \<Longrightarrow>
   rt_thread_suspend t s = Inr (- RT_ERROR, s)"
  by (simp add: rt_thread_suspend_def)

text \<open>What making a thread runnable does.\<close>

definition woken :: "tid \<Rightarrow> kernel \<Rightarrow> kernel \<Rightarrow> bool" where
  "woken t s s' \<longleftrightarrow>
     threads s' = (threads s)(t := (threads s t)\<lparr>stat := stat_of s' t\<rparr>) \<and>
     stat_of s' t = (if cur s = Some t then RT_THREAD_RUNNING else RT_THREAD_READY) \<and>
     (\<forall>l. (\<forall>p. l \<noteq> Ready_Queue p) \<longrightarrow> lists s' l = removeAll t (lists s l)) \<and>
     cur s' = cur s \<and> rt_tick s' = rt_tick s \<and>
     rt_scheduler_lock_nest s' = rt_scheduler_lock_nest s \<and> rt_interrupt_nest s' = rt_interrupt_nest s \<and>
     set (rt_timer_list s') = set (rt_timer_list s) - {Thread_Timer t} \<and> timers_kept s s'"

lemma insert_simps [simp]:
  "rt_tick (rt_schedule_insert_thread t s) = rt_tick s" "timers (rt_schedule_insert_thread t s) = timers s"
  "rt_timer_list (rt_schedule_insert_thread t s) = rt_timer_list s" "cur (rt_schedule_insert_thread t s) = cur s"
  "rt_scheduler_lock_nest (rt_schedule_insert_thread t s) = rt_scheduler_lock_nest s"
  "rt_interrupt_nest (rt_schedule_insert_thread t s) = rt_interrupt_nest s"
  "threads (rt_schedule_insert_thread t s) = (threads s)(t := (threads s t)
      \<lparr>stat := if cur s = Some t then RT_THREAD_RUNNING else RT_THREAD_READY\<rparr>)"
  "(\<And>p. l \<noteq> Ready_Queue p) \<Longrightarrow> lists (rt_schedule_insert_thread t s) l = lists s l"
  by (auto simp: rt_schedule_insert_thread_def Let_def link_last_def thr_upd_def)

lemma wake_core:
  assumes inv: "kernel_inv m s" and st: "stat_of s t = RT_THREAD_SUSPEND"
    and fr: "timer_frame (unlink t s) s2" and ok: "timers_ok m s2"
    and tl: "set (rt_timer_list s2) = set (rt_timer_list s) - {Thread_Timer t}" "timers_kept (unlink t s) s2"
  shows "kernel_inv m (rt_schedule_insert_thread t s2)" "woken t s (rt_schedule_insert_thread t s2)"
proof -
  note k = kernel_invD [OF inv]
  have i1: "sched_inv_ex {} (unlink t s)" using unlink_inv [OF k(2)] st by simp
  have eq: "threads s2 = threads s" "lists s2 = lists (unlink t s)" "cur s2 = cur s" "rt_tick s2 = rt_tick s"
    "rt_scheduler_lock_nest s2 = rt_scheduler_lock_nest s" "rt_interrupt_nest s2 = rt_interrupt_nest s"
    using fr by (simp_all add: timer_frame_def)
  have i2: "sched_inv_ex {} s2" using i1 timer_frame_inv [OF fr] by simp
  have nl: "\<not> linked s2 t" by (simp add: linked_def eq)
  let ?s3 = "rt_schedule_insert_thread t s2"
  have "sched_inv_ex ({} - {t}) ?s3" using insert_inv [OF i2 nl] st eq by simp
  then have i3: "sched_inv ?s3" by (simp add: sched_inv_def)
  have "timers_ok m ?s3" using timers_ok_same [of ?s3 s2] ok by simp
  moreover have "sleepers_ok ?s3" using k(4) tl(1) by (auto simp: sleepers_ok_def eq)
  ultimately show "kernel_inv m ?s3" using i3 by (simp add: kernel_inv_def)
  show "woken t s ?s3" unfolding woken_def using tl by (simp add: eq timers_kept_def)
qed

lemma rt_thread_resume_ok:
  assumes "kernel_inv m s" "stat_of s t = RT_THREAD_SUSPEND"
  shows "\<exists>s'. rt_thread_resume t s = (RT_EOK, s') \<and> kernel_inv m s' \<and> woken t s s'"
proof -
  let ?s2 = "snd (rt_timer_stop (Thread_Timer t) (unlink t s))"
  have "timers_ok m (unlink t s)"
    using timers_ok_same [of "unlink t s" s] kernel_invD(3) [OF assms(1)] by simp
  note stop = timer_stop_ok [OF this, of "Thread_Timer t"]
  show ?thesis
    using wake_core [OF assms stop(3,1) _ timer_stop_kept] stop(5) assms(2) by (simp add: rt_thread_resume_def Let_def)
qed

lemma rt_thread_resume_refused: "stat_of s t \<noteq> RT_THREAD_SUSPEND \<Longrightarrow> rt_thread_resume t s = (- RT_ERROR, s)"
  by (simp add: rt_thread_resume_def)

text \<open>The timer of the thread has been taken from the list before its timeout function is called.\<close>

lemma field_upd_kernel_inv:
  assumes "\<And>r. stat (f r) = stat r" "\<And>r. current_priority (f r) = current_priority r"
    "\<And>r. number_mask (f r) = number_mask r" "\<And>r. init_priority (f r) = init_priority r"
  shows "kernel_inv m (thr_upd t f s) \<longleftrightarrow> kernel_inv m s"
proof -
  have "sched_inv_ex {} (thr_upd t f s) = sched_inv_ex {} s" using assms by (rule field_upd_inv)
  moreover have "timers_ok m (thr_upd t f s) = timers_ok m s" by (rule timers_ok_same) simp_all
  moreover have "sleepers_ok (thr_upd t f s) = sleepers_ok s" using assms(1) by (auto simp: sleepers_ok_def)
  ultimately show ?thesis by (simp add: kernel_inv_def sched_inv_def)
qed

lemma error_upd_inv: "kernel_inv m (thr_upd t (\<lambda>r. r\<lparr>error := e\<rparr>) s) \<longleftrightarrow> kernel_inv m s"
  by (rule field_upd_kernel_inv) simp_all

lemma rt_thread_timeout_ok:
  assumes inv: "kernel_inv m s" and st: "stat_of s t = RT_THREAD_SUSPEND"
    and out: "Thread_Timer t \<notin> set (rt_timer_list s)" and c: "cur s = Some c"
  shows "\<exists>s1 s'. rt_thread_timeout t s = Inr s' \<and> kernel_inv m s' \<and> sched_frame s1 s' \<and> cur s' \<noteq> None \<and>
    woken t (thr_upd t (\<lambda>r. r\<lparr>error := - RT_ETIMEOUT\<rparr>) s) s1 \<and> timers s' = timers s \<and>
    rt_timer_list s' = rt_timer_list s \<and> rt_tick s' = rt_tick s \<and> runnable s' t \<and>
    (\<forall>u. runnable s u \<longrightarrow> runnable s' u) \<and> error (threads s' t) = - RT_ETIMEOUT \<and>
    (\<forall>l. (\<forall>p. l \<noteq> Ready_Queue p) \<longrightarrow> lists s' l = removeAll t (lists s l))"
proof -
  let ?s = "thr_upd t (\<lambda>r. r\<lparr>error := - RT_ETIMEOUT\<rparr>) s"
  let ?s1 = "rt_schedule_insert_thread t (unlink t ?s)"
  have i: "kernel_inv m ?s" "stat_of ?s t = RT_THREAD_SUSPEND" using inv st error_upd_inv by simp_all
  have "timers_ok m (unlink t ?s)"
    using timers_ok_same [of "unlink t ?s" ?s] kernel_invD(3) [OF i(1)] by simp
  note w = wake_core [OF i _ this]
  have w': "kernel_inv m ?s1" "woken t ?s ?s1" by (rule w; use out in \<open>simp add: timer_frame_def timers_kept_def\<close>)+
  obtain s' t' where s': "rt_schedule ?s1 = Inr s'" "sched_frame ?s1 s'" "cur s' = Some t'"
    using rt_schedule_spec [OF kernel_invD(1) [OF w'(1)], of c] c by auto
  have "rt_thread_timeout t s = Inr s'" using s'(1) st by (simp add: rt_thread_timeout_def Let_def)
  moreover note f = sched_frame_fields [OF s'(2)]
  moreover have "runnable ?s1 t" "runnable s u \<Longrightarrow> runnable ?s1 u" for u
    by (simp_all add: runnable_def)
  moreover have "error (threads ?s1 t) = - RT_ETIMEOUT" by simp
  moreover have "lists s' l = removeAll t (lists s l)" if "\<forall>p. l \<noteq> Ready_Queue p" for l
    using s'(2) that unfolding sched_frame_def by simp
  ultimately show ?thesis
    using s'(2,3) w' kernel_inv_schedule [OF w'(1) s'(1)] sched_frame_runnable [OF s'(2)]
    by (intro exI [of _ ?s1] exI [of _ s']) (simp add: f)
qed

section \<open>Sleeping\<close>

lemma arm_timer_ok:
  assumes inv: "kernel_inv m s" and st: "stat_of s t = RT_THREAD_SUSPEND" and d: "d < 0x7fffffff" "m \<le> 1"
    and out: "Thread_Timer t \<notin> set (rt_timer_list s)"
  shows "\<exists>s'. arm_timer t d s = Inr s' \<and> kernel_inv m s' \<and> timer_frame s s' \<and> ahead s' (Thread_Timer t) = unat d + 1 \<and>
    set (rt_timer_list s') = insert (Thread_Timer t) (set (rt_timer_list s)) \<and>
    (\<forall>n. timers s' (Obj_Timer n) = timers s (Obj_Timer n))"
proof -
  note k = kernel_invD [OF inv]
  let ?i = "Thread_Timer t"
  let ?s1 = "tm_upd ?i (\<lambda>r. r\<lparr>tm_init_tick := d\<rparr>) s"
  have t1: "timers_ok m ?s1" using timers_ok_cong [of ?s1 s] k(3) by simp
  obtain s' where s': "rt_timer_start ?i ?s1 = Inr (RT_EOK, s')" "timers_ok m s'" "timer_frame ?s1 s'"
      "rt_timer_list s' = place_after (ahead s') ?i (removeAll ?i (rt_timer_list ?s1))" "ahead s' ?i = unat d + 1"
      "timers s' = (timers ?s1)(?i := started (rt_tick ?s1) (timers ?s1 ?i))"
    using timer_start_ok [OF t1 _ d(2), of ?i] d(1) by auto
  have fr: "timer_frame s s'" using s'(3) by (simp add: timer_frame_def)
  have set: "set (rt_timer_list s') = insert ?i (set (rt_timer_list s))" using s'(4) out by simp
  have "sleepers_ok s'" using k(4) st fr by (auto simp: sleepers_ok_def set timer_frame_def)
  then have "kernel_inv m s'" using k(2) s'(2) timer_frame_inv [OF fr] by (simp add: kernel_inv_def sched_inv_def)
  then show ?thesis using s' fr set by (auto simp: arm_timer_def rt_timer_control_def)
qed

lemma arm_timer_refused: "\<not> d < 0x7fffffff \<Longrightarrow> arm_timer t d s = Inl Assert_Fail"
  by (simp add: arm_timer_def rt_timer_control_def timer_start_refused)

text \<open>Scheduling with a current thread that is suspended moves on to another one.\<close>

lemma schedule_leaves_suspended:
  assumes "sched_inv s" "cur s = Some c" "rt_scheduler_lock_nest s = 0" "stat_of s c = RT_THREAD_SUSPEND"
    "stat_of s u = RT_THREAD_READY" "rt_schedule s = Inr s'"
  shows "\<exists>t. cur s' = Some t \<and> t \<noteq> c \<and> stat_of s' t = RT_THREAD_RUNNING"
proof -
  have g: "rt_thread_ready_priority_group s \<noteq> 0" using no_ready [OF assms(1)] assms(5) by auto
  then have "s' = schedule_from c s" using assms(2,3,6) by (simp add: rt_schedule_def)
  then obtain t where t: "cur s' = Some t" "stat_of s' t = RT_THREAD_RUNNING" "sched_frame s s'"
    using schedule_from_spec [OF assms(1,2) g] by auto
  moreover have "stat_of s' c = RT_THREAD_SUSPEND" using sched_frame_fields(14) [OF t(3)] assms(4) by simp
  ultimately show ?thesis by auto
qed

lemma rt_thread_sleep_ok:
  assumes inv: "kernel_inv m s" and c: "cur s = Some c" "stat_of s c = RT_THREAD_RUNNING" and d: "d < 0x7fffffff" "m \<le> 1"
    and l: "rt_scheduler_lock_nest s = 0" and idle: "stat_of s u = RT_THREAD_READY"
  shows "\<exists>s' t. rt_thread_sleep d s = Inr s' \<and> kernel_inv m s' \<and> cur s' = Some t \<and> t \<noteq> c \<and>
    stat_of s' t = RT_THREAD_RUNNING \<and> stat_of s' c = RT_THREAD_SUSPEND \<and> rt_tick s' = rt_tick s \<and>
    set (rt_timer_list s') = insert (Thread_Timer c) (set (rt_timer_list s)) \<and>
    ahead s' (Thread_Timer c) = unat d + 1 \<and>
    (\<forall>n. periodic (timers s' (Obj_Timer n)) = periodic (timers s (Obj_Timer n)) \<and>
       tm_init_tick (timers s' (Obj_Timer n)) = tm_init_tick (timers s (Obj_Timer n)))"
proof -
  obtain s1 where s1: "rt_thread_suspend c s = Inr (RT_EOK, s1)" "kernel_inv m s1" "cur s1 = cur s"
    "threads s1 = (threads s)(c := (threads s c)\<lparr>stat := RT_THREAD_SUSPEND\<rparr>)" "rt_tick s1 = rt_tick s"
    "rt_scheduler_lock_nest s1 = rt_scheduler_lock_nest s" "rt_timer_list s1 = rt_timer_list s"
    "timers_kept s s1"
    using rt_thread_suspend_ok [OF inv, of c] c(2) by blast
  have "Thread_Timer c \<notin> set (rt_timer_list s1)"
    using kernel_invD(4) [OF inv] c(2) s1(7) by (auto simp: sleepers_ok_def)
  then obtain s2 where s2: "arm_timer c d s1 = Inr s2" "kernel_inv m s2" "timer_frame s1 s2"
      "ahead s2 (Thread_Timer c) = unat d + 1" "set (rt_timer_list s2) = insert (Thread_Timer c) (set (rt_timer_list s1))"
      "\<forall>n. timers s2 (Obj_Timer n) = timers s1 (Obj_Timer n)"
    using arm_timer_ok [OF s1(2) _ d(1,2), of c] s1(4) by auto
  have eq: "threads s2 = threads s1" "cur s2 = Some c" "rt_scheduler_lock_nest s2 = 0" "rt_tick s2 = rt_tick s"
    using s2(3) s1 c l by (simp_all add: timer_frame_def)
  have uc: "u \<noteq> c" using idle c by auto
  obtain s' where s': "rt_schedule s2 = Inr s'" "sched_frame s2 s'"
    using rt_schedule_spec [OF kernel_invD(1) [OF s2(2)] eq(2)] by blast
  obtain t where "cur s' = Some t" "t \<noteq> c" "stat_of s' t = RT_THREAD_RUNNING"
    using schedule_leaves_suspended [OF kernel_invD(1) [OF s2(2)] eq(2,3) _ _ s'(1), of u] s1(4) uc idle eq(1) by auto
  moreover note f = sched_frame_fields [OF s'(2)]
  moreover have "stat_of s' c = RT_THREAD_SUSPEND" using f(14) s1(4) eq(1) by simp
  moreover have "rt_thread_sleep d s = Inr s'" using s1(1) s2(1) s'(1) c by (simp add: rt_thread_sleep_def rt_thread_self_def)
  ultimately show ?thesis using kernel_inv_schedule [OF s2(2) s'(1)] s2(4,5,6) eq(4) s1(7,8)
    by (auto simp: timers_kept_def)
qed

section \<open>Changing the priority\<close>

lemma shift_is_mask: "push_bit n (1 :: u32) = 2 ^ n"
  by (simp add: push_bit_eq_mult)

lemma set_priority_inv:
  assumes "sched_inv_ex T s" "\<And>q. t \<notin> set (lists s (Ready_Queue q))" "stat_of s t = RT_THREAD_READY \<Longrightarrow> t \<in> T"
    "set_priority p t s = Inr s'"
  shows "sched_inv_ex T s'"
proof -
  have parts: "ready_bits s" "links_once s" "heads_ok s" "prios_ok s" "stats_ok T s"
    using assms(1) by (simp_all add: sched_inv_ex_def)
  have p: "unat p < 32" using assms(4) by (simp add: set_priority_def split: if_splits)
  have th: "threads s' = (threads s)(t := (threads s t)\<lparr>current_priority := unat p, number_mask := 2 ^ unat p\<rparr>)"
    and eq: "lists s' = lists s" "cur s' = cur s" "rt_thread_ready_priority_group s' = rt_thread_ready_priority_group s"
    using assms(4) by (auto simp: set_priority_def thr_upd_def shift_is_mask split: if_splits)
  have "ready_bits s'" using parts(1) by (simp only: ready_bits_def eq)
  moreover have "links_once s'" using parts(2) unfolding links_once_def eq .
  moreover have "heads_ok s'" using parts(3) assms(2) by (auto simp: heads_ok_def eq th)
  moreover have "prios_ok s'" using parts(4) p by (simp add: prios_ok_def th)
  moreover have "stats_ok T s'" unfolding stats_ok_def
  proof (intro allI impI)
    fix u assume u: "u \<notin> T"
    show "(stat_of s' u = RT_THREAD_READY \<longrightarrow> cur s' \<noteq> Some u \<and> u \<in> set (lists s' (Ready_Queue (prio s' u)))) \<and>
      (stat_of s' u = RT_THREAD_RUNNING \<longrightarrow> cur s' = Some u)"
      using parts(5) u assms(3) by (cases "u = t") (auto simp: stats_ok_def th eq)
  qed
  ultimately show ?thesis by (simp add: sched_inv_ex_def)
qed

lemma rt_thread_control_priority_ok:
  assumes inv: "kernel_inv m s" and p: "unat p < 32"
  shows "\<exists>s'. rt_thread_control t (RT_THREAD_CTRL_CHANGE_PRIORITY p) s = Inr (RT_EOK, s') \<and> kernel_inv m s' \<and>
    threads s' = (threads s)(t := (threads s t)\<lparr>current_priority := unat p, number_mask := 2 ^ unat p\<rparr>) \<and>
    (\<forall>l. (\<forall>p. l \<noteq> Ready_Queue p) \<longrightarrow> lists s' l = lists s l) \<and> cur s' = cur s \<and> timers s' = timers s \<and>
    rt_timer_list s' = rt_timer_list s \<and> rt_tick s' = rt_tick s \<and>
    rt_scheduler_lock_nest s' = rt_scheduler_lock_nest s \<and> rt_interrupt_nest s' = rt_interrupt_nest s"
proof -
  note k = kernel_invD [OF inv]
  have set: "set_priority p t u = Inr (thr_upd t (\<lambda>r. r\<lparr>current_priority := unat p, number_mask := 2 ^ unat p\<rparr>) u)" for u
    using p by (simp add: set_priority_def shift_is_mask)
  have fin: ?thesis if
    "rt_thread_control t (RT_THREAD_CTRL_CHANGE_PRIORITY p) s = Inr (RT_EOK, s')" "sched_inv s'"
    "threads s' = (threads s)(t := (threads s t)\<lparr>current_priority := unat p, number_mask := 2 ^ unat p\<rparr>)"
    "\<forall>l. (\<forall>p. l \<noteq> Ready_Queue p) \<longrightarrow> lists s' l = lists s l" "cur s' = cur s" "timers s' = timers s"
    "rt_timer_list s' = rt_timer_list s" "rt_tick s' = rt_tick s"
    "rt_scheduler_lock_nest s' = rt_scheduler_lock_nest s" "rt_interrupt_nest s' = rt_interrupt_nest s" for s'
  proof -
    have "timers_ok m s'" using timers_ok_same [OF that(7,8,6)] k(3) by simp
    moreover have "sleepers_ok s'" using k(4) by (auto simp: sleepers_ok_def that(3,7))
    ultimately show ?thesis using that by (auto simp: kernel_inv_def)
  qed
  show ?thesis
  proof (cases "stat_of s t = RT_THREAD_READY")
    case True
    obtain s1 where s1: "s1 = rt_schedule_remove_thread t s" by blast
    obtain s2 where s2: "s2 = thr_upd t (\<lambda>r. r\<lparr>current_priority := unat p, number_mask := 2 ^ unat p\<rparr>) s1" by blast
    have "sched_inv_ex {t} s1" using remove_inv [OF k(2), of t] by (simp add: s1)
    then have i2: "sched_inv_ex {t} s2" by (rule set_priority_inv [OF _ _ _ set [of s1, folded s2]]) (simp_all add: s1)
    have e2: "stat_of s2 t = RT_THREAD_READY" "cur s2 = cur s" "\<not> linked s2 t" using True by (simp_all add: s2 s1)
    have cur: "cur s \<noteq> Some t" using k(2) True by (simp add: sched_inv_ex_def stats_ok_def)
    have nin: "t \<notin> set (lists s l)" if "\<forall>q. l \<noteq> Ready_Queue q" for l
    proof
      assume "t \<in> set (lists s l)"
      then have "head_stat l = RT_THREAD_READY" using k(2) True by (auto simp: sched_inv_ex_def heads_ok_def)
      then show False using that by (cases l) (auto simp: head_stat_def)
    qed
    show ?thesis
    proof (rule fin)
      show "rt_thread_control t (RT_THREAD_CTRL_CHANGE_PRIORITY p) s = Inr (RT_EOK, rt_schedule_insert_thread t s2)"
        using True by (simp add: rt_thread_control_def set s2 s1)
      show "sched_inv (rt_schedule_insert_thread t s2)"
        using insert_inv [OF i2 e2(3)] e2(1) by (simp add: sched_inv_def)
      show "threads (rt_schedule_insert_thread t s2) =
          (threads s)(t := (threads s t)\<lparr>current_priority := unat p, number_mask := 2 ^ unat p\<rparr>)"
        using True cur by (cases "threads s t") (simp add: s2 s1 thr_upd_def)
      show "\<forall>l. (\<forall>p. l \<noteq> Ready_Queue p) \<longrightarrow> lists (rt_schedule_insert_thread t s2) l = lists s l"
        using nin by (simp add: s2 s1)
    qed (simp_all add: s2 s1, simp add: rt_schedule_remove_thread_def Let_def)
  next
    case False
    obtain s1 where s1: "s1 = thr_upd t (\<lambda>r. r\<lparr>current_priority := unat p, number_mask := 2 ^ unat p\<rparr>) s" by blast
    show ?thesis
    proof (rule fin)
      show "rt_thread_control t (RT_THREAD_CTRL_CHANGE_PRIORITY p) s = Inr (RT_EOK, s1)"
        using False by (simp add: rt_thread_control_def set s1)
      show "sched_inv s1"
        unfolding sched_inv_def
        by (rule set_priority_inv [OF k(2) _ _ set [of s, folded s1]])
          (use False suspended_not_ready_queue [OF k(2)] in simp_all)
    qed (simp_all add: s1 thr_upd_def)
  qed
qed

lemma rt_thread_control_priority_refused:
  "32 \<le> unat p \<Longrightarrow> rt_thread_control t (RT_THREAD_CTRL_CHANGE_PRIORITY p) s = Inl Bad_Shift"
  by (simp add: rt_thread_control_def set_priority_def)

section \<open>Starting and closing a thread\<close>

text \<open>A control block that nothing refers to.\<close>

definition unused :: "kernel \<Rightarrow> tid \<Rightarrow> bool" where
  "unused s t \<longleftrightarrow> dormant (stat_of s t) \<and> \<not> linked s t \<and> cur s \<noteq> Some t \<and> Thread_Timer t \<notin> set (rt_timer_list s)"

lemma rt_thread_init_core_ok:
  assumes inv: "kernel_inv m s" and u: "unused s t" and p: "unat p < 32"
  shows "\<exists>s'. rt_thread_init_core t sys p tick s = Inr s' \<and> kernel_inv m s' \<and> unused s' t \<and>
    stat_of s' t = RT_THREAD_INIT \<and> init_priority (threads s' t) = unat p \<and> cur s' = cur s"
proof -
  note k = kernel_invD [OF inv]
  have parts: "ready_bits s" "links_once s" "heads_ok s" "prios_ok s" "stats_ok {} s"
    using k(2) by (simp_all add: sched_inv_ex_def)
  let ?f = "\<lambda>r. r\<lparr>init_priority := unat p, current_priority := unat p,
                  number_mask := 0, init_tick := tick, remaining_tick := tick, error := RT_EOK,
                  stat := RT_THREAD_INIT, has_cleanup := False, is_system := sys\<rparr>"
  obtain s' where s': "rt_thread_init_core t sys p tick s = Inr s'"
    using p by (simp add: rt_thread_init_core_def RT_THREAD_PRIORITY_MAX_def)
  have th: "threads s' = (threads s)(t := ?f (threads s t))" and eq: "lists s' = lists s" "cur s' = cur s"
      "rt_thread_ready_priority_group s' = rt_thread_ready_priority_group s" "rt_timer_list s' = rt_timer_list s"
      "rt_tick s' = rt_tick s" "\<And>i. i \<noteq> Thread_Timer t \<Longrightarrow> timers s' i = timers s i"
    using s' by (auto simp: rt_thread_init_core_def Let_def rt_timer_init_def rt_timer_init_core_def thr_upd_def
        split: if_splits)
  have nl: "t \<notin> set (lists s l)" for l using u by (auto simp: unused_def linked_def)
  have "ready_bits s'" using parts(1) by (simp only: ready_bits_def eq)
  moreover have "links_once s'" using parts(2) unfolding links_once_def eq .
  moreover have "heads_ok s'" using parts(3) nl by (auto simp: heads_ok_def eq th)
  moreover have "prios_ok s'" using parts(4) p by (simp add: prios_ok_def th)
  moreover have "stats_ok {} s'" using parts(5) by (simp add: stats_ok_def th eq)
  ultimately have "sched_inv s'" by (simp add: sched_inv_def sched_inv_ex_def)
  moreover have "timers_ok m s' = timers_ok m s"
  proof (rule timers_ok_cong)
    fix i assume "i \<in> set (rt_timer_list s)"
    then have "i \<noteq> Thread_Timer t" using u by (auto simp: unused_def)
    then have "timers s' i = timers s i" by (rule eq(6))
    then show "activated (timers s' i) = activated (timers s i) \<and> timeout_tick (timers s' i) = timeout_tick (timers s i)"
      by simp
  next
    fix u
    have "\<not> periodic (timers s (Thread_Timer u))" using k(3) by (simp add: timers_ok_def)
    then show "periodic (timers s' (Thread_Timer u)) = periodic (timers s (Thread_Timer u))"
      using s' by (auto simp: rt_thread_init_core_def Let_def rt_timer_init_def rt_timer_init_core_def split: if_splits)
  qed (simp_all add: eq)
  moreover have "sleepers_ok s'"
    using k(4) u by (auto simp: sleepers_ok_def unused_def eq th)
  ultimately have "kernel_inv m s'" using k(3) by (simp add: kernel_inv_def)
  moreover have "unused s' t" using u by (simp add: unused_def linked_def eq th)
  ultimately show ?thesis using s' by (simp add: th eq)
qed

lemma rt_thread_init_core_refused:
  "\<not> unat p < 32 \<Longrightarrow> rt_thread_init_core t sys p tick s = Inl Assert_Fail"
  by (simp add: rt_thread_init_core_def RT_THREAD_PRIORITY_MAX_def)

lemma init_unlinked:
  assumes "sched_inv_ex T s" "stat_of s t = RT_THREAD_INIT"
  shows "\<not> linked s t"
proof
  assume "linked s t"
  then obtain l where "t \<in> set (lists s l)" by (auto simp: linked_def)
  then have "head_stat l = RT_THREAD_INIT" using assms by (auto simp: sched_inv_ex_def heads_ok_def)
  then show False by (cases l) (simp_all add: head_stat_def)
qed

lemma start_core:
  assumes inv: "kernel_inv m s" and st: "stat_of s t = RT_THREAD_INIT" and c: "cur s \<noteq> Some t"
  defines "s1 \<equiv> thr_upd t (\<lambda>r. r\<lparr>current_priority := init_priority (threads s t),
     number_mask := push_bit (init_priority (threads s t)) 1, stat := RT_THREAD_SUSPEND\<rparr>) s"
  shows "kernel_inv m s1" "stat_of s1 t = RT_THREAD_SUSPEND" "cur s1 = cur s"
proof -
  note k = kernel_invD [OF inv]
  have parts: "ready_bits s" "links_once s" "heads_ok s" "prios_ok s" "stats_ok {} s"
    using k(2) by (simp_all add: sched_inv_ex_def)
  have nl: "t \<notin> set (lists s l)" for l using init_unlinked [OF k(2) st] by (auto simp: linked_def)
  have eq: "lists s1 = lists s" "cur s1 = cur s" "rt_thread_ready_priority_group s1 = rt_thread_ready_priority_group s"
      "rt_timer_list s1 = rt_timer_list s" "rt_tick s1 = rt_tick s" "timers s1 = timers s"
    by (simp_all add: s1_def)
  have th: "threads s1 = (threads s)(t := (threads s t)\<lparr>current_priority := init_priority (threads s t),
     number_mask := 2 ^ init_priority (threads s t), stat := RT_THREAD_SUSPEND\<rparr>)"
    by (simp add: s1_def thr_upd_def shift_is_mask)
  have "ready_bits s1" using parts(1) by (simp only: ready_bits_def eq)
  moreover have "links_once s1" using parts(2) unfolding links_once_def eq .
  moreover have "heads_ok s1" using parts(3) nl by (auto simp: heads_ok_def eq th)
  moreover have "prios_ok s1" using parts(4) by (simp add: prios_ok_def th)
  moreover have "stats_ok {} s1" using parts(5) by (simp add: stats_ok_def th eq)
  ultimately have "sched_inv s1" by (simp add: sched_inv_def sched_inv_ex_def)
  moreover have "timers_ok m s1" using timers_ok_same [OF eq(4,5,6)] k(3) by simp
  moreover have "sleepers_ok s1" using k(4) by (auto simp: sleepers_ok_def eq th)
  ultimately show "kernel_inv m s1" by (simp add: kernel_inv_def)
  show "stat_of s1 t = RT_THREAD_SUSPEND" "cur s1 = cur s" by (simp_all add: th eq)
qed

lemma rt_thread_startup_ok:
  assumes inv: "kernel_inv m s" and st: "stat_of s t = RT_THREAD_INIT" and c: "cur s \<noteq> Some t"
  shows "\<exists>s'. rt_thread_startup t s = Inr (RT_EOK, s') \<and> kernel_inv m s' \<and>
    runnable s' t \<and> prio s' t = init_priority (threads s t)"
proof -
  let ?s1 = "thr_upd t (\<lambda>r. r\<lparr>current_priority := init_priority (threads s t),
     number_mask := push_bit (init_priority (threads s t)) 1, stat := RT_THREAD_SUSPEND\<rparr>) s"
  note c1 = start_core [OF inv st c]
  obtain s2 where s2: "rt_thread_resume t ?s1 = (RT_EOK, s2)" "kernel_inv m s2" "woken t ?s1 s2"
    using rt_thread_resume_ok [OF c1(1,2)] by blast
  have e2: "cur s2 = cur s" "stat_of s2 t = RT_THREAD_READY" using s2(3) c by (simp_all add: woken_def)
  obtain st where "threads s2 t = (threads ?s1 t)\<lparr>stat := st\<rparr>" using s2(3) by (metis woken_def fun_upd_same)
  then have p2: "prio s2 t = init_priority (threads s t)" by simp
  show ?thesis
  proof (cases "cur s")
    case None
    then show ?thesis using s2 e2 p2 st by (simp add: rt_thread_startup_def Let_def rt_thread_self_def runnable_def)
  next
    case (Some c')
    then obtain s3 where s3: "rt_schedule s2 = Inr s3" "sched_frame s2 s3"
      using rt_schedule_spec [OF kernel_invD(1) [OF s2(2)]] e2 by auto
    have "runnable s3 t" using sched_frame_runnable [OF s3(2)] e2 by (simp add: runnable_def)
    then show ?thesis
      using s2 s3 e2 p2 st Some kernel_inv_schedule [OF s2(2) s3(1)] sched_frame_fields(9) [OF s3(2)]
      by (simp add: rt_thread_startup_def Let_def rt_thread_self_def)
  qed
qed

text \<open>Taking a thread out of everything.\<close>

lemma close_core:
  fixes t :: tid
  assumes inv: "kernel_inv m s"
  defines "s1 \<equiv> if stat_of s t \<noteq> RT_THREAD_INIT then rt_schedule_remove_thread t s else s"
  defines "s2 \<equiv> thr_upd t (\<lambda>r. r\<lparr>stat := RT_THREAD_CLOSE\<rparr>) (rt_timer_remove (Thread_Timer t) s1)"
  shows "kernel_inv m s2" "\<not> linked s2 t" "Thread_Timer t \<notin> set (rt_timer_list s2)"
    "stat_of s2 t = RT_THREAD_CLOSE" "cur s2 = cur s" "\<And>u. u \<noteq> t \<Longrightarrow> threads s2 u = threads s u"
    "lists s2 l = removeAll t (lists s l)"
proof -
  note k = kernel_invD [OF inv]
  have ini: "\<not> linked s t" if "stat_of s t = RT_THREAD_INIT" using init_unlinked [OF k(2) that] .
  then have nl1: "\<not> linked s1 t" by (simp add: s1_def)
  have i1: "sched_inv_ex {t} s1"
    using remove_inv [OF k(2), of t] sched_inv_ex_mono [OF k(2)] by (auto simp: s1_def)
  have e1: "rt_timer_list s1 = rt_timer_list s" "rt_tick s1 = rt_tick s" "timers s1 = timers s" "cur s1 = cur s"
      "threads s1 = threads s" "lists s1 l = removeAll t (lists s l)"
    using ini by (auto simp: s1_def linked_def)
  let ?r = "rt_timer_remove (Thread_Timer t) s1"
  have fr: "timer_frame s1 ?r" by (simp add: timer_frame_def)
  have "sched_inv_ex ({t} - {t}) s2"
    unfolding s2_def by (rule set_stat_inv) (use i1 nl1 timer_frame_inv [OF fr] in \<open>simp_all add: linked_def\<close>)
  moreover have "timers_ok m ?r"
    using timer_remove_ok [of m s1] timers_ok_same [OF e1(1,2,3)] k(3) by simp
  then have "timers_ok m s2" using timers_ok_same [of s2 ?r] by (simp add: s2_def)
  moreover have "sleepers_ok s2" using k(4) by (auto simp: sleepers_ok_def s2_def e1)
  ultimately show "kernel_inv m s2" by (simp add: kernel_inv_def sched_inv_def)
  show "\<not> linked s2 t" using nl1 by (simp add: s2_def linked_def)
  show "Thread_Timer t \<notin> set (rt_timer_list s2)" by (simp add: s2_def)
  show "stat_of s2 t = RT_THREAD_CLOSE" "cur s2 = cur s" "lists s2 l = removeAll t (lists s l)"
    by (simp_all add: s2_def e1)
  show "threads s2 u = threads s u" if "u \<noteq> t" for u using that by (simp add: s2_def e1)
qed

lemma link_first_ok:
  assumes "kernel_inv m s" "\<not> linked s t" "stat_of s t = RT_THREAD_CLOSE"
  shows "kernel_inv m (link_first Defunct_List t s)"
proof -
  note k = kernel_invD [OF assms(1)]
  let ?s = "link_first Defunct_List t s"
  have "sched_inv_ex {} ?s"
    using link_inv [OF k(2) assms(2), of Defunct_List "[]" "lists s Defunct_List"] assms(3)
    by (simp add: link_first_def head_stat_def)
  moreover have "timers_ok m ?s = timers_ok m s" by (rule timers_ok_same) (simp_all add: link_first_def)
  moreover have "sleepers_ok ?s = sleepers_ok s" by (simp add: sleepers_ok_def link_first_def)
  ultimately show ?thesis using k by (simp add: kernel_inv_def sched_inv_def)
qed

lemma rt_thread_delete_ok:
  assumes inv: "kernel_inv m s" and sys: "\<not> is_system (threads s t)"
  shows "\<exists>s'. rt_thread_delete t s = Inr (RT_EOK, s') \<and> kernel_inv m s' \<and> stat_of s' t = RT_THREAD_CLOSE \<and>
    cur s' = cur s \<and> lists s' Defunct_List = t # removeAll t (lists s Defunct_List) \<and>
    (\<forall>n. lists s' (Suspend_List n) = removeAll t (lists s (Suspend_List n))) \<and>
    Thread_Timer t \<notin> set (rt_timer_list s')"
  using close_core [OF inv, of t] link_first_ok [OF close_core(1,2,4) [OF inv, of t]] sys
  by (simp add: rt_thread_delete_def rt_timer_detach_def Let_def) (simp add: link_first_def)

lemma rt_thread_detach_ok:
  assumes inv: "kernel_inv m s" and sys: "is_system (threads s t)"
  shows "\<exists>s'. rt_thread_detach t s = Inr (RT_EOK, s') \<and> kernel_inv m s' \<and> stat_of s' t = RT_THREAD_CLOSE \<and>
    cur s' = cur s \<and> (has_cleanup (threads s t) \<longleftrightarrow> t \<in> set (lists s' Defunct_List)) \<and>
    Thread_Timer t \<notin> set (rt_timer_list s')"
  using close_core [OF inv, of t] link_first_ok [OF close_core(1,2,4) [OF inv, of t]] sys
  by (cases "has_cleanup (threads s t)")
    (simp add: rt_thread_detach_def rt_timer_detach_def Let_def; simp add: link_first_def)+

lemma remove_close_commute:
  "rt_timer_remove i (thr_upd t f s) = thr_upd t f (rt_timer_remove i s)"
  by (simp add: rt_timer_remove_def thr_upd_def)

lemma rt_thread_exit_ok:
  assumes inv: "kernel_inv m s" and c: "cur s = Some c" "stat_of s c \<noteq> RT_THREAD_INIT"
  shows "\<exists>s'. rt_thread_exit s = Inr s' \<and> kernel_inv m s' \<and> stat_of s' c = RT_THREAD_CLOSE \<and>
    Thread_Timer c \<notin> set (rt_timer_list s') \<and> cur s' \<noteq> None"
proof -
  let ?s2 = "thr_upd c (\<lambda>r. r\<lparr>stat := RT_THREAD_CLOSE\<rparr>) (rt_timer_remove (Thread_Timer c) (rt_schedule_remove_thread c s))"
  have cl: "kernel_inv m ?s2" "\<not> linked ?s2 c" "Thread_Timer c \<notin> set (rt_timer_list ?s2)"
      "stat_of ?s2 c = RT_THREAD_CLOSE" "cur ?s2 = cur s"
    using close_core [OF inv, of c] c(2) by simp_all
  let ?s3 = "if is_system (threads ?s2 c) \<and> \<not> has_cleanup (threads ?s2 c) then ?s2 else link_first Defunct_List c ?s2"
  have s3: "kernel_inv m ?s3" "cur ?s3 = Some c" "stat_of ?s3 c = RT_THREAD_CLOSE" "rt_timer_list ?s3 = rt_timer_list ?s2"
    using cl link_first_ok [OF cl(1,2,4)] c by (simp_all add: link_first_def)
  obtain s' t where s': "rt_schedule ?s3 = Inr s'" "sched_frame ?s3 s'" "cur s' = Some t"
    using rt_schedule_spec [OF kernel_invD(1) [OF s3(1)] s3(2)] by blast
  have "rt_thread_exit s = rt_schedule ?s3"
    using c by (simp add: rt_thread_exit_def rt_thread_self_def rt_timer_detach_def Let_def remove_close_commute)
  moreover note f = sched_frame_fields [OF s'(2)]
  ultimately show ?thesis
    using s' s3 cl(3) kernel_inv_schedule [OF s3(1) s'(1)] f(15) f(2) by auto
qed

section \<open>Critical sections\<close>

lemma lock_nest_inv [simp]: "kernel_inv m (s\<lparr>rt_scheduler_lock_nest := n\<rparr>) \<longleftrightarrow> kernel_inv m s"
proof -
  let ?s = "s\<lparr>rt_scheduler_lock_nest := n\<rparr>"
  have "sched_inv ?s = sched_inv s"
    by (simp add: sched_inv_def sched_inv_ex_def ready_bits_def links_once_def heads_ok_def prios_ok_def stats_ok_def)
  moreover have "timers_ok m ?s = timers_ok m s" by (rule timers_ok_same) simp_all
  moreover have "sleepers_ok ?s = sleepers_ok s" by (simp add: sleepers_ok_def)
  ultimately show ?thesis by (simp add: kernel_inv_def)
qed

lemma nest_inv [simp]: "kernel_inv m (s\<lparr>rt_interrupt_nest := n\<rparr>) \<longleftrightarrow> kernel_inv m s"
proof -
  let ?s = "s\<lparr>rt_interrupt_nest := n\<rparr>"
  have "sched_inv ?s = sched_inv s"
    by (simp add: sched_inv_def sched_inv_ex_def ready_bits_def links_once_def heads_ok_def prios_ok_def stats_ok_def)
  moreover have "timers_ok m ?s = timers_ok m s" by (rule timers_ok_same) simp_all
  moreover have "sleepers_ok ?s = sleepers_ok s" by (simp add: sleepers_ok_def)
  ultimately show ?thesis by (simp add: kernel_inv_def)
qed

lemma rt_enter_critical_inv: "kernel_inv m (rt_enter_critical s) \<longleftrightarrow> kernel_inv m s"
  by (simp add: rt_enter_critical_def)

lemma rt_exit_critical_inv:
  assumes "kernel_inv m s" "rt_exit_critical s = Inr s'"
  shows "kernel_inv m s'"
proof (cases "s16 (rt_scheduler_lock_nest s - 1) \<le> 0")
  case True
  then have "rt_schedule (s\<lparr>rt_scheduler_lock_nest := 0\<rparr>) = Inr s'"
    using assms(2) by (simp add: rt_exit_critical_def Let_def)
  then show ?thesis using kernel_inv_schedule [of m "s\<lparr>rt_scheduler_lock_nest := 0\<rparr>" s'] assms(1) by simp
next
  case False
  then have "s' = s\<lparr>rt_scheduler_lock_nest := s16 (rt_scheduler_lock_nest s - 1)\<rparr>"
    using assms(2) by (simp add: rt_exit_critical_def Let_def)
  then show ?thesis using assms(1) by simp
qed

text \<open>With a current thread the scheduler can be unlocked, and only the states of threads change.\<close>

lemma rt_exit_critical_ok:
  assumes inv: "kernel_inv m s" and c: "cur s \<noteq> None"
  shows "\<exists>s'. rt_exit_critical s = Inr s' \<and> kernel_inv m s' \<and> cur s' \<noteq> None \<and> rt_interrupt_nest s' = rt_interrupt_nest s \<and>
    lists s' Defunct_List = lists s Defunct_List \<and> (\<forall>n. lists s' (Suspend_List n) = lists s (Suspend_List n)) \<and>
    (\<forall>u. is_system (threads s' u) = is_system (threads s u))"
proof -
  have "\<exists>s'. rt_exit_critical s = Inr s' \<and> cur s' \<noteq> None \<and> rt_interrupt_nest s' = rt_interrupt_nest s \<and>
    lists s' Defunct_List = lists s Defunct_List \<and> (\<forall>n. lists s' (Suspend_List n) = lists s (Suspend_List n)) \<and>
    (\<forall>u. is_system (threads s' u) = is_system (threads s u))"
  proof (cases "s16 (rt_scheduler_lock_nest s - 1) \<le> 0")
    case True
    let ?s = "s\<lparr>rt_scheduler_lock_nest := 0\<rparr>"
    have k: "kernel_inv m ?s" using inv by simp
    obtain c' where "cur ?s = Some c'" using c by auto
    then obtain s' t' where s': "rt_schedule ?s = Inr s'" "sched_frame ?s s'" "cur s' = Some t'"
      using rt_schedule_spec [OF kernel_invD(1) [OF k]] by blast
    have "is_system (threads s' u) = is_system (threads ?s u)" for u
    proof -
      have "threads s' u = (threads ?s u)\<lparr>stat := stat_of s' u\<rparr>" using s'(2) unfolding sched_frame_def by blast
      then show ?thesis by (metis rt_thread.select_convs(10) rt_thread.surjective rt_thread.update_convs(1))
    qed
    moreover have "lists s' Defunct_List = lists ?s Defunct_List" "rt_interrupt_nest s' = rt_interrupt_nest ?s"
        "\<forall>n. lists s' (Suspend_List n) = lists ?s (Suspend_List n)"
      using s'(2) by (auto simp: sched_frame_def)
    ultimately show ?thesis using s' True by (simp add: rt_exit_critical_def Let_def)
  qed (use c in \<open>simp add: rt_exit_critical_def Let_def\<close>)
  then show ?thesis using rt_exit_critical_inv [OF inv] by blast
qed

end
