(* ===== verification/Tick.thy ===== *)
theory Tick
  imports Thread
begin

text \<open>
  The clock tick: \<^verbatim>\<open>rt-thread/src/clock.c\<close>, the check of the timers it runs
  (\<open>rt_timer_check\<close> of \<^verbatim>\<open>rt-thread/src/timer.c\<close>), and the interrupt nesting of
  \<^verbatim>\<open>rt-thread/src/irq.c\<close>.

  \<^item> The timeout function of a thread's timer is \<open>rt_thread_timeout\<close>; those of the other timers
    are a parameter \<open>obj\<close> of the model. The locale \<open>timer_callback\<close> states what such a function
    may do; a function that resumes a thread is an instance.
  \<^item> The loop of \<open>rt_timer_check\<close> has fuel. More fuel than timers is enough when no periodic
    timer has a period of 0; with such a timer no fuel is enough.
\<close>

section \<open>Operations\<close>

definition rt_tick_get :: "kernel \<Rightarrow> u32" where
  "rt_tick_get s = rt_tick s"

definition rt_tick_set :: "u32 \<Rightarrow> kernel \<Rightarrow> kernel" where
  "rt_tick_set tick s = s\<lparr>rt_tick := tick\<rparr>"

definition rt_interrupt_enter :: "kernel \<Rightarrow> kernel" where
  "rt_interrupt_enter s = s\<lparr>rt_interrupt_nest := rt_interrupt_nest s + 1\<rparr>"

definition rt_interrupt_leave :: "kernel \<Rightarrow> kernel" where
  "rt_interrupt_leave s = s\<lparr>rt_interrupt_nest := rt_interrupt_nest s - 1\<rparr>"

definition rt_interrupt_get_nest :: "kernel \<Rightarrow> u8" where
  "rt_interrupt_get_nest s = rt_interrupt_nest s"

definition timeout_func :: "(nat \<Rightarrow> kernel \<Rightarrow> fault + kernel) \<Rightarrow> timer_id \<Rightarrow> kernel \<Rightarrow> fault + kernel" where
  "timeout_func obj i s = (case i of Thread_Timer t \<Rightarrow> rt_thread_timeout t s | Obj_Timer n \<Rightarrow> obj n s)"

text \<open>The loop of \<open>rt_timer_check\<close>; \<open>None\<close> is a loop that has not ended.\<close>

fun timer_check_loop ::
  "(nat \<Rightarrow> kernel \<Rightarrow> fault + kernel) \<Rightarrow> nat \<Rightarrow> u32 \<Rightarrow> kernel \<Rightarrow> (fault + kernel) option" where
  "timer_check_loop obj 0 current_tick s = None"
| "timer_check_loop obj (Suc n) current_tick s =
     (case rt_timer_list s of
        [] \<Rightarrow> Some (Inr s)
      | i # _ \<Rightarrow>
          if current_tick - timeout_tick (timers s i) < HALF_TICK_MAX then
            (case timeout_func obj i (rt_timer_remove i s) of
               Inl e \<Rightarrow> Some (Inl e)
             | Inr s \<Rightarrow>
                 let current_tick = rt_tick_get s;
                     again = (periodic (timers s i) \<and> activated (timers s i));
                     s = tm_upd i (\<lambda>t. t\<lparr>activated := False\<rparr>) s
                 in if again then
                      (case rt_timer_start i s of
                         Inl e \<Rightarrow> Some (Inl e)
                       | Inr (_, s) \<Rightarrow> timer_check_loop obj n current_tick s)
                    else timer_check_loop obj n current_tick s)
          else Some (Inr s))"

definition rt_timer_check :: "(nat \<Rightarrow> kernel \<Rightarrow> fault + kernel) \<Rightarrow> nat \<Rightarrow> kernel \<Rightarrow> (fault + kernel) option" where
  "rt_timer_check obj fuel s = timer_check_loop obj fuel (rt_tick_get s) s"

definition rt_tick_increase :: "(nat \<Rightarrow> kernel \<Rightarrow> fault + kernel) \<Rightarrow> nat \<Rightarrow> kernel \<Rightarrow> (fault + kernel) option" where
  "rt_tick_increase obj fuel s =
     (let s = s\<lparr>rt_tick := rt_tick s + 1\<rparr>
      in case rt_thread_self s of
           None \<Rightarrow> Some (Inl Null_Deref)
         | Some t \<Rightarrow>
             let s = thr_upd t (\<lambda>r. r\<lparr>remaining_tick := remaining_tick r - 1\<rparr>) s
             in if remaining_tick (threads s t) = 0 then
                  let s = thr_upd t (\<lambda>r. r\<lparr>remaining_tick := init_tick r\<rparr>) s
                  in case rt_thread_yield s of
                       Inl e \<Rightarrow> Some (Inl e)
                     | Inr (_, s) \<Rightarrow> rt_timer_check obj fuel s
                else rt_timer_check obj fuel s)"

lemma runnable_tick [simp]: "runnable (s\<lparr>rt_tick := x\<rparr>) t \<longleftrightarrow> runnable s t"
  by (simp add: runnable_def)

section \<open>Due timers\<close>

abbreviation due :: "kernel \<Rightarrow> timer_id \<Rightarrow> bool" where
  "due s i \<equiv> ahead s i \<le> 1"

lemma due_cmp:
  assumes "ahead s i \<le> 0x7fffffff"
  shows "rt_tick s - timeout_tick (timers s i) < 0x7fffffff \<longleftrightarrow> due s i"
proof -
  obtain x where x: "x = timeout_tick (timers s i) - rt_tick s + 1" by blast
  have a: "ahead s i = unat x" by (simp add: ahead_at_def x)
  have e: "rt_tick s - timeout_tick (timers s i) = 1 - x" by (simp add: x)
  show ?thesis
  proof (cases "unat x \<le> 1")
    case True
    then have "unat (1 - x) = 1 - unat x" by (simp add: unat_sub_if')
    then show ?thesis using True by (simp add: e a word_less_nat_alt)
  next
    case False
    then have "unat (1 - x) = 2 ^ 32 + 1 - unat x" by (simp add: unat_sub_if')
    then show ?thesis using False assms by (simp add: e a word_less_nat_alt)
  qed
qed

text \<open>One tick on, every timer is one tick nearer.\<close>

lemma ahead_tick:
  assumes "1 \<le> ahead_at now tmo"
  shows "ahead_at (now + 1) tmo = ahead_at now tmo - 1"
proof -
  obtain x where x: "x = tmo - now + 1" by blast
  have "tmo - (now + 1) + 1 = x - 1" by (simp add: x)
  moreover have "1 \<le> x" using assms by (simp add: ahead_at_def x word_le_nat_alt)
  then have "unat (x - 1) = unat x - 1" by (simp add: unat_sub)
  ultimately show ?thesis by (simp add: ahead_at_def x)
qed

section \<open>Timeout functions\<close>

text \<open>
  What a timeout function may do to the rest: it starts no timer and changes none, it keeps the
  tick, it puts no thread into a list of waiting threads, it stops no runnable thread, and when it stops the timer of a thread it has woken it.
\<close>

definition timer_quiet :: "kernel \<Rightarrow> kernel \<Rightarrow> bool" where
  "timer_quiet s s' \<longleftrightarrow> cur s' \<noteq> None \<and> rt_tick s' = rt_tick s \<and> set (rt_timer_list s') \<subseteq> set (rt_timer_list s) \<and>
     (\<forall>i. timeout_tick (timers s' i) = timeout_tick (timers s i) \<and> periodic (timers s' i) = periodic (timers s i) \<and>
        tm_init_tick (timers s' i) = tm_init_tick (timers s i)) \<and>
     (\<forall>l. (\<forall>p. l \<noteq> Ready_Queue p) \<longrightarrow> set (lists s' l) \<subseteq> set (lists s l)) \<and>
     (\<forall>t. runnable s t \<longrightarrow> runnable s' t) \<and>
     (\<forall>t. Thread_Timer t \<in> set (rt_timer_list s) \<longrightarrow> Thread_Timer t \<notin> set (rt_timer_list s') \<longrightarrow> runnable s' t)"

lemma timer_quiet_trans: "timer_quiet s s' \<Longrightarrow> timer_quiet s' s'' \<Longrightarrow> timer_quiet s s''"
  unfolding timer_quiet_def by (elim conjE, intro conjI) (blast | simp)+

text \<open>The contract of the timeout function of an object timer.\<close>

locale timer_callback =
  fixes obj :: "nat \<Rightarrow> kernel \<Rightarrow> fault + kernel"
  assumes obj_ok: "kernel_inv 0 s \<Longrightarrow> cur s \<noteq> None \<Longrightarrow> \<exists>s'. obj n s = Inr s' \<and> kernel_inv 0 s' \<and> timer_quiet s s'"
begin

lemma timeout_func_ok:
  assumes "kernel_inv 0 s" "cur s \<noteq> None" "i \<notin> set (rt_timer_list s)"
    "\<And>t. i = Thread_Timer t \<Longrightarrow> stat_of s t = RT_THREAD_SUSPEND"
  shows "\<exists>s'. timeout_func obj i s = Inr s' \<and> kernel_inv 0 s' \<and> timer_quiet s s' \<and>
    (\<forall>t. i = Thread_Timer t \<longrightarrow> runnable s' t)"
proof (cases i)
  case (Thread_Timer t)
  obtain c where c: "cur s = Some c" using assms(2) by blast
  obtain s1 s' where s': "rt_thread_timeout t s = Inr s'" "kernel_inv 0 s'" "cur s' \<noteq> None" "timers s' = timers s"
    "rt_timer_list s' = rt_timer_list s" "rt_tick s' = rt_tick s" "runnable s' t" "\<forall>u. runnable s u \<longrightarrow> runnable s' u"
    "\<forall>l. (\<forall>p. l \<noteq> Ready_Queue p) \<longrightarrow> lists s' l = removeAll t (lists s l)"
    using rt_thread_timeout_ok [OF assms(1) assms(4) _ c] assms(3) Thread_Timer by blast
  then have "timer_quiet s s'" by (auto simp: timer_quiet_def)
  then show ?thesis using s' Thread_Timer by (simp add: timeout_func_def)
next
  case (Obj_Timer n)
  then show ?thesis using obj_ok [OF assms(1,2), of n] by (simp add: timeout_func_def)
qed

end

text \<open>The periods of the timers in the list are neither 0 nor too long to be started.\<close>

definition periods_ok :: "kernel \<Rightarrow> bool" where
  "periods_ok s \<longleftrightarrow> (\<forall>i \<in> set (rt_timer_list s). periodic (timers s i) \<longrightarrow>
     tm_init_tick (timers s i) \<noteq> 0 \<and> tm_init_tick (timers s i) < 0x7fffffff)"

text \<open>What the check as a whole may do; it restarts timers, but none of a thread.\<close>

definition checked :: "kernel \<Rightarrow> kernel \<Rightarrow> bool" where
  "checked s s' \<longleftrightarrow> cur s' \<noteq> None \<and> rt_tick s' = rt_tick s \<and> set (rt_timer_list s') \<subseteq> set (rt_timer_list s) \<and>
     (\<forall>i. periodic (timers s' i) = periodic (timers s i) \<and> tm_init_tick (timers s' i) = tm_init_tick (timers s i)) \<and>
     (\<forall>t. timeout_tick (timers s' (Thread_Timer t)) = timeout_tick (timers s (Thread_Timer t))) \<and>
     (\<forall>l. (\<forall>p. l \<noteq> Ready_Queue p) \<longrightarrow> set (lists s' l) \<subseteq> set (lists s l)) \<and>
     (\<forall>t. runnable s t \<longrightarrow> runnable s' t) \<and>
     (\<forall>t. Thread_Timer t \<in> set (rt_timer_list s) \<longrightarrow> Thread_Timer t \<notin> set (rt_timer_list s') \<longrightarrow> runnable s' t)"

lemma checked_trans: "checked s s' \<Longrightarrow> checked s' s'' \<Longrightarrow> checked s s''"
  unfolding checked_def by (elim conjE, intro conjI) (blast | simp)+

lemma checked_periods: "checked s s' \<Longrightarrow> periods_ok s \<Longrightarrow> periods_ok s'"
  unfolding checked_def periods_ok_def by (elim conjE) auto

lemma remove_timer_inv: "kernel_inv m s \<Longrightarrow> kernel_inv m (rt_timer_remove i s)"
  by (rule kernel_inv_timer_frame [of s])
    (auto simp: timer_frame_def kernel_inv_def timer_remove_ok)

lemma deactivate_inv:
  assumes "kernel_inv m s" "i \<notin> set (rt_timer_list s)"
  shows "kernel_inv m (tm_upd i (\<lambda>t. t\<lparr>activated := False\<rparr>) s)"
proof -
  let ?s = "tm_upd i (\<lambda>t. t\<lparr>activated := False\<rparr>) s"
  have "timers_ok m ?s = timers_ok m s" by (rule timers_ok_cong) (use assms(2) in auto)
  then show ?thesis
    using assms(1) by (intro kernel_inv_timer_frame [of s]) (auto simp: timer_frame_def kernel_inv_def)
qed

lemma restart_inv:
  assumes inv: "kernel_inv m s" and per: "periodic (timers s i)" and d: "tm_init_tick (timers s i) < 0x7fffffff" "m \<le> 1"
  shows "\<exists>s'. rt_timer_start i s = Inr (RT_EOK, s') \<and> kernel_inv m s' \<and> timer_frame s s' \<and>
    timers s' = (timers s)(i := started (rt_tick s) (timers s i)) \<and>
    set (rt_timer_list s') = insert i (set (rt_timer_list s)) \<and> ahead s' i = unat (tm_init_tick (timers s i)) + 1"
proof -
  note k = kernel_invD [OF inv]
  obtain s' where s': "rt_timer_start i s = Inr (RT_EOK, s')" "timers_ok m s'" "timer_frame s s'"
    "timers s' = (timers s)(i := started (rt_tick s) (timers s i))"
    "rt_timer_list s' = place_after (ahead s') i (removeAll i (rt_timer_list s))"
    "ahead s' i = unat (tm_init_tick (timers s i)) + 1"
    using timer_start_ok [OF k(3) d] by blast
  have th: "threads s' = threads s" using s'(3) by (simp add: timer_frame_def)
  have set: "set (rt_timer_list s') = insert i (set (rt_timer_list s))" by (auto simp: s'(5))
  have "\<not> periodic (timers s (Thread_Timer t))" for t using k(3) by (simp add: timers_ok_def)
  then have "i \<noteq> Thread_Timer t" for t using per by auto
  then have "sleepers_ok s'" using k(4) by (auto simp: sleepers_ok_def th set)
  then have "kernel_inv m s'" using k(2) s'(2) timer_frame_inv [OF s'(3)] by (simp add: kernel_inv_def sched_inv_def)
  then show ?thesis using s' set by blast
qed

lemma head_due_suspended:
  assumes "kernel_inv m s" "rt_timer_list s = Thread_Timer t # is"
  shows "stat_of s t = RT_THREAD_SUSPEND"
  using assms by (simp add: kernel_inv_def sleepers_ok_def)

lemma tick_inv:
  assumes "kernel_inv 1 s"
  shows "kernel_inv 0 (s\<lparr>rt_tick := rt_tick s + 1\<rparr>)"
proof -
  note k = kernel_invD [OF assms]
  let ?s = "s\<lparr>rt_tick := rt_tick s + 1\<rparr>"
  have a: "ahead ?s i = ahead s i - 1" if "i \<in> set (rt_timer_list s)" for i
    using k(3) that by (simp add: timers_ok_def ahead_tick)
  have "map (ahead ?s) (rt_timer_list s) = map (\<lambda>n. n - 1) (map (ahead s) (rt_timer_list s))"
    using a by simp
  moreover have "sorted (map (\<lambda>n. n - 1) ns)" if "sorted ns" for ns :: "nat list"
    using that by (induction ns) (auto simp: diff_le_mono)
  ultimately have "sorted (map (ahead ?s) (rt_timer_list s))" using k(3) by (metis timers_ok_def)
  moreover have "ahead ?s i \<le> 0x7fffffff" if "i \<in> set (rt_timer_list s)" for i
    using a [OF that] k(3) that by (auto simp: timers_ok_def)
  ultimately have "timers_ok 0 ?s" using k(3) unfolding timers_ok_def by simp
  moreover have "sched_inv ?s = sched_inv s"
    by (simp add: sched_inv_def sched_inv_ex_def ready_bits_def links_once_def heads_ok_def prios_ok_def stats_ok_def)
  moreover have "sleepers_ok ?s = sleepers_ok s" by (simp add: sleepers_ok_def)
  ultimately show ?thesis using k by (simp add: kernel_inv_def)
qed

lemma slice_inv:
  assumes "f = (\<lambda>r. r\<lparr>remaining_tick := remaining_tick r - 1\<rparr>) \<or> f = (\<lambda>r. r\<lparr>remaining_tick := init_tick r\<rparr>)"
  shows "kernel_inv m (thr_upd t f s) \<longleftrightarrow> kernel_inv m s"
  by (rule field_upd_kernel_inv) (use assms in auto)

context timer_callback
begin

lemma check_iteration:
  assumes inv: "kernel_inv 0 s" and c: "cur s \<noteq> None" and l: "rt_timer_list s = i # is" and due: "due s i"
    and per: "periods_ok s"
  shows "\<exists>s'. (\<forall>n. timer_check_loop obj (Suc n) (rt_tick s) s = timer_check_loop obj n (rt_tick s') s') \<and>
    kernel_inv 0 s' \<and> checked s s' \<and> {j \<in> set (rt_timer_list s'). due s' j} \<subseteq> {j \<in> set (rt_timer_list s). due s j} - {i} \<and>
    (\<forall>t. i = Thread_Timer t \<longrightarrow> runnable s' t)"
proof -
  let ?s0 = "rt_timer_remove i s"
  note k = kernel_invD [OF inv]
  have di: "distinct (i # is)" "i \<notin> set is" using k(3) l by (simp_all add: timers_ok_def)
  obtain s1 where s1: "timeout_func obj i ?s0 = Inr s1" "kernel_inv 0 s1" "timer_quiet ?s0 s1"
      "\<forall>t. i = Thread_Timer t \<longrightarrow> runnable s1 t"
  proof -
    have "\<And>t. i = Thread_Timer t \<Longrightarrow> stat_of ?s0 t = RT_THREAD_SUSPEND"
      using head_due_suspended [OF inv] l by simp
    then show ?thesis using timeout_func_ok [OF remove_timer_inv [OF inv], of i] c that by force
  qed
  have run0: "runnable ?s0 t = runnable s t" for t by (simp add: runnable_def)
  have q: "cur s1 \<noteq> None" "rt_tick s1 = rt_tick s" "set (rt_timer_list s1) \<subseteq> set is"
    "\<And>j. timeout_tick (timers s1 j) = timeout_tick (timers s j)" "\<And>j. periodic (timers s1 j) = periodic (timers s j)"
    "\<And>j. tm_init_tick (timers s1 j) = tm_init_tick (timers s j)" "\<And>t. runnable s t \<Longrightarrow> runnable s1 t"
    "\<And>l. (\<And>p. l \<noteq> Ready_Queue p) \<Longrightarrow> set (lists s1 l) \<subseteq> set (lists s l)"
    "\<And>t. Thread_Timer t \<in> set is \<Longrightarrow> Thread_Timer t \<notin> set (rt_timer_list s1) \<Longrightarrow> runnable s1 t"
    using s1(3) l di(2) by (simp_all add: timer_quiet_def run0)
  have out: "i \<notin> set (rt_timer_list s1)" using q(3) di by auto
  let ?s2 = "tm_upd i (\<lambda>t. t\<lparr>activated := False\<rparr>) s1"
  have i2: "kernel_inv 0 ?s2" by (rule deactivate_inv [OF s1(2) out])
  have cmp: "rt_tick s - timeout_tick (timers s i) < 0x7fffffff"
    using due_cmp [of s i] due k(3) l by (simp add: timers_ok_def)
  have run: "runnable ?s2 t = runnable s1 t" for t by (simp add: runnable_def)
  show ?thesis
  proof (cases "periodic (timers s1 i) \<and> activated (timers s1 i)")
    case True
    have d: "tm_init_tick (timers s i) \<noteq> 0" "tm_init_tick (timers s i) < 0x7fffffff"
      using per True l q(5) by (simp_all add: periods_ok_def)
    obtain s3 where s3: "rt_timer_start i ?s2 = Inr (RT_EOK, s3)" "kernel_inv 0 s3" "timer_frame ?s2 s3"
        "timers s3 = (timers ?s2)(i := started (rt_tick ?s2) (timers ?s2 i))"
        "set (rt_timer_list s3) = insert i (set (rt_timer_list ?s2))" "ahead s3 i = unat (tm_init_tick (timers s i)) + 1"
      using restart_inv [OF i2, of i] True d(2) q(6) by auto
    have f3: "rt_tick s3 = rt_tick s" "cur s3 = cur s1" "threads s3 = threads s1" "lists s3 = lists s1"
      using s3(3) q(2) by (simp_all add: timer_frame_def)
    have nd: "\<not> due s3 i" using s3(6) d(1) by (simp add: unat_eq_0 [symmetric] del: unat_eq_0)
    have a3: "ahead s3 j = ahead s j" if "j \<noteq> i" for j using that by (simp add: f3 s3(4) q(4))
    have nt: "i \<noteq> Thread_Timer t" for t using True k(3) q(5) by (auto simp: timers_ok_def)
    then obtain n where n: "i = Obj_Timer n" by (cases i) auto
    have run3: "runnable s3 t = runnable s1 t" for t by (simp add: runnable_def f3)
    have "checked s s3"
      using q s3(5) l by (auto simp: checked_def f3(1,2,4) s3(4) started_def run3 n)
    moreover have "{j \<in> set (rt_timer_list s3). due s3 j} \<subseteq> {j \<in> set (rt_timer_list s). due s j} - {i}"
    proof
      fix j assume j: "j \<in> {j \<in> set (rt_timer_list s3). due s3 j}"
      then have "j \<noteq> i" using nd by auto
      then show "j \<in> {j \<in> set (rt_timer_list s). due s j} - {i}" using j a3 s3(5) q(3) l by auto
    qed
    moreover have "timer_check_loop obj (Suc n) (rt_tick s) s = timer_check_loop obj n (rt_tick s3) s3" for n
      using cmp s1(1) s3(1) True q(2) by (simp add: l Let_def rt_tick_get_def f3)
    ultimately show ?thesis using s3(2) nt by (intro exI [of _ s3]) simp
  next
    case False
    have "checked s ?s2" using q l s1(4) by (auto simp: checked_def run)
    moreover have "{j \<in> set (rt_timer_list ?s2). due ?s2 j} \<subseteq> {j \<in> set (rt_timer_list s). due s j} - {i}"
      using q(2,3,4) out l by auto
    moreover have "timer_check_loop obj (Suc n) (rt_tick s) s = timer_check_loop obj n (rt_tick ?s2) ?s2" for n
      using cmp s1(1) False q(2) by (auto simp: l Let_def rt_tick_get_def)
    moreover have "\<forall>t. i = Thread_Timer t \<longrightarrow> runnable ?s2 t" using s1(4) unfolding run .
    ultimately show ?thesis using i2 by blast
  qed
qed

lemma timer_check_loop_ends:
  assumes "kernel_inv 0 s" "cur s \<noteq> None" "periods_ok s" "card {j \<in> set (rt_timer_list s). due s j} < n"
  shows "\<exists>s'. timer_check_loop obj n (rt_tick s) s = Some (Inr s') \<and> kernel_inv 2 s' \<and> checked s s'"
  using assms
proof (induction n arbitrary: s)
  case (Suc n)
  note k = kernel_invD [OF Suc.prems(1)]
  show ?case
  proof (cases "\<exists>i is. rt_timer_list s = i # is \<and> due s i")
    case True
    then obtain i "is" where l: "rt_timer_list s = i # is" and d: "due s i" by blast
    obtain s1 where s1: "\<forall>n. timer_check_loop obj (Suc n) (rt_tick s) s = timer_check_loop obj n (rt_tick s1) s1"
        "kernel_inv 0 s1" "checked s s1"
        "{j \<in> set (rt_timer_list s1). due s1 j} \<subseteq> {j \<in> set (rt_timer_list s). due s j} - {i}"
      using check_iteration [OF Suc.prems(1,2) l d Suc.prems(3)] by blast
    have "card {j \<in> set (rt_timer_list s1). due s1 j} \<le> card ({j \<in> set (rt_timer_list s). due s j} - {i})"
      by (intro card_mono s1(4)) simp
    also have "\<dots> < card {j \<in> set (rt_timer_list s). due s j}" using l d by (intro card_Diff1_less) auto
    finally have "card {j \<in> set (rt_timer_list s1). due s1 j} < n" using Suc.prems(4) by simp
    moreover have "cur s1 \<noteq> None" using s1(3) by (simp add: checked_def)
    moreover have "periods_ok s1" using checked_periods s1(3) Suc.prems(3) by blast
    ultimately obtain s' where s': "timer_check_loop obj n (rt_tick s1) s1 = Some (Inr s')" "kernel_inv 2 s'" "checked s1 s'"
      using Suc.IH [OF s1(2)] by blast
    have "timer_check_loop obj (Suc n) (rt_tick s) s = Some (Inr s')"
      by (simp only: s1(1) [rule_format] s'(1))
    then show ?thesis using s'(2) checked_trans [OF s1(3) s'(3)] by blast
  next
    case False
    have late: "2 \<le> ahead s j" if j: "j \<in> set (rt_timer_list s)" for j
    proof -
      obtain i "is" where l: "rt_timer_list s = i # is" using j by (cases "rt_timer_list s") auto
      then have "\<not> due s i" using False by simp
      moreover have "ahead s i \<le> ahead s j" using k(3) j l by (auto simp: timers_ok_def)
      ultimately show ?thesis by simp
    qed
    then have "kernel_inv 2 s" using Suc.prems(1) by (auto simp: kernel_inv_def timers_ok_def)
    moreover have "timer_check_loop obj (Suc n) (rt_tick s) s = Some (Inr s)"
    proof (cases "rt_timer_list s")
      case (Cons i "is")
      then have "\<not> due s i" "ahead s i \<le> 0x7fffffff" using False k(3) by (simp_all add: timers_ok_def)
      then show ?thesis using due_cmp [of s i] Cons by simp
    qed simp
    moreover have "checked s s" using Suc.prems(2) by (simp add: checked_def)
    ultimately show ?thesis by blast
  qed
qed simp

lemma rt_timer_check_ok:
  assumes "kernel_inv 0 s" "cur s \<noteq> None" "periods_ok s" "length (rt_timer_list s) < fuel"
  shows "\<exists>s'. rt_timer_check obj fuel s = Some (Inr s') \<and> kernel_inv 2 s' \<and> checked s s'"
proof -
  have "card {j \<in> set (rt_timer_list s). due s j} \<le> card (set (rt_timer_list s))" by (intro card_mono) auto
  also have "\<dots> \<le> length (rt_timer_list s)" by (rule card_length)
  finally show ?thesis
    using timer_check_loop_ends [OF assms(1-3)] assms(4) by (simp add: rt_timer_check_def rt_tick_get_def)
qed

lemma rt_tick_increase_ok:
  assumes inv: "kernel_inv 1 s" and c: "cur s \<noteq> None" and per: "periods_ok s" and fuel: "length (rt_timer_list s) < fuel"
  shows "\<exists>s'. rt_tick_increase obj fuel s = Some (Inr s') \<and> kernel_inv 2 s' \<and> checked (s\<lparr>rt_tick := rt_tick s + 1\<rparr>) s'"
proof -
  obtain c where c: "cur s = Some c" using c by blast
  let ?s1 = "s\<lparr>rt_tick := rt_tick s + 1\<rparr>"
  have i1: "kernel_inv 0 ?s1" by (rule tick_inv [OF inv])
  let ?f = "\<lambda>r. r\<lparr>remaining_tick := remaining_tick r - 1\<rparr>" and ?g = "\<lambda>r. r\<lparr>remaining_tick := init_tick r\<rparr>"
  have slice: "kernel_inv 0 (thr_upd c f s')" if "kernel_inv 0 s'" "f = ?f \<or> f = ?g" for f s'
    using that slice_inv [of f 0 c s'] by auto
  show ?thesis
  proof (cases "remaining_tick (threads s c) - 1 = 0")
    case False
    let ?s2 = "thr_upd c ?f ?s1"
    obtain s' where s': "rt_timer_check obj fuel ?s2 = Some (Inr s')" "kernel_inv 2 s'" "checked ?s2 s'"
      using rt_timer_check_ok [OF slice [OF i1], of ?f fuel] c per fuel by (auto simp: periods_ok_def)
    have "checked ?s1 ?s2" using c by (simp add: checked_def runnable_def)
    then have "checked ?s1 s'" using checked_trans s'(3) by blast
    then show ?thesis using s' False c by (simp add: rt_tick_increase_def rt_thread_self_def Let_def)
  next
    case True
    let ?s2 = "thr_upd c ?g (thr_upd c ?f ?s1)"
    have i2: "kernel_inv 0 ?s2" using slice i1 by blast
    obtain s3 t where s3: "rt_schedule ?s2 = Inr s3" "sched_frame ?s2 s3" "cur s3 = Some t"
      using rt_schedule_spec [OF kernel_invD(1) [OF i2], of c] c by auto
    note f = sched_frame_fields [OF s3(2)]
    have i3: "kernel_inv 0 s3" by (rule kernel_inv_schedule [OF i2 s3(1)])
    obtain s' where s': "rt_timer_check obj fuel s3 = Some (Inr s')" "kernel_inv 2 s'" "checked s3 s'"
      using rt_timer_check_ok [OF i3, of fuel] s3(3) per fuel by (auto simp: periods_ok_def f)
    have run: "runnable ?s2 u = runnable ?s1 u" for u by (simp add: runnable_def)
    have "lists s3 l = lists s l" if "\<forall>p. l \<noteq> Ready_Queue p" for l
      using s3(2) that unfolding sched_frame_def by simp
    then have "checked ?s1 s3" using s3(3) by (simp add: checked_def f sched_frame_runnable [OF s3(2)] run)
    then have "checked ?s1 s'" using checked_trans s'(3) by blast
    then show ?thesis
      using s' s3 True c by (simp add: rt_tick_increase_def rt_thread_self_def rt_thread_yield_def Let_def)
  qed
qed

end

section \<open>A timer that resumes a thread\<close>

text \<open>The contract holds for the timeout function that resumes the thread the timer is for.\<close>

definition resume_callback :: "nat \<Rightarrow> kernel \<Rightarrow> fault + kernel" where
  "resume_callback t s = Inr (snd (rt_thread_resume t s))"

lemma resume_callback_ok:
  assumes inv: "kernel_inv 0 s" and c: "cur s \<noteq> None"
  shows "\<exists>s'. resume_callback t s = Inr s' \<and> kernel_inv 0 s' \<and> timer_quiet s s'"
proof (cases "stat_of s t = RT_THREAD_SUSPEND")
  case True
  obtain s' where s': "rt_thread_resume t s = (RT_EOK, s')" "kernel_inv 0 s'" "woken t s s'"
    using rt_thread_resume_ok [OF inv True] by blast
  obtain st where th: "threads s' = (threads s)(t := (threads s t)\<lparr>stat := st\<rparr>)"
    using s'(3) unfolding woken_def by blast
  have t: "runnable s' t" using s'(3) by (simp add: woken_def runnable_def)
  then have "runnable s u \<Longrightarrow> runnable s' u" for u
    by (cases "u = t") (simp_all add: runnable_def th)
  then have "timer_quiet s s'"
    using s'(3) c t by (auto simp: timer_quiet_def woken_def timers_kept_def)
  then show ?thesis using s' by (simp add: resume_callback_def)
next
  case False
  then show ?thesis using inv c by (simp add: resume_callback_def rt_thread_resume_refused timer_quiet_def)
qed

interpretation resuming: timer_callback resume_callback
  by unfold_locales (rule resume_callback_ok)

section \<open>Sequences of ticks\<close>

fun ticks :: "(nat \<Rightarrow> kernel \<Rightarrow> fault + kernel) \<Rightarrow> nat \<Rightarrow> nat \<Rightarrow> kernel \<Rightarrow> (fault + kernel) option" where
  "ticks obj fuel 0 s = Some (Inr s)"
| "ticks obj fuel (Suc n) s =
     (case rt_tick_increase obj fuel s of
        None \<Rightarrow> None
      | Some (Inl e) \<Rightarrow> Some (Inl e)
      | Some (Inr s) \<Rightarrow> ticks obj fuel n s)"

lemma kernel_inv_mono: "kernel_inv m s \<Longrightarrow> k \<le> m \<Longrightarrow> kernel_inv k s"
  by (auto simp: kernel_inv_def timers_ok_def)

lemma distinct_subset_length: "distinct xs \<Longrightarrow> set xs \<subseteq> set ys \<Longrightarrow> length xs \<le> length ys"
  by (metis card_length card_mono distinct_card finite_set le_trans)

context timer_callback
begin

lemma tick_then:
  assumes "kernel_inv 1 s" "cur s \<noteq> None" "periods_ok s" "length (rt_timer_list s) < fuel"
  shows "\<exists>s'. rt_tick_increase obj fuel s = Some (Inr s') \<and> kernel_inv 1 s' \<and> kernel_inv 2 s' \<and> cur s' \<noteq> None \<and> periods_ok s' \<and>
    length (rt_timer_list s') < fuel \<and> checked (s\<lparr>rt_tick := rt_tick s + 1\<rparr>) s'"
proof -
  let ?s = "s\<lparr>rt_tick := rt_tick s + 1\<rparr>"
  obtain s' where s': "rt_tick_increase obj fuel s = Some (Inr s')" "kernel_inv 2 s'" "checked ?s s'"
    using rt_tick_increase_ok [OF assms] by blast
  have "distinct (rt_timer_list s')" using kernel_invD(3) [OF s'(2)] by (simp add: timers_ok_def)
  then have "length (rt_timer_list s') \<le> length (rt_timer_list s)"
    using s'(3) by (intro distinct_subset_length) (simp_all add: checked_def)
  moreover have "periods_ok s'" using checked_periods [OF s'(3)] assms(3) by (simp add: periods_ok_def)
  moreover have "kernel_inv 1 s'" using kernel_inv_mono [OF s'(2)] by simp
  ultimately show ?thesis using s' assms(4) by (auto simp: checked_def)
qed

lemma ticks_wake:
  assumes "kernel_inv 1 s" "cur s \<noteq> None" "periods_ok s" "length (rt_timer_list s) < fuel"
    "runnable s t \<or> Thread_Timer t \<in> set (rt_timer_list s) \<and> ahead s (Thread_Timer t) \<le> n + 1 \<and> 1 \<le> n"
  shows "\<exists>s'. ticks obj fuel n s = Some (Inr s') \<and> kernel_inv 1 s' \<and> runnable s' t"
  using assms
proof (induction n arbitrary: s)
  case (Suc n)
  let ?i = "Thread_Timer t"
  obtain s1 where s1: "rt_tick_increase obj fuel s = Some (Inr s1)" "kernel_inv 1 s1" "kernel_inv 2 s1" "cur s1 \<noteq> None"
    "periods_ok s1" "length (rt_timer_list s1) < fuel" "checked (s\<lparr>rt_tick := rt_tick s + 1\<rparr>) s1"
    using tick_then [OF Suc.prems(1-4)] by blast
  have run: "runnable s u \<Longrightarrow> runnable s1 u" for u using s1(7) by (simp add: checked_def)
  have "runnable s1 t \<or> ?i \<in> set (rt_timer_list s1) \<and> ahead s1 ?i \<le> n + 1 \<and> 1 \<le> n"
  proof (cases "runnable s1 t")
    case False
    then have i: "?i \<in> set (rt_timer_list s)" "ahead s ?i \<le> Suc n + 1" using Suc.prems(5) run by auto
    have i1: "?i \<in> set (rt_timer_list s1)" using s1(7) False i(1) unfolding checked_def by auto
    have "1 \<le> ahead s ?i" using kernel_invD(3) [OF Suc.prems(1)] i(1) by (simp add: timers_ok_def)
    then have "ahead s1 ?i = ahead s ?i - 1" using s1(7) by (simp add: checked_def ahead_tick)
    moreover have "2 \<le> ahead s1 ?i" using kernel_invD(3) [OF s1(3)] i1 by (simp add: timers_ok_def)
    ultimately have "ahead s1 ?i \<le> n + 1" "1 \<le> n" using i(2) by linarith+
    then show ?thesis using i1 by simp
  qed simp
  then obtain s' where "ticks obj fuel n s1 = Some (Inr s')" "kernel_inv 1 s'" "runnable s' t"
    using Suc.IH [OF s1(2,4,5,6)] by blast
  then show ?case using s1(1) by simp
qed simp

end

lemma example_kernel_ok:
  "kernel_inv m example_kernel" "periods_ok example_kernel" "rt_timer_list example_kernel = []"
  "cur example_kernel = Some 0" "rt_scheduler_lock_nest example_kernel = 0"
  "stat_of example_kernel 0 = RT_THREAD_RUNNING" "stat_of example_kernel 1 = RT_THREAD_READY"
  using example_kernel_inv
  by (simp_all add: kernel_inv_def timers_ok_def sleepers_ok_def periods_ok_def)
    (simp_all add: example_kernel_def kernel_reset_def timer_reset_def example_thread_def)

section \<open>Properties\<close>

text \<open>C8: One tick: with more fuel than timers the check of the timers ends, whatever the timeout functions
  do within their contract, no timer that is due is left, no runnable thread is stopped, and a
  thread whose timer has gone is runnable.
\<close>

theorem rt_tick_increase_ends:
  assumes "timer_callback obj" "kernel_inv 1 s" "cur s \<noteq> None" "periods_ok s" "length (rt_timer_list s) < fuel"
  shows "\<exists>s'. rt_tick_increase obj fuel s = Some (Inr s') \<and> kernel_inv 1 s' \<and> rt_tick s' = rt_tick s + 1 \<and>
    (\<forall>i. i \<in> set (rt_timer_list s') \<longrightarrow> \<not> due s' i) \<and> (\<forall>t. runnable s t \<longrightarrow> runnable s' t) \<and>
    (\<forall>t. Thread_Timer t \<in> set (rt_timer_list s) \<longrightarrow> Thread_Timer t \<notin> set (rt_timer_list s') \<longrightarrow> runnable s' t)"
proof -
  obtain s' where s': "rt_tick_increase obj fuel s = Some (Inr s')" "kernel_inv 1 s'" "kernel_inv 2 s'"
    "checked (s\<lparr>rt_tick := rt_tick s + 1\<rparr>) s'"
    using timer_callback.tick_then [OF assms] by blast
  have "\<not> due s' i" if "i \<in> set (rt_timer_list s')" for i
    using kernel_invD(3) [OF s'(3)] that by (auto simp: timers_ok_def)
  then show ?thesis using s' by (auto simp: checked_def)
qed

theorem rt_tick_increase_ends_witness:
  "\<exists>s'. rt_tick_increase resume_callback 1 example_kernel = Some (Inr s') \<and> kernel_inv 1 s' \<and>
    rt_tick s' = rt_tick example_kernel + 1"
proof -
  have "\<exists>s'. rt_tick_increase resume_callback 1 example_kernel = Some (Inr s') \<and> kernel_inv 1 s' \<and>
    rt_tick s' = rt_tick example_kernel + 1 \<and>
    (\<forall>i. i \<in> set (rt_timer_list s') \<longrightarrow> \<not> due s' i) \<and> (\<forall>t. runnable example_kernel t \<longrightarrow> runnable s' t) \<and>
    (\<forall>t. Thread_Timer t \<in> set (rt_timer_list example_kernel) \<longrightarrow> Thread_Timer t \<notin> set (rt_timer_list s') \<longrightarrow> runnable s' t)"
    by (rule rt_tick_increase_ends [OF resuming.timer_callback_axioms]) (simp_all add: example_kernel_ok)
  then show ?thesis by blast
qed

text \<open>C7: A thread that sleeps for \<open>d\<close> ticks wakes: it gives up the processor, and at the latest the
  \<open>d\<close>-th tick (the first, for no ticks) makes it runnable again.
\<close>

theorem sleeping_thread_wakes:
  assumes "timer_callback obj" "kernel_inv 1 s" "cur s = Some c" "stat_of s c = RT_THREAD_RUNNING"
    "d < 0x7fffffff" "rt_scheduler_lock_nest s = 0" "stat_of s u = RT_THREAD_READY" "periods_ok s"
    "Suc (length (rt_timer_list s)) < fuel"
  shows "\<exists>s1 s2. rt_thread_sleep d s = Inr s1 \<and> stat_of s1 c = RT_THREAD_SUSPEND \<and> cur s1 \<noteq> Some c \<and>
    ticks obj fuel (max 1 (unat d)) s1 = Some (Inr s2) \<and> kernel_inv 1 s2 \<and> runnable s2 c"
proof -
  let ?i = "Thread_Timer c"
  obtain s1 where s1: "rt_thread_sleep d s = Inr s1" "kernel_inv 1 s1" "cur s1 \<noteq> None" "cur s1 \<noteq> Some c"
    "stat_of s1 c = RT_THREAD_SUSPEND" "set (rt_timer_list s1) = insert ?i (set (rt_timer_list s))"
    "ahead s1 ?i = unat d + 1"
    "\<forall>n. periodic (timers s1 (Obj_Timer n)) = periodic (timers s (Obj_Timer n)) \<and>
       tm_init_tick (timers s1 (Obj_Timer n)) = tm_init_tick (timers s (Obj_Timer n))"
    using rt_thread_sleep_ok [OF assms(2,3,4,5) _ assms(6,7)] by auto
  have "distinct (rt_timer_list s1)" "distinct (rt_timer_list s)"
    using kernel_invD(3) [OF s1(2)] kernel_invD(3) [OF assms(2)] by (simp_all add: timers_ok_def)
  then have "length (rt_timer_list s1) \<le> Suc (length (rt_timer_list s))"
    using distinct_subset_length [of "rt_timer_list s1" "?i # rt_timer_list s"] s1(6) by simp
  then have fuel: "length (rt_timer_list s1) < fuel" using assms(9) by simp
  have "periods_ok s1"
    unfolding periods_ok_def
  proof (intro ballI impI)
    fix i assume i: "i \<in> set (rt_timer_list s1)" "periodic (timers s1 i)"
    have "\<not> periodic (timers s1 (Thread_Timer t))" for t using kernel_invD(3) [OF s1(2)] by (simp add: timers_ok_def)
    then obtain n where "i = Obj_Timer n" using i(2) by (cases i) auto
    then show "tm_init_tick (timers s1 i) \<noteq> 0 \<and> tm_init_tick (timers s1 i) < 0x7fffffff"
      using i s1(6,8) assms(8) by (auto simp: periods_ok_def)
  qed
  then show ?thesis
    using timer_callback.ticks_wake [OF assms(1) s1(2,3) _ fuel, of c "max 1 (unat d)"] s1 by auto
qed

theorem sleeping_thread_wakes_witness:
  "\<exists>s1 s2. rt_thread_sleep 5 example_kernel = Inr s1 \<and> stat_of s1 0 = RT_THREAD_SUSPEND \<and> cur s1 \<noteq> Some 0 \<and>
    ticks resume_callback 2 (max 1 (unat (5 :: u32))) s1 = Some (Inr s2) \<and> kernel_inv 1 s2 \<and> runnable s2 0"
  by (rule sleeping_thread_wakes [OF resuming.timer_callback_axioms, of _ 0 5 1])
    (simp_all add: example_kernel_ok del: One_nat_def)

text \<open>C39: A periodic timer with a period of 0 keeps the check of the timers going for ever.\<close>

theorem zero_period_never_ends:
  assumes "rt_timer_list s = [Obj_Timer n]" "periodic (timers s (Obj_Timer n))" "activated (timers s (Obj_Timer n))"
    "tm_init_tick (timers s (Obj_Timer n)) = 0" "timeout_tick (timers s (Obj_Timer n)) = rt_tick s"
    "\<And>s. obj n s = Inr s"
  shows "rt_timer_check obj fuel s = None"
proof -
  have "timer_check_loop obj fuel (rt_tick s) s = None"
    if "rt_timer_list s = [Obj_Timer n]" "periodic (timers s (Obj_Timer n))" "activated (timers s (Obj_Timer n))"
      "tm_init_tick (timers s (Obj_Timer n)) = 0" "timeout_tick (timers s (Obj_Timer n)) = rt_tick s" for s fuel
    using that
  proof (induction fuel arbitrary: s)
    case (Suc fuel)
    let ?i = "Obj_Timer n"
    let ?s = "tm_upd ?i (\<lambda>t. t\<lparr>activated := False\<rparr>) (rt_timer_remove ?i s)"
    obtain s' where s': "rt_timer_start ?i ?s = Inr (RT_EOK, s')" "rt_timer_list s' = [?i]" "rt_tick s' = rt_tick s"
      "timers s' ?i = (timers s ?i)\<lparr>activated := True, timeout_tick := rt_tick s\<rparr>"
      using Suc.prems by (simp add: rt_timer_start_def Let_def)
    have "timer_check_loop obj fuel (rt_tick s') s' = None"
      using Suc.IH [of s'] s' Suc.prems by simp
    then show ?case
      using Suc.prems s'(1,3) assms(6) by (simp add: timeout_func_def rt_tick_get_def Let_def)
  qed simp
  then show ?thesis using assms by (simp add: rt_timer_check_def rt_tick_get_def)
qed

theorem zero_period_never_ends_witness:
  "rt_timer_check (\<lambda>_. Inr) 100 (kernel_reset\<lparr>rt_timer_list := [Obj_Timer 0],
     timers := (\<lambda>_. timer_reset\<lparr>activated := True, periodic := True\<rparr>)\<rparr>) = None"
  by (rule zero_period_never_ends [of _ 0]) (simp_all add: kernel_reset_def timer_reset_def)

end
