(* ===== verification/Ipc.thy ===== *)
theory Ipc
  imports Tick
begin

text \<open>
  What the IPC objects of \<^verbatim>\<open>rt-thread/src/ipc.c\<close> share: the lists of waiting threads, in
  order of arrival or of priority, and the sequence of calls with which a thread blocks.

  \<^item> An object has a number; its list of waiting threads is \<open>Suspend_List n\<close>, and a mailbox has
    the list of its blocked senders, \<open>Sender_List n\<close>, too. The other fields of an object are a
    record of its own, handed through its operations.
  \<^item> A call that can block is split at the context switch. Its first part ends in an \<open>outcome\<close>:
    it has returned, or the thread is waiting. The second part is run when the thread is current
    again.
  \<^item> The object container and the heap are not modelled; the calls that allocate take the answer
    of the heap as an argument.
\<close>

section \<open>Operations\<close>

datatype outcome = Returned int | Blocked

definition RT_IPC_FLAG_FIFO :: u8 where "RT_IPC_FLAG_FIFO = 0"
definition RT_IPC_FLAG_PRIO :: u8 where "RT_IPC_FLAG_PRIO = 1"

definition RT_IPC_CMD_RESET :: nat where "RT_IPC_CMD_RESET = 1"

definition rt_ipc_object_init :: "nat \<Rightarrow> kernel \<Rightarrow> kernel" where
  "rt_ipc_object_init n s = s\<lparr>lists := (lists s)(Suspend_List n := [])\<rparr>"

text \<open>The place of a thread in a list ordered by priority: before the first that is less urgent.\<close>

fun prio_place :: "(tid \<Rightarrow> nat) \<Rightarrow> tid \<Rightarrow> tid list \<Rightarrow> tid list" where
  "prio_place p t [] = [t]"
| "prio_place p t (u # us) = (if p t < p u then t # u # us else u # prio_place p t us)"

definition rt_ipc_list_suspend :: "list_head \<Rightarrow> tid \<Rightarrow> u8 \<Rightarrow> kernel \<Rightarrow> fault + kernel" where
  "rt_ipc_list_suspend l t flag s =
     rbind (rt_thread_suspend t s) (\<lambda>(_, s).
     Inr (if flag = RT_IPC_FLAG_FIFO then link_last l t s
          else if flag = RT_IPC_FLAG_PRIO then s\<lparr>lists := (lists s)(l := prio_place (prio s) t (lists s l))\<rparr>
          else s))"

definition rt_ipc_list_resume :: "list_head \<Rightarrow> kernel \<Rightarrow> kernel" where
  "rt_ipc_list_resume l s = snd (rt_thread_resume (hd (lists s l)) s)"

text \<open>
  The loop that empties a list. A round takes the first thread out of the list or, when that
  thread cannot be resumed, changes nothing any more; so a list that is not empty after as many
  rounds as it had threads is never emptied.
\<close>

fun resume_all_loop :: "nat \<Rightarrow> list_head \<Rightarrow> kernel \<Rightarrow> fault + kernel" where
  "resume_all_loop 0 l s = (if lists s l = [] then Inr s else Inl Endless_Loop)"
| "resume_all_loop (Suc n) l s =
     (if lists s l = [] then Inr s
      else
        let t = hd (lists s l);
            s = thr_upd t (\<lambda>r. r\<lparr>error := - RT_ERROR\<rparr>) s;
            s = snd (rt_thread_resume t s)
        in resume_all_loop n l s)"

definition rt_ipc_list_resume_all :: "list_head \<Rightarrow> kernel \<Rightarrow> fault + kernel" where
  "rt_ipc_list_resume_all l s = resume_all_loop (length (lists s l)) l s"

text \<open>\<open>RT_DEBUG_IN_THREAD_CONTEXT\<close> and \<open>RT_DEBUG_NOT_IN_INTERRUPT\<close>.\<close>

definition not_in_interrupt :: "kernel \<Rightarrow> bool" where
  "not_in_interrupt s \<longleftrightarrow> rt_interrupt_get_nest s = 0"

definition in_thread_context :: "kernel \<Rightarrow> bool" where
  "in_thread_context s \<longleftrightarrow> rt_thread_self s \<noteq> None \<and> not_in_interrupt s"

text \<open>The current thread waits: it is put into the list, its timer is started, others run.\<close>

definition ipc_wait :: "list_head \<Rightarrow> u8 \<Rightarrow> int \<Rightarrow> tid \<Rightarrow> kernel \<Rightarrow> fault + kernel" where
  "ipc_wait l flag time t s =
     rbind (rt_ipc_list_suspend l t flag s) (\<lambda>s.
     rbind (if time > 0 then arm_timer t (word_of_int time) s else Inr s) (\<lambda>s.
     rt_schedule s))"

section \<open>Waiting\<close>

lemma prio_place_after: "prio_place p t us = place_after p t us"
  by (induction us) auto

text \<open>The list with a thread that has come to wait.\<close>

definition queued :: "u8 \<Rightarrow> (tid \<Rightarrow> nat) \<Rightarrow> tid \<Rightarrow> tid list \<Rightarrow> tid list" where
  "queued flag p t us = (if flag = RT_IPC_FLAG_FIFO then us @ [t] else if flag = RT_IPC_FLAG_PRIO then place_after p t us else us)"

lemma set_queued: "set (queued flag p t us) = (if flag = 0 \<or> flag = 1 then insert t (set us) else set us)"
  by (simp add: queued_def RT_IPC_FLAG_FIFO_def RT_IPC_FLAG_PRIO_def)

lemma queued_split:
  assumes "flag = 0 \<or> flag = 1"
  obtains vs ws where "us = vs @ ws" "queued flag p t us = vs @ t # ws"
proof (cases "flag = 0")
  case True
  then show ?thesis using that [of us "[]"] by (simp add: queued_def RT_IPC_FLAG_FIFO_def)
next
  case False
  then show ?thesis
    using assms that [of "takeWhile (\<lambda>u. p u \<le> p t) us" "dropWhile (\<lambda>u. p u \<le> p t) us"]
    by (simp add: queued_def RT_IPC_FLAG_FIFO_def RT_IPC_FLAG_PRIO_def place_after_def)
qed

definition wait_list :: "list_head \<Rightarrow> bool" where
  "wait_list l \<longleftrightarrow> (\<exists>n. l = Suspend_List n \<or> l = Sender_List n)"

lemma wait_list_simps [simp]:
  "wait_list (Suspend_List n)" "wait_list (Sender_List n)" "\<not> wait_list (Ready_Queue p)" "\<not> wait_list Defunct_List"
  by (auto simp: wait_list_def)

lemma wait_list_stat: "wait_list l \<Longrightarrow> head_stat l = RT_THREAD_SUSPEND"
  by (auto simp: wait_list_def head_stat_def)

lemma wait_listD: "wait_list l \<Longrightarrow> l \<noteq> Ready_Queue p"
  by auto

lemma link_inv_kernel:
  assumes "kernel_inv m s" "\<not> linked s t" "stat_of s t = head_stat l" "\<And>p. l \<noteq> Ready_Queue p" "lists s l = us @ vs"
  shows "kernel_inv m (s\<lparr>lists := (lists s)(l := us @ t # vs)\<rparr>)"
proof -
  note k = kernel_invD [OF assms(1)]
  let ?s = "s\<lparr>lists := (lists s)(l := us @ t # vs)\<rparr>"
  have "sched_inv_ex {} ?s" by (rule link_inv [OF k(2) assms(2-5)])
  moreover have "timers_ok m ?s = timers_ok m s" by (rule timers_ok_same) simp_all
  moreover have "sleepers_ok ?s = sleepers_ok s" by (simp add: sleepers_ok_def)
  ultimately show ?thesis using k by (simp add: kernel_inv_def sched_inv_def)
qed

lemma waiting_suspended: "kernel_inv m s \<Longrightarrow> wait_list l \<Longrightarrow> t \<in> set (lists s l) \<Longrightarrow> stat_of s t = RT_THREAD_SUSPEND"
  using wait_list_stat by (auto simp: kernel_inv_def sched_inv_def sched_inv_ex_def heads_ok_def)

text \<open>Nothing of the threads is changed but their status.\<close>

definition data_frame :: "kernel \<Rightarrow> kernel \<Rightarrow> bool" where
  "data_frame s s' \<longleftrightarrow> (\<forall>u. \<exists>st. threads s' u = (threads s u)\<lparr>stat := st\<rparr>) \<and> rt_tick s' = rt_tick s \<and>
     rt_scheduler_lock_nest s' = rt_scheduler_lock_nest s \<and> rt_interrupt_nest s' = rt_interrupt_nest s"

lemma data_frame_refl: "data_frame s s"
proof -
  have "\<exists>st. threads s u = (threads s u)\<lparr>stat := st\<rparr>" for u
    by (rule exI [of _ "stat_of s u"]) simp
  then show ?thesis by (simp add: data_frame_def)
qed

lemma data_frame_trans:
  assumes "data_frame s s'" "data_frame s' s''"
  shows "data_frame s s''"
proof -
  have "\<exists>st. threads s'' u = (threads s u)\<lparr>stat := st\<rparr>" for u
  proof -
    obtain a b where "threads s'' u = (threads s' u)\<lparr>stat := a\<rparr>" "threads s' u = (threads s u)\<lparr>stat := b\<rparr>"
      using assms unfolding data_frame_def by blast
    then show ?thesis by auto
  qed
  then show ?thesis using assms by (simp add: data_frame_def)
qed

lemma data_frame_sched: "sched_frame s s' \<Longrightarrow> data_frame s s'"
  unfolding sched_frame_def data_frame_def by blast

lemma data_frameD:
  assumes "data_frame s s'"
  shows "prio s' u = prio s u" "error (threads s' u) = error (threads s u)" "event_set (threads s' u) = event_set (threads s u)"
    "event_info (threads s' u) = event_info (threads s u)" "number_mask (threads s' u) = number_mask (threads s u)"
    "is_system (threads s' u) = is_system (threads s u)"
    "rt_tick s' = rt_tick s" "rt_scheduler_lock_nest s' = rt_scheduler_lock_nest s"
    "rt_interrupt_nest s' = rt_interrupt_nest s"
proof -
  obtain st where t: "threads s' u = (threads s u)\<lparr>stat := st\<rparr>" using assms unfolding data_frame_def by blast
  show "prio s' u = prio s u" "error (threads s' u) = error (threads s u)" "event_set (threads s' u) = event_set (threads s u)"
    "event_info (threads s' u) = event_info (threads s u)" "number_mask (threads s' u) = number_mask (threads s u)"
    "is_system (threads s' u) = is_system (threads s u)"
    by (simp_all add: t)
qed (use assms in \<open>simp_all add: data_frame_def\<close>)

text \<open>The current thread is suspended and put into a list between \<open>vs\<close> and \<open>ws\<close>.\<close>

lemma suspend_into:
  assumes inv: "kernel_inv m s" and c: "cur s = Some c" "stat_of s c = RT_THREAD_RUNNING" and l: "wait_list l"
    and q: "lists s l = vs @ ws"
  shows "\<exists>s1 s2. rt_thread_suspend c s = Inr (RT_EOK, s1) \<and> lists s1 = lists s \<and> prio s1 = prio s \<and>
    s2 = s1\<lparr>lists := (lists s1)(l := vs @ c # ws)\<rparr> \<and> kernel_inv m s2 \<and> data_frame s s2 \<and>
    stat_of s2 c = RT_THREAD_SUSPEND \<and> (\<forall>u. u \<noteq> c \<longrightarrow> stat_of s2 u = stat_of s u) \<and> cur s2 = cur s \<and>
    rt_timer_list s2 = rt_timer_list s"
proof -
  note k = kernel_invD [OF inv]
  have nl: "\<not> linked s c" using running_unlinked [OF k(2) c(2)] .
  obtain s1 where s1: "rt_thread_suspend c s = Inr (RT_EOK, s1)" "kernel_inv m s1" "\<not> linked s1 c"
      "threads s1 = (threads s)(c := (threads s c)\<lparr>stat := RT_THREAD_SUSPEND\<rparr>)"
      "\<forall>l. lists s1 l = removeAll c (lists s l)" "cur s1 = cur s" "rt_tick s1 = rt_tick s"
      "rt_scheduler_lock_nest s1 = rt_scheduler_lock_nest s" "rt_interrupt_nest s1 = rt_interrupt_nest s"
      "rt_timer_list s1 = rt_timer_list s"
    using rt_thread_suspend_ok [OF inv, of c] c(2) by blast
  have ls: "lists s1 = lists s" using s1(5) unlinkedD [OF nl] by auto
  have pr: "prio s1 = prio s" by (rule ext) (simp add: s1(4))
  let ?s2 = "s1\<lparr>lists := (lists s1)(l := vs @ c # ws)\<rparr>"
  have "kernel_inv m ?s2"
    by (rule link_inv_kernel [OF s1(2,3)]) (use wait_list_stat [OF l] wait_listD [OF l] s1(4) q ls in auto)
  moreover have "\<exists>st. threads ?s2 u = (threads s u)\<lparr>stat := st\<rparr>" for u
    using data_frame_refl [of s] by (cases "u = c") (auto simp: s1(4) data_frame_def)
  then have "data_frame s ?s2" by (simp add: data_frame_def s1(7-9))
  ultimately show ?thesis using s1(1,4,6,10) ls pr by simp
qed

lemma rt_ipc_list_suspend_ok:
  assumes inv: "kernel_inv m s" and c: "cur s = Some c" "stat_of s c = RT_THREAD_RUNNING" and l: "wait_list l"
    and flag: "flag = 0 \<or> flag = 1"
  shows "\<exists>s'. rt_ipc_list_suspend l c flag s = Inr s' \<and> kernel_inv m s' \<and> data_frame s s' \<and>
    stat_of s' c = RT_THREAD_SUSPEND \<and> (\<forall>u. u \<noteq> c \<longrightarrow> stat_of s' u = stat_of s u) \<and>
    lists s' = (lists s)(l := queued flag (prio s) c (lists s l)) \<and> cur s' = cur s \<and>
    rt_timer_list s' = rt_timer_list s"
proof -
  obtain vs ws where q: "lists s l = vs @ ws" "queued flag (prio s) c (lists s l) = vs @ c # ws"
    using queued_split [OF flag] .
  obtain s1 s2 where s2: "rt_thread_suspend c s = Inr (RT_EOK, s1)" "lists s1 = lists s" "prio s1 = prio s"
      "s2 = s1\<lparr>lists := (lists s1)(l := vs @ c # ws)\<rparr>" "kernel_inv m s2" "data_frame s s2"
      "stat_of s2 c = RT_THREAD_SUSPEND" "\<forall>u. u \<noteq> c \<longrightarrow> stat_of s2 u = stat_of s u" "cur s2 = cur s"
      "rt_timer_list s2 = rt_timer_list s"
    using suspend_into [OF inv c l q(1)] by blast
  have "rt_ipc_list_suspend l c flag s = Inr s2"
    using flag q(2) s2(2-4) by (auto simp: rt_ipc_list_suspend_def s2(1) queued_def link_last_def prio_place_after
        RT_IPC_FLAG_FIFO_def RT_IPC_FLAG_PRIO_def)
  moreover have "lists s2 = (lists s)(l := queued flag (prio s) c (lists s l))"
    by (simp add: s2(2,4) q(2))
  ultimately show ?thesis using s2(5-10) by blast
qed

text \<open>The state in which the current thread \<open>c\<close> has gone to wait in the list \<open>l\<close>.\<close>

definition waits :: "list_head \<Rightarrow> u8 \<Rightarrow> tid \<Rightarrow> kernel \<Rightarrow> kernel \<Rightarrow> bool" where
  "waits l flag c s s' \<longleftrightarrow> stat_of s' c = RT_THREAD_SUSPEND \<and> data_frame s s' \<and> cur s' \<noteq> None \<and>
     (\<forall>k. wait_list k \<longrightarrow> lists s' k = (if k = l then queued flag (prio s) c (lists s l) else lists s k)) \<and>
     (\<forall>u. u \<noteq> c \<longrightarrow> (stat_of s' u = RT_THREAD_SUSPEND) = (stat_of s u = RT_THREAD_SUSPEND)) \<and>
     (\<forall>u. u \<noteq> c \<longrightarrow> runnable s' u = runnable s u) \<and>
     (rt_scheduler_lock_nest s = 0 \<longrightarrow> (\<exists>u. stat_of s u = RT_THREAD_READY) \<longrightarrow> cur s' \<noteq> Some c)"

text \<open>The same with \<open>us\<close> as the new list.\<close>

definition waits_in :: "list_head \<Rightarrow> tid list \<Rightarrow> tid \<Rightarrow> kernel \<Rightarrow> kernel \<Rightarrow> bool" where
  "waits_in l us c s s' \<longleftrightarrow> stat_of s' c = RT_THREAD_SUSPEND \<and> data_frame s s' \<and> cur s' \<noteq> None \<and>
     (\<forall>k. wait_list k \<longrightarrow> lists s' k = (if k = l then us else lists s k)) \<and>
     (\<forall>u. u \<noteq> c \<longrightarrow> (stat_of s' u = RT_THREAD_SUSPEND) = (stat_of s u = RT_THREAD_SUSPEND)) \<and>
     (\<forall>u. u \<noteq> c \<longrightarrow> runnable s' u = runnable s u) \<and>
     (rt_scheduler_lock_nest s = 0 \<longrightarrow> (\<exists>u. stat_of s u = RT_THREAD_READY) \<longrightarrow> cur s' \<noteq> Some c)"

lemma waits_eq: "waits l flag c s s' \<longleftrightarrow> waits_in l (queued flag (prio s) c (lists s l)) c s s'"
  by (simp add: waits_def waits_in_def)

text \<open>From the state \<open>s1\<close>, in which the thread has been put into the list, its timer is started and others run.\<close>

lemma go_waiting:
  assumes inv: "kernel_inv m s" and c: "cur s = Some c" "stat_of s c = RT_THREAD_RUNNING" and l: "wait_list l"
    and time: "time < 0x7fffffff" "m \<le> 1"
    and s1: "kernel_inv m s1" "data_frame s s1" "stat_of s1 c = RT_THREAD_SUSPEND" "\<forall>u. u \<noteq> c \<longrightarrow> stat_of s1 u = stat_of s u"
      "lists s1 = (lists s)(l := us)" "cur s1 = cur s" "rt_timer_list s1 = rt_timer_list s"
  shows "\<exists>s2 s'. (if time > 0 then arm_timer c (word_of_int time) s1 else Inr s1) = Inr s2 \<and> rt_schedule s2 = Inr s' \<and>
    kernel_inv m s' \<and> waits_in l us c s s' \<and>
    (0 < time \<longrightarrow> Thread_Timer c \<in> set (rt_timer_list s') \<and> ahead s' (Thread_Timer c) = nat time + 1)"
proof -
  have out: "Thread_Timer c \<notin> set (rt_timer_list s1)"
    using kernel_invD(4) [OF inv] c(2) s1(7) by (auto simp: sleepers_ok_def)
  obtain s2 where s2: "(if time > 0 then arm_timer c (word_of_int time) s1 else Inr s1) = Inr s2" "kernel_inv m s2"
      "timer_frame s1 s2" "0 < time \<Longrightarrow> Thread_Timer c \<in> set (rt_timer_list s2) \<and> ahead s2 (Thread_Timer c) = nat time + 1"
  proof (cases "time > 0")
    case True
    have u: "unat (word_of_int time :: u32) = nat time"
      using True time by (simp add: unat_eq_nat_uint uint_word_of_int)
    then have d: "(word_of_int time :: u32) < 0x7fffffff" using True time by (simp add: word_less_nat_alt)
    obtain s2 where "arm_timer c (word_of_int time) s1 = Inr s2" "kernel_inv m s2" "timer_frame s1 s2"
      "ahead s2 (Thread_Timer c) = unat (word_of_int time :: u32) + 1"
      "set (rt_timer_list s2) = insert (Thread_Timer c) (set (rt_timer_list s1))"
      using arm_timer_ok [OF s1(1,3) d time(2) out] by blast
    then show ?thesis using that [of s2] True u by simp
  next
    case False
    have "timer_frame s1 s1" by (simp add: timer_frame_def)
    then show ?thesis using that [of s1] s1(1) False by simp
  qed
  have e2: "threads s2 = threads s1" "lists s2 = lists s1" "cur s2 = Some c" "rt_scheduler_lock_nest s2 = rt_scheduler_lock_nest s"
    "rt_tick s2 = rt_tick s" "rt_interrupt_nest s2 = rt_interrupt_nest s"
    using s2(3) s1(6) c(1) data_frameD(7,8,9) [OF s1(2)] by (simp_all add: timer_frame_def)
  obtain s' t where s': "rt_schedule s2 = Inr s'" "sched_frame s2 s'" "cur s' = Some t"
    using rt_schedule_spec [OF kernel_invD(1) [OF s2(2)] e2(3)] by blast
  note f = sched_frame_fields [OF s'(2)]
  have "data_frame s1 s2" using data_frame_refl [of s1] data_frameD(7-9) [OF s1(2)]
    by (simp add: data_frame_def e2)
  then have df: "data_frame s s'" using data_frame_trans s1(2) data_frame_sched [OF s'(2)] by blast
  have ls: "lists s' k = lists s2 k" if "wait_list k" for k
    using s'(2) wait_listD [OF that] unfolding sched_frame_def by blast
  have "waits_in l us c s s'"
    unfolding waits_in_def
  proof (intro conjI allI impI)
    show "stat_of s' c = RT_THREAD_SUSPEND" using f(14) s1(3) e2(1) by simp
    show "data_frame s s'" by (rule df)
    show "cur s' \<noteq> None" using s'(3) by simp
    show "lists s' k = (if k = l then us else lists s k)" if "wait_list k" for k
      using ls [OF that] e2(2) s1(5) by simp
    show "(stat_of s' u = RT_THREAD_SUSPEND) = (stat_of s u = RT_THREAD_SUSPEND)" if "u \<noteq> c" for u
      using f(14) s1(4) e2(1) that by simp
    show "runnable s' u = runnable s u" if "u \<noteq> c" for u
      using sched_frame_runnable [OF s'(2)] s1(4) e2(1) that by (simp add: runnable_def)
    show "cur s' \<noteq> Some c" if "rt_scheduler_lock_nest s = 0" "\<exists>u. stat_of s u = RT_THREAD_READY"
    proof -
      obtain u where u: "stat_of s u = RT_THREAD_READY" using \<open>\<exists>u. stat_of s u = RT_THREAD_READY\<close> by blast
      then have "u \<noteq> c" using c(2) by auto
      then show ?thesis
        using schedule_leaves_suspended [OF kernel_invD(1) [OF s2(2)] e2(3) _ _ _ s'(1), of u]
          that(1) e2(1,4) s1(3,4) u by auto
    qed
  qed
  then show ?thesis
    using s2(1) s'(1) kernel_inv_schedule [OF s2(2) s'(1)] s2(4) f(1,2,3) by auto
qed

lemma ipc_wait_ok:
  assumes inv: "kernel_inv m s" and c: "cur s = Some c" "stat_of s c = RT_THREAD_RUNNING" and l: "wait_list l"
    and flag: "flag = 0 \<or> flag = 1" and time: "time < 0x7fffffff" "m \<le> 1"
  shows "\<exists>s'. ipc_wait l flag time c s = Inr s' \<and> kernel_inv m s' \<and> waits l flag c s s' \<and>
    (0 < time \<longrightarrow> Thread_Timer c \<in> set (rt_timer_list s') \<and> ahead s' (Thread_Timer c) = nat time + 1)"
proof -
  obtain s1 where s1: "rt_ipc_list_suspend l c flag s = Inr s1" "kernel_inv m s1" "data_frame s s1"
      "stat_of s1 c = RT_THREAD_SUSPEND" "\<forall>u. u \<noteq> c \<longrightarrow> stat_of s1 u = stat_of s u"
      "lists s1 = (lists s)(l := queued flag (prio s) c (lists s l))" "cur s1 = cur s" "rt_timer_list s1 = rt_timer_list s"
    using rt_ipc_list_suspend_ok [OF inv c l flag] by blast
  obtain s2 s' where s': "(if time > 0 then arm_timer c (word_of_int time) s1 else Inr s1) = Inr s2" "rt_schedule s2 = Inr s'"
      "kernel_inv m s'" "waits_in l (queued flag (prio s) c (lists s l)) c s s'"
      "0 < time \<longrightarrow> Thread_Timer c \<in> set (rt_timer_list s') \<and> ahead s' (Thread_Timer c) = nat time + 1"
    using go_waiting [OF inv c l time s1(2-8)] by blast
  have "ipc_wait l flag time c s = Inr s'"
    using s1(1) s'(1,2) unfolding ipc_wait_def by (simp split: if_splits)
  then show ?thesis using s'(3-5) waits_eq by blast
qed

text \<open>With the scheduler locked the thread that waits stays the current one.\<close>

lemma suspend_cur:
  assumes "rt_ipc_list_suspend l t flag s = Inr s'"
  shows "cur s' = cur s" "rt_scheduler_lock_nest s' = rt_scheduler_lock_nest s"
proof -
  have stop: "cur (snd (rt_timer_stop i s)) = cur s" "rt_scheduler_lock_nest (snd (rt_timer_stop i s)) = rt_scheduler_lock_nest s"
    for i s by (simp_all add: rt_timer_stop_def)
  have "cur s1 = cur s \<and> rt_scheduler_lock_nest s1 = rt_scheduler_lock_nest s" if "rt_thread_suspend t s = Inr (r, s1)" for r s1
    using that by (auto simp: rt_thread_suspend_def Let_def stop split: if_splits)
  then show "cur s' = cur s" "rt_scheduler_lock_nest s' = rt_scheduler_lock_nest s"
    using assms by (auto simp: rt_ipc_list_suspend_def rbind_eq_Inr link_last_def)
qed

lemma wait_locked:
  assumes "ipc_wait l flag time t s = Inr s'" "rt_scheduler_lock_nest s \<noteq> 0"
  shows "cur s' = cur s"
proof -
  obtain s1 s2 where s1: "rt_ipc_list_suspend l t flag s = Inr s1"
      and s2: "(if time > 0 then arm_timer t (word_of_int time) s1 else Inr s1) = Inr s2" and s': "rt_schedule s2 = Inr s'"
    using assms(1) by (auto simp: ipc_wait_def rbind_eq_Inr)
  have "cur s2 = cur s1 \<and> rt_scheduler_lock_nest s2 = rt_scheduler_lock_nest s1"
    using s2 by (auto simp: arm_timer_def rt_timer_control_def rt_timer_start_def Let_def rbind_eq_Inr split: if_splits)
  then show ?thesis using suspend_cur [OF s1] s' assms(2) by simp
qed

section \<open>Waking\<close>

text \<open>The state in which the first thread \<open>t\<close> of the list \<open>l\<close> has been woken.\<close>

definition wakes :: "list_head \<Rightarrow> tid \<Rightarrow> kernel \<Rightarrow> kernel \<Rightarrow> bool" where
  "wakes l t s s' \<longleftrightarrow> runnable s' t \<and> data_frame s s' \<and> (cur s' = None) = (cur s = None) \<and>
     (\<forall>k. wait_list k \<longrightarrow> lists s' k = (if k = l then tl (lists s l) else lists s k)) \<and>
     (\<forall>u. u \<noteq> t \<longrightarrow> (stat_of s' u = RT_THREAD_SUSPEND) = (stat_of s u = RT_THREAD_SUSPEND)) \<and>
     (\<forall>u. u \<noteq> t \<longrightarrow> runnable s' u = runnable s u)"

lemma linked_once_hd:
  assumes "kernel_inv m s" "lists s l = t # ts"
  shows "removeAll t (lists s l) = ts" "k \<noteq> l \<Longrightarrow> removeAll t (lists s k) = lists s k"
proof -
  have o: "links_once s" using kernel_invD(2) [OF assms(1)] by (simp add: sched_inv_ex_def)
  then have "distinct (t # ts)" using assms(2) by (metis links_once_def)
  then show "removeAll t (lists s l) = ts" by (simp add: assms(2) removeAll_id)
  have mem: "t \<in> set (lists s l)" using assms(2) by simp
  show "removeAll t (lists s k) = lists s k" if "k \<noteq> l"
  proof (rule removeAll_id)
    show "t \<notin> set (lists s k)" using o that mem unfolding links_once_def by blast
  qed
qed

lemma wokenD:
  assumes "woken t s s'"
  shows "data_frame s s'" "runnable s' t" "u \<noteq> t \<Longrightarrow> threads s' u = threads s u" "cur s' = cur s"
    "(\<And>p. k \<noteq> Ready_Queue p) \<Longrightarrow> lists s' k = removeAll t (lists s k)"
proof -
  obtain st where th: "threads s' = (threads s)(t := (threads s t)\<lparr>stat := st\<rparr>)"
    using assms unfolding woken_def by blast
  have "\<exists>st. threads s' u = (threads s u)\<lparr>stat := st\<rparr>" for u
    using data_frame_refl [of s] by (cases "u = t") (auto simp: th data_frame_def)
  then show "data_frame s s'" using assms by (simp add: data_frame_def woken_def)
  show "runnable s' t" using assms by (simp add: woken_def runnable_def)
  show "u \<noteq> t \<Longrightarrow> threads s' u = threads s u" by (simp add: th)
qed (use assms in \<open>simp_all add: woken_def\<close>)

lemma rt_ipc_list_resume_ok:
  assumes inv: "kernel_inv m s" and l: "wait_list l" "lists s l = t # ts"
  shows "kernel_inv m (rt_ipc_list_resume l s)" "wakes l t s (rt_ipc_list_resume l s)"
    "cur (rt_ipc_list_resume l s) = cur s"
proof -
  have st: "stat_of s t = RT_THREAD_SUSPEND" using waiting_suspended [OF inv l(1)] l(2) by simp
  obtain s' where s': "rt_thread_resume t s = (RT_EOK, s')" "kernel_inv m s'" "woken t s s'"
    using rt_thread_resume_ok [OF inv st] by blast
  have e: "rt_ipc_list_resume l s = s'" using s'(1) l(2) by (simp add: rt_ipc_list_resume_def)
  note w = wokenD [OF s'(3)]
  have "lists s' k = (if k = l then tl (lists s l) else lists s k)" if "wait_list k" for k
    using w(5) [of k] wait_listD [OF that] linked_once_hd(1) [OF inv l(2)] linked_once_hd(2) [OF inv l(2), of k] l(2) by auto
  then have "wakes l t s s'" using w by (simp add: wakes_def runnable_def)
  then show "kernel_inv m (rt_ipc_list_resume l s)" "wakes l t s (rt_ipc_list_resume l s)"
    "cur (rt_ipc_list_resume l s) = cur s"
    using s'(2) w(4) by (simp_all add: e)
qed

lemma wakes_sched:
  assumes "wakes l t s s1" "sched_frame s1 s'" "(cur s' = None) = (cur s1 = None)"
  shows "wakes l t s s'"
proof -
  have "lists s' k = lists s1 k" if "wait_list k" for k
    using assms(2) wait_listD [OF that] unfolding sched_frame_def by blast
  then show ?thesis
    using assms data_frame_trans [OF _ data_frame_sched [OF assms(2)], of s] sched_frame_fields(14) [OF assms(2)]
      sched_frame_runnable [OF assms(2)]
    by (simp add: wakes_def)
qed

lemma resume_schedule_ok:
  assumes inv: "kernel_inv m s" and l: "wait_list l" "lists s l = t # ts" and c: "cur s \<noteq> None"
  shows "\<exists>s'. rt_schedule (rt_ipc_list_resume l s) = Inr s' \<and> kernel_inv m s' \<and> wakes l t s s'"
proof -
  note r = rt_ipc_list_resume_ok [OF inv l]
  obtain c' where "cur (rt_ipc_list_resume l s) = Some c'" using c r(3) by auto
  then obtain s' where s': "rt_schedule (rt_ipc_list_resume l s) = Inr s'"
    using rt_schedule_spec [OF kernel_invD(1) [OF r(1)]] by blast
  note ok = rt_schedule_ok [OF s' kernel_invD(1) [OF r(1)]]
  show ?thesis using s' kernel_inv_schedule [OF r(1) s'] wakes_sched [OF r(2) ok(2,3)] by blast
qed

text \<open>All threads of a list are woken with an error.\<close>

definition wakes_all :: "list_head \<Rightarrow> kernel \<Rightarrow> kernel \<Rightarrow> bool" where
  "wakes_all l s s' \<longleftrightarrow> lists s' l = [] \<and> (\<forall>k. wait_list k \<longrightarrow> k \<noteq> l \<longrightarrow> lists s' k = lists s k) \<and>
     (\<forall>t. t \<in> set (lists s l) \<longrightarrow> runnable s' t \<and> error (threads s' t) = - RT_ERROR) \<and>
     (\<forall>t. t \<notin> set (lists s l) \<longrightarrow> threads s' t = threads s t) \<and> (\<forall>u. prio s' u = prio s u) \<and>
     cur s' = cur s \<and> rt_tick s' = rt_tick s \<and> rt_scheduler_lock_nest s' = rt_scheduler_lock_nest s \<and>
     rt_interrupt_nest s' = rt_interrupt_nest s"

lemma resume_all_loop_ok:
  assumes "kernel_inv m s" "wait_list l" "length (lists s l) = n"
  shows "\<exists>s'. resume_all_loop n l s = Inr s' \<and> kernel_inv m s' \<and> wakes_all l s s'"
  using assms
proof (induction n arbitrary: s)
  case 0
  then show ?case by (simp add: wakes_all_def)
next
  case (Suc n)
  obtain t ts where l: "lists s l = t # ts" using Suc.prems(3) by (cases "lists s l") auto
  let ?s1 = "thr_upd t (\<lambda>r. r\<lparr>error := - RT_ERROR\<rparr>) s"
  have i1: "kernel_inv m ?s1" using Suc.prems(1) error_upd_inv by simp
  have l1: "lists ?s1 l = t # ts" using l by simp
  obtain s2 where s2: "s2 = rt_ipc_list_resume l ?s1" by blast
  note r = rt_ipc_list_resume_ok [OF i1 Suc.prems(2) l1, folded s2]
  have e2: "lists s2 k = (if k = l then ts else lists s k)" if "wait_list k" for k
    using r(2) that l by (auto simp: wakes_def)
  have nt: "t \<notin> set ts"
  proof -
    have "distinct (lists s l)" using kernel_invD(2) [OF Suc.prems(1)] unfolding sched_inv_ex_def links_once_def by blast
    then show ?thesis using l by simp
  qed
  have len: "length (lists s2 l) = n" using e2 [OF Suc.prems(2)] Suc.prems(3) l by simp
  obtain s' where s': "resume_all_loop n l s2 = Inr s'" "kernel_inv m s'" "wakes_all l s2 s'"
    using Suc.IH [OF r(1) Suc.prems(2) len] by blast
  have st: "stat_of ?s1 t = RT_THREAD_SUSPEND" using waiting_suspended [OF i1 Suc.prems(2), of t] l1 by simp
  obtain s2' where "rt_thread_resume t ?s1 = (RT_EOK, s2')" "woken t ?s1 s2'"
    using rt_thread_resume_ok [OF i1 st] by blast
  then have w: "woken t ?s1 s2" using l1 by (simp add: s2 rt_ipc_list_resume_def)
  note wd = wokenD [OF w]
  note d = data_frameD [OF wd(1)]
  have t2: "runnable s2 t" "error (threads s2 t) = - RT_ERROR" using wd(2) d(2) [of t] by simp_all
  have ts: "lists s2 l = ts" using e2 [OF Suc.prems(2)] by simp
  have other: "threads s2 u = threads s u" if "u \<noteq> t" for u using wd(3) [OF that] that by simp
  have "wakes_all l s s'"
    unfolding wakes_all_def
  proof (intro conjI allI impI)
    show "lists s' l = []" using s'(3) by (simp add: wakes_all_def)
    show "lists s' k = lists s k" if "wait_list k" "k \<noteq> l" for k
      using s'(3) e2 [OF that(1)] that by (simp add: wakes_all_def)
    have keep: "threads s' t = threads s2 t" using s'(3) nt ts by (simp add: wakes_all_def)
    show "runnable s' u" "error (threads s' u) = - RT_ERROR" if "u \<in> set (lists s l)" for u
      using s'(3) that t2 keep l ts unfolding wakes_all_def runnable_def by auto
    show "threads s' u = threads s u" if "u \<notin> set (lists s l)" for u
      using s'(3) that other l ts by (simp add: wakes_all_def)
    show "prio s' u = prio s u" for u
    proof -
      have "prio s' u = prio s2 u" using s'(3) by (simp add: wakes_all_def)
      then show ?thesis using d(1) [of u] by simp
    qed
  qed (use s'(3) wd(4) d(7-9) in \<open>simp_all add: wakes_all_def\<close>)
  moreover have "resume_all_loop (Suc n) l s = Inr s'"
    using s'(1) l by (simp add: s2 rt_ipc_list_resume_def Let_def)
  ultimately show ?case using s'(2) by blast
qed

lemma rt_ipc_list_resume_all_ok:
  assumes "kernel_inv m s" "wait_list l"
  shows "\<exists>s'. rt_ipc_list_resume_all l s = Inr s' \<and> kernel_inv m s' \<and> wakes_all l s s'"
  using resume_all_loop_ok [OF assms refl] by (simp add: rt_ipc_list_resume_all_def)

lemma wakes_all_sched:
  assumes "wakes_all l s s1" "rt_schedule s1 = Inr s'" "kernel_inv m s1" "wait_list l"
  shows "lists s' l = []" "t \<in> set (lists s l) \<Longrightarrow> runnable s' t \<and> error (threads s' t) = - RT_ERROR"
proof -
  have f: "sched_frame s1 s'" by (rule rt_schedule_ok(2) [OF assms(2) kernel_invD(1) [OF assms(3)]])
  have "lists s' l = lists s1 l" using f wait_listD [OF assms(4)] unfolding sched_frame_def by blast
  then show "lists s' l = []" using assms(1) by (simp add: wakes_all_def)
  show "runnable s' t \<and> error (threads s' t) = - RT_ERROR" if "t \<in> set (lists s l)"
    using assms(1) that sched_frame_runnable [OF f] sched_frame_fields(10) [OF f] by (simp add: wakes_all_def)
qed

section \<open>An example\<close>

text \<open>
  Thread 0 runs with priority \<open>p0\<close>, threads 1 and 2, of priorities 5 and 8, wait for the object 1 in
  the order of \<open>q\<close>, and thread 3 is ready.
\<close>

definition example_wait :: "nat \<Rightarrow> tid list \<Rightarrow> kernel" where
  "example_wait p0 q = kernel_reset
     \<lparr>threads := (\<lambda>_. thread_reset)(0 := example_thread RT_THREAD_RUNNING p0, 1 := example_thread RT_THREAD_SUSPEND 5,
         2 := example_thread RT_THREAD_SUSPEND 8, 3 := example_thread RT_THREAD_READY 20),
      lists := (\<lambda>_. [])(Suspend_List 1 := q, Ready_Queue 20 := [3]),
      rt_thread_ready_priority_group := 2 ^ 20, cur := Some 0\<rparr>"

lemma example_wait_ok:
  assumes "p0 < 32" "distinct q" "set q \<subseteq> {1, 2}"
  shows "kernel_inv m (example_wait p0 q)"
proof -
  have q: "t = 1 \<or> t = 2" if "t \<in> set q" for t using assms(3) that by auto
  then have q3: "0 \<notin> set q" "3 \<notin> set q" by fastforce+
  have "bit (2 ^ 20 :: u32) p \<longleftrightarrow> p = 20" if "p < 32" for p using that by (auto simp only: bit_exp_iff possible_bit_def) simp_all
  then have "ready_bits (example_wait p0 q)"
    unfolding ready_bits_def example_wait_def kernel_reset_def by (simp del: power_numeral)
  moreover have "links_once (example_wait p0 q)"
    using assms(2) q3 by (auto simp: links_once_def example_wait_def kernel_reset_def split: if_splits)
  moreover have "heads_ok (example_wait p0 q)"
    using q q3 by (auto simp: heads_ok_def example_wait_def kernel_reset_def head_stat_def example_thread_def split: if_splits)
  moreover have "prios_ok (example_wait p0 q)"
    using assms(1) by (simp add: prios_ok_def example_wait_def kernel_reset_def thread_reset_def example_thread_def)
  moreover have "stats_ok {} (example_wait p0 q)"
    by (simp add: stats_ok_def example_wait_def kernel_reset_def thread_reset_def example_thread_def)
  ultimately have "sched_inv (example_wait p0 q)" by (simp add: sched_inv_def sched_inv_ex_def)
  then show ?thesis
    by (simp add: kernel_inv_def timers_ok_def sleepers_ok_def)
      (simp add: example_wait_def kernel_reset_def timer_reset_def)
qed

lemma example_wait_simps:
  "cur (example_wait p0 q) = Some 0" "stat_of (example_wait p0 q) 0 = RT_THREAD_RUNNING" "rt_interrupt_nest (example_wait p0 q) = 0"
  "lists (example_wait p0 q) (Suspend_List 1) = q" "prio (example_wait p0 q) 0 = p0" "prio (example_wait p0 q) 1 = 5"
  "prio (example_wait p0 q) 2 = 8" "rt_timer_list (example_wait p0 q) = []" "rt_scheduler_lock_nest (example_wait p0 q) = 0"
  "error (threads (example_wait p0 q) t) = 0"
  by (simp_all add: example_wait_def kernel_reset_def example_thread_def thread_reset_def)

end
