(* ===== verification/Idle.thy ===== *)
theory Idle
  imports Ipc
begin

text \<open>
  The idle thread, \<^verbatim>\<open>rt-thread/src/idle.c\<close>: its hooks, and the clean-up of closed threads.

  \<^item> A hook is a number; the table has \<open>RT_IDEL_HOOK_LIST_SIZE\<close> places.
  \<^item> The clean-up function of a thread is code of its creator, the argument \<open>cleanup\<close>. What it may do is
    \<open>cleanup_ok\<close>.
  \<^item> A round takes one thread from the list of closed threads. The result of \<open>rt_thread_idle_excute\<close> has the
    threads whose stack and control block were given back to the heap.
\<close>

section \<open>Operations\<close>

definition RT_IDEL_HOOK_LIST_SIZE :: nat where "RT_IDEL_HOOK_LIST_SIZE = 4"

type_synonym hook_list = "nat option list"

text \<open>The first place that holds \<open>h\<close> gets \<open>h'\<close>.\<close>

fun replace_first :: "nat option \<Rightarrow> nat option \<Rightarrow> hook_list \<Rightarrow> hook_list option" where
  "replace_first h h' [] = None"
| "replace_first h h' (x # xs) = (if x = h then Some (h' # xs) else map_option ((#) x) (replace_first h h' xs))"

definition rt_thread_idle_sethook :: "nat option \<Rightarrow> hook_list \<Rightarrow> int \<times> hook_list" where
  "rt_thread_idle_sethook hook hs =
     (case replace_first None hook hs of None \<Rightarrow> (- RT_EFULL, hs) | Some hs' \<Rightarrow> (RT_EOK, hs'))"

definition rt_thread_idle_delhook :: "nat option \<Rightarrow> hook_list \<Rightarrow> int \<times> hook_list" where
  "rt_thread_idle_delhook hook hs =
     (case replace_first hook None hs of None \<Rightarrow> (- RT_ENOSYS, hs) | Some hs' \<Rightarrow> (RT_EOK, hs'))"

text \<open>The hooks that one pass of the idle thread calls, in this order.\<close>

definition hooks_called :: "hook_list \<Rightarrow> nat list" where
  "hooks_called hs = map the (filter (\<lambda>h. h \<noteq> None) hs)"

definition has_defunct_thread :: "kernel \<Rightarrow> bool" where
  "has_defunct_thread s \<longleftrightarrow> lists s Defunct_List \<noteq> []"

text \<open>The first closed thread is taken out of the list, and the scheduler is locked for the clean-up.\<close>

definition idle_take :: "kernel \<Rightarrow> kernel" where
  "idle_take s = rt_enter_critical (unlink (hd (lists s Defunct_List)) s)"

datatype idle_result = No_Thread | Detached tid | Released tid

definition idle_round :: "(tid \<Rightarrow> kernel \<Rightarrow> fault + kernel) \<Rightarrow> kernel \<Rightarrow> fault + idle_result \<times> kernel" where
  "idle_round cleanup s =
     (if \<not> has_defunct_thread s then Inr (No_Thread, s)
      else if \<not> not_in_interrupt s then Inl Assert_Fail
      else
        let t = hd (lists s Defunct_List)
        in rbind (if has_cleanup (threads s t) then cleanup t (idle_take s) else Inr (idle_take s)) (\<lambda>s.
           let r = (if is_system (threads s t) then Detached t else Released t)
           in rbind (rt_exit_critical s) (\<lambda>s. Inr (r, s))))"

fun rt_thread_idle_excute :: "(tid \<Rightarrow> kernel \<Rightarrow> fault + kernel) \<Rightarrow> nat \<Rightarrow> kernel \<Rightarrow> fault + tid list \<times> kernel" where
  "rt_thread_idle_excute cleanup 0 s = Inl Endless_Loop"
| "rt_thread_idle_excute cleanup (Suc k) s =
     rbind (idle_round cleanup s) (\<lambda>(r, s).
     case r of
       Released t \<Rightarrow> rbind (rt_thread_idle_excute cleanup k s) (\<lambda>(ts, s). Inr (t # ts, s))
     | _ \<Rightarrow> Inr ([], s))"

text \<open>\<open>t\<close> is the control block of the idle thread.\<close>

definition rt_thread_idle_init :: "tid \<Rightarrow> kernel \<Rightarrow> fault + kernel" where
  "rt_thread_idle_init t s =
     rbind (rt_thread_init t (of_nat (RT_THREAD_PRIORITY_MAX - 1)) 32 s) (\<lambda>(_, s).
     rbind (rt_thread_startup t s) (\<lambda>(_, s). Inr s))"

section \<open>Hooks\<close>

lemma replace_first_None: "replace_first h h' hs = None \<longleftrightarrow> h \<notin> set hs"
  by (induction hs) auto

lemma replace_first_Some:
  "replace_first h h' hs = Some hs' \<Longrightarrow> \<exists>xs ys. hs = xs @ h # ys \<and> h \<notin> set xs \<and> hs' = xs @ h' # ys"
proof (induction hs arbitrary: hs')
  case (Cons x hs)
  show ?case
  proof (cases "x = h")
    case True
    then have "x # hs = [] @ h # hs \<and> h \<notin> set [] \<and> hs' = [] @ h' # hs" using Cons.prems by simp
    then show ?thesis by blast
  next
    case False
    then obtain hs1 where "replace_first h h' hs = Some hs1" "hs' = x # hs1" using Cons.prems by auto
    then obtain xs ys where "x # hs = (x # xs) @ h # ys \<and> h \<notin> set (x # xs) \<and> hs' = (x # xs) @ h' # ys"
      using Cons.IH False by fastforce
    then show ?thesis by blast
  qed
qed simp

text \<open>
  A hook is entered unless all places are taken; it is then called once more in every pass, and a hook that
  is deleted once less.
\<close>

lemma sethook_cases:
  "rt_thread_idle_sethook (Some h) hs =
     (if None \<in> set hs then (RT_EOK, snd (rt_thread_idle_sethook (Some h) hs)) else (- RT_EFULL, hs))"
  using replace_first_None [of None "Some h" hs] by (auto simp: rt_thread_idle_sethook_def split: option.splits)

lemma sethook_calls:
  assumes "rt_thread_idle_sethook (Some h) hs = (RT_EOK, hs')"
  shows "length hs' = length hs" "\<exists>xs ys. hooks_called hs = xs @ ys \<and> hooks_called hs' = xs @ h # ys"
proof -
  obtain xs ys where "hs = xs @ None # ys" "hs' = xs @ Some h # ys"
    using assms replace_first_Some [of None "Some h" hs hs']
    by (auto simp: rt_thread_idle_sethook_def rt_err_defs split: option.splits)
  then show "length hs' = length hs" "\<exists>xs ys. hooks_called hs = xs @ ys \<and> hooks_called hs' = xs @ h # ys"
    by (auto simp: hooks_called_def)
qed

lemma delhook_calls:
  assumes "rt_thread_idle_delhook (Some h) hs = (RT_EOK, hs')"
  shows "length hs' = length hs" "hooks_called hs' = remove1 h (hooks_called hs)" "h \<in> set (hooks_called hs)"
proof -
  obtain xs ys where xs: "hs = xs @ Some h # ys" "hs' = xs @ None # ys" "Some h \<notin> set xs"
    using assms replace_first_Some [of "Some h" None hs hs']
    by (auto simp: rt_thread_idle_delhook_def rt_err_defs split: option.splits)
  have "h \<notin> set (map the (filter (\<lambda>h. h \<noteq> None) xs))" using xs(3) by force
  then show "length hs' = length hs" "hooks_called hs' = remove1 h (hooks_called hs)" "h \<in> set (hooks_called hs)"
    using xs(1,2) by (auto simp: hooks_called_def remove1_append)
qed

section \<open>Clean-up\<close>

lemma idle_take_inv:
  assumes inv: "kernel_inv m s" and ne: "lists s Defunct_List \<noteq> []"
  shows "kernel_inv m (idle_take s)" "lists (idle_take s) Defunct_List = tl (lists s Defunct_List)"
    "stat_of s (hd (lists s Defunct_List)) = RT_THREAD_CLOSE"
proof -
  obtain t ts where l: "lists s Defunct_List = t # ts" using ne by (cases "lists s Defunct_List") auto
  note k = kernel_invD [OF inv]
  have "heads_ok s" using k(2) by (simp add: sched_inv_ex_def)
  then have "stat_of s t = head_stat Defunct_List" using l unfolding heads_ok_def by auto
  then have st: "stat_of s t = RT_THREAD_CLOSE" by (simp add: head_stat_def)
  then show "stat_of s (hd (lists s Defunct_List)) = RT_THREAD_CLOSE" using l by simp
  have "sched_inv_ex {} (unlink t s)" by (rule unlink_inv [OF k(2)]) (use st in simp)
  moreover have "timers_ok m (unlink t s) = timers_ok m s" by (rule timers_ok_same) simp_all
  moreover have "sleepers_ok (unlink t s) = sleepers_ok s" by (simp add: sleepers_ok_def)
  ultimately have "kernel_inv m (unlink t s)" using k by (simp add: kernel_inv_def sched_inv_def)
  then show "kernel_inv m (idle_take s)" using l by (simp add: idle_take_def rt_enter_critical_inv)
  show "lists (idle_take s) Defunct_List = tl (lists s Defunct_List)"
    using linked_once_hd(1) [OF inv l] l by (simp add: idle_take_def rt_enter_critical_def)
qed

text \<open>What the clean-up functions of threads are relied on for.\<close>

definition cleanup_ok :: "nat \<Rightarrow> (tid \<Rightarrow> kernel \<Rightarrow> fault + kernel) \<Rightarrow> bool" where
  "cleanup_ok m f \<longleftrightarrow> (\<forall>t s. kernel_inv m s \<longrightarrow> cur s \<noteq> None \<longrightarrow> (\<exists>s'. f t s = Inr s' \<and> kernel_inv m s' \<and> cur s' \<noteq> None \<and>
     lists s' Defunct_List = lists s Defunct_List \<and> rt_interrupt_nest s' = rt_interrupt_nest s \<and>
     (\<forall>u. is_system (threads s' u) = is_system (threads s u))))"

lemma idle_round_ok:
  assumes inv: "kernel_inv m s" and c: "cur s \<noteq> None" "rt_interrupt_nest s = 0" and l: "lists s Defunct_List = t # ts"
    and f: "cleanup_ok m cleanup"
  shows "\<exists>s'. idle_round cleanup s = Inr (if is_system (threads s t) then Detached t else Released t, s') \<and> kernel_inv m s' \<and>
    cur s' \<noteq> None \<and> rt_interrupt_nest s' = 0 \<and> lists s' Defunct_List = ts \<and> (\<forall>u. is_system (threads s' u) = is_system (threads s u))"
proof -
  have ne: "lists s Defunct_List \<noteq> []" using l by simp
  note i = idle_take_inv [OF inv ne]
  have e: "threads (idle_take s) = threads s" "cur (idle_take s) = cur s" "rt_interrupt_nest (idle_take s) = rt_interrupt_nest s"
    by (simp_all add: idle_take_def rt_enter_critical_def)
  obtain s1 where s1: "(if has_cleanup (threads s t) then cleanup t (idle_take s) else Inr (idle_take s)) = Inr s1" "kernel_inv m s1"
      "cur s1 \<noteq> None" "lists s1 Defunct_List = ts" "rt_interrupt_nest s1 = 0" "\<forall>u. is_system (threads s1 u) = is_system (threads s u)"
  proof (cases "has_cleanup (threads s t)")
    case True
    then show ?thesis using f i(1,2) c e l that unfolding cleanup_ok_def by fastforce
  qed (use i(1,2) c e l that in simp)
  obtain s' where s': "rt_exit_critical s1 = Inr s'" "kernel_inv m s'" "cur s' \<noteq> None" "lists s' Defunct_List = ts" "rt_interrupt_nest s' = 0"
      "\<forall>u. is_system (threads s' u) = is_system (threads s1 u)"
    using rt_exit_critical_ok [OF s1(2,3)] s1(4,5) by auto
  have "idle_round cleanup s = Inr (if is_system (threads s t) then Detached t else Released t, s')"
    using s1(1,6) s'(1) l c(2) by (simp add: idle_round_def has_defunct_thread_def not_in_interrupt_def rt_interrupt_get_nest_def Let_def)
  then show ?thesis using s' s1(6) by auto
qed


text \<open>The threads that one call gives back, and the ones that are still in the list after it.\<close>

definition idle_releases :: "kernel \<Rightarrow> tid list" where
  "idle_releases s = takeWhile (\<lambda>t. \<not> is_system (threads s t)) (lists s Defunct_List)"

definition idle_leaves :: "kernel \<Rightarrow> tid list" where
  "idle_leaves s = tl (dropWhile (\<lambda>t. \<not> is_system (threads s t)) (lists s Defunct_List))"

lemma idle_excute_run:
  assumes "kernel_inv m s" "cur s \<noteq> None" "rt_interrupt_nest s = 0" "cleanup_ok m cleanup"
    and "length (lists s Defunct_List) < k"
  shows "\<exists>s'. rt_thread_idle_excute cleanup k s = Inr (idle_releases s, s') \<and> kernel_inv m s' \<and> cur s' \<noteq> None \<and>
    lists s' Defunct_List = idle_leaves s"
  using assms
proof (induction k arbitrary: s)
  case (Suc k)
  show ?case
  proof (cases "lists s Defunct_List")
    case Nil
    then show ?thesis using Suc.prems
      by (simp add: idle_round_def has_defunct_thread_def idle_releases_def idle_leaves_def)
  next
    case (Cons t ts)
    obtain s1 where r: "idle_round cleanup s = Inr (if is_system (threads s t) then Detached t else Released t, s1)"
      and s1: "kernel_inv m s1" "cur s1 \<noteq> None" "rt_interrupt_nest s1 = 0" "lists s1 Defunct_List = ts"
        "\<forall>u. is_system (threads s1 u) = is_system (threads s u)"
      using idle_round_ok [OF Suc.prems(1-3) Cons Suc.prems(4)] by blast
    show ?thesis
    proof (cases "is_system (threads s t)")
      case True
      then show ?thesis using r s1 Cons by (simp add: idle_releases_def idle_leaves_def)
    next
      case False
      have "idle_releases s = t # idle_releases s1" "idle_leaves s = idle_leaves s1"
        using False Cons s1(4,5) by (simp_all add: idle_releases_def idle_leaves_def)
      moreover have "length (lists s1 Defunct_List) < k" using Suc.prems(5) Cons s1(4) by simp
      ultimately show ?thesis using Suc.IH [OF s1(1-3) Suc.prems(4)] False r by force
    qed
  qed
qed simp

text \<open>C21: C0: One call of the idle thread's clean-up releases the stacks and control blocks of the closed threads in the
  order of the list up to the first thread that was not made by rt_thread_create, and stops after that one: the
  closed threads behind it stay in the list. It comes to an end, and keeps the invariant of the kernel.
\<close>

theorem idle_cleans_up_to_static:
  assumes "kernel_inv m s" "cur s \<noteq> None" "rt_interrupt_nest s = 0" "cleanup_ok m cleanup"
    and "length (lists s Defunct_List) < fuel"
  shows "\<exists>s'. rt_thread_idle_excute cleanup fuel s = Inr (idle_releases s, s') \<and> kernel_inv m s' \<and>
    lists s' Defunct_List = idle_leaves s"
  using idle_excute_run [OF assms] by blast

text \<open>Two closed threads; the first was initialised with memory of the user.\<close>

definition example_closed :: kernel where
  "example_closed = snd (projr (rbind (rt_thread_delete 1 (thr_upd 2 (\<lambda>r. r\<lparr>is_system := True, has_cleanup := True\<rparr>)
     (example_wait 10 []))) (\<lambda>(_, s). rt_thread_detach 2 s)))"

lemma example_closed_ok:
  "kernel_inv 1 example_closed" "cur example_closed = Some 0" "rt_interrupt_nest example_closed = 0"
  "lists example_closed Defunct_List = [2, 1]" "is_system (threads example_closed t) \<longleftrightarrow> t = 2"
proof -
  let ?s = "thr_upd 2 (\<lambda>r. r\<lparr>is_system := True, has_cleanup := True\<rparr>) (example_wait 10 [])"
  have i: "kernel_inv 1 ?s" by (subst field_upd_kernel_inv) (simp_all add: example_wait_ok)
  have "\<not> is_system (threads ?s 1)" by (simp add: example_wait_def example_thread_def thread_reset_def)
  then obtain s1 where s1: "rt_thread_delete 1 ?s = Inr (RT_EOK, s1)" "kernel_inv 1 s1" using rt_thread_delete_ok [OF i] by blast
  have s1_eq: "s1 = snd (projr (rt_thread_delete 1 ?s))" by (simp only: s1(1) sum.sel snd_conv)
  have l1: "lists s1 Defunct_List = [1]" and c1: "cur s1 = Some 0" "rt_interrupt_nest s1 = 0"
    and y1: "is_system (threads s1 t) \<longleftrightarrow> t = 2" "has_cleanup (threads s1 t) \<longleftrightarrow> t = 2" for t
    unfolding s1_eq
    by (simp_all add: rt_thread_delete_def rt_timer_detach_def rt_timer_remove_def rt_schedule_remove_thread_def link_first_def
        example_wait_def example_thread_def thread_reset_def kernel_reset_def Let_def)
  have "is_system (threads s1 2)" using y1 by simp
  then obtain s2 where s2: "rt_thread_detach 2 s1 = Inr (RT_EOK, s2)" "kernel_inv 1 s2" using rt_thread_detach_ok [OF s1(2)] by blast
  have s2_eq: "s2 = snd (projr (rt_thread_detach 2 s1))" by (simp only: s2(1) sum.sel snd_conv)
  have "lists s2 Defunct_List = [2, 1]" "cur s2 = Some 0" "rt_interrupt_nest s2 = 0" "is_system (threads s2 t) \<longleftrightarrow> t = 2"
    unfolding s2_eq
    by (simp_all add: rt_thread_detach_def rt_timer_detach_def rt_timer_remove_def rt_schedule_remove_thread_def link_first_def
        l1 c1 y1 Let_def)
  moreover have "example_closed = s2" by (simp add: example_closed_def s1(1) s2(1) del: One_nat_def)
  ultimately show "kernel_inv 1 example_closed" "cur example_closed = Some 0" "rt_interrupt_nest example_closed = 0"
    "lists example_closed Defunct_List = [2, 1]" "is_system (threads example_closed t) \<longleftrightarrow> t = 2"
    using s2(2) by auto
qed

theorem idle_cleans_up_to_static_witness:
  "\<exists>s'. rt_thread_idle_excute (\<lambda>t s. Inr s) 3 example_closed = Inr ([], s') \<and> kernel_inv 1 s' \<and> lists s' Defunct_List = [1]"
proof -
  have "cleanup_ok 1 (\<lambda>t s. Inr s)" by (simp add: cleanup_ok_def)
  moreover have "idle_releases example_closed = []" "idle_leaves example_closed = [1]"
    by (simp_all add: idle_releases_def idle_leaves_def example_closed_ok)
  ultimately show ?thesis using idle_cleans_up_to_static [of 1 example_closed "\<lambda>t s. Inr s" 3] example_closed_ok by (simp del: One_nat_def)
qed

end
