(* ===== verification/Kernel_Steps.thy ===== *)
theory Kernel_Steps
  imports Idle
begin

text \<open>
  The kernel in operation: a step relation whose steps are the calls of the kernel and the tick, and
  the states that can be reached by them.

  \<^item> \<open>kstep obj s s'\<close>: a call of \<^verbatim>\<open>scheduler.c\<close>, \<^verbatim>\<open>thread.c\<close>, \<^verbatim>\<open>timer.c\<close>, \<^verbatim>\<open>irq.c\<close> or of the waiting lists of
    \<^verbatim>\<open>ipc.c\<close>, the clean-up of the idle thread, or a tick, takes \<open>s\<close> to \<open>s'\<close>. A premise of a step is what its caller has to see to.
  \<^item> \<open>live s\<close> holds in every state that is reached: the invariant of the kernel, and a current thread.
\<close>

section \<open>Steps\<close>

inductive kstep :: "(nat \<Rightarrow> kernel \<Rightarrow> fault + kernel) \<Rightarrow> kernel \<Rightarrow> kernel \<Rightarrow> bool"
  for obj :: "nat \<Rightarrow> kernel \<Rightarrow> fault + kernel" where
  k_schedule: "rt_schedule s = Inr s' \<Longrightarrow> kstep obj s s'"
| k_enter_critical: "kstep obj s (rt_enter_critical s)"
| k_exit_critical: "rt_exit_critical s = Inr s' \<Longrightarrow> kstep obj s s'"
| k_interrupt_enter: "kstep obj s (rt_interrupt_enter s)"
| k_interrupt_leave: "kstep obj s (rt_interrupt_leave s)"
| k_init: "unused s t \<Longrightarrow> rt_thread_init t p tick s = Inr (r, s') \<Longrightarrow> kstep obj s s'"
| k_create: "unused s t \<Longrightarrow> rt_thread_create mem_obj mem_stack t p tick s = Inr (r, s') \<Longrightarrow> kstep obj s s'"
| k_startup: "cur s \<noteq> Some t \<Longrightarrow> rt_thread_startup t s = Inr (r, s') \<Longrightarrow> kstep obj s s'"
| k_yield: "rt_thread_yield s = Inr (r, s') \<Longrightarrow> kstep obj s s'"
| k_sleep: "cur s = Some c \<Longrightarrow> stat_of s c = RT_THREAD_RUNNING \<Longrightarrow> rt_thread_sleep d s = Inr s' \<Longrightarrow> kstep obj s s'"
| k_sleep_wake: "kstep obj s (snd (rt_thread_sleep_wake t s))"
| k_suspend: "rt_thread_suspend t s = Inr (r, s') \<Longrightarrow> kstep obj s s'"
| k_resume: "kstep obj s (snd (rt_thread_resume t s))"
| k_control: "cur s \<noteq> Some t \<or> cmd \<noteq> RT_THREAD_CTRL_STARTUP \<Longrightarrow> rt_thread_control t cmd s = Inr (r, s') \<Longrightarrow> kstep obj s s'"
| k_detach: "rt_thread_detach t s = Inr (r, s') \<Longrightarrow> kstep obj s s'"
| k_delete: "rt_thread_delete t s = Inr (r, s') \<Longrightarrow> kstep obj s s'"
| k_exit: "cur s = Some c \<Longrightarrow> stat_of s c = RT_THREAD_RUNNING \<Longrightarrow> rt_thread_exit s = Inr s' \<Longrightarrow> kstep obj s s'"
| k_timer_start: "rt_timer_start (Obj_Timer n) s = Inr (r, s') \<Longrightarrow> kstep obj s s'"
| k_timer_stop: "kstep obj s (snd (rt_timer_stop (Obj_Timer n) s))"
| k_timer_detach: "kstep obj s (snd (rt_timer_detach (Obj_Timer n) s))"
| k_timer_control: "kstep obj s (snd (snd (rt_timer_control (Obj_Timer n) cmd s)))"
| k_wait: "cur s = Some c \<Longrightarrow> stat_of s c = RT_THREAD_RUNNING \<Longrightarrow> wait_list l \<Longrightarrow> flag = RT_IPC_FLAG_FIFO \<or> flag = RT_IPC_FLAG_PRIO \<Longrightarrow>
     time < 0x7fffffff \<Longrightarrow> ipc_wait l flag time c s = Inr s' \<Longrightarrow> kstep obj s s'"
| k_wake: "wait_list l \<Longrightarrow> lists s l \<noteq> [] \<Longrightarrow> kstep obj s (rt_ipc_list_resume l s)"
| k_wake_all: "wait_list l \<Longrightarrow> rt_ipc_list_resume_all l s = Inr s' \<Longrightarrow> kstep obj s s'"
| k_idle: "lists s Defunct_List \<noteq> [] \<Longrightarrow> kstep obj s (idle_take s)"
| k_tick: "periods_ok s \<Longrightarrow> length (rt_timer_list s) < fuel \<Longrightarrow> rt_tick_increase obj fuel s = Some (Inr s') \<Longrightarrow> kstep obj s s'"

definition live :: "kernel \<Rightarrow> bool" where
  "live s \<longleftrightarrow> kernel_inv 1 s \<and> cur s \<noteq> None"

section \<open>The current thread\<close>

lemma insert_remove_cur [simp]:
  "cur (rt_schedule_insert_thread t s) = cur s" "cur (rt_schedule_remove_thread t s) = cur s"
  by (simp_all add: rt_schedule_insert_thread_def rt_schedule_remove_thread_def Let_def)

lemma schedule_cur: "rt_schedule s = Inr s' \<Longrightarrow> cur s \<noteq> None \<Longrightarrow> cur s' \<noteq> None"
  by (auto simp: rt_schedule_def schedule_from_def Let_def split: if_splits option.splits prod.splits)

lemma live_schedule: "live s \<Longrightarrow> rt_schedule s = Inr s' \<Longrightarrow> live s'"
  using kernel_inv_schedule [of 1 s s'] schedule_cur [of s s'] by (simp add: live_def)

lemma stop_cur [simp]: "cur (snd (rt_timer_stop i s)) = cur s"
  by (simp add: rt_timer_stop_def)

lemma resume_cur [simp]: "cur (snd (rt_thread_resume t s)) = cur s"
  by (simp add: rt_thread_resume_def Let_def)

section \<open>Every step keeps the kernel in order\<close>

lemma live_inv: "live s \<Longrightarrow> kernel_inv 1 s"
  by (simp add: live_def)

lemma live_suspend:
  assumes "live s" "rt_thread_suspend t s = Inr (r, s')"
  shows "live s'"
proof (cases "stat_of s t = RT_THREAD_READY \<or> stat_of s t = RT_THREAD_RUNNING")
  case True
  then show ?thesis using rt_thread_suspend_ok [OF live_inv [OF assms(1)] True] assms by (auto simp: live_def)
next
  case False
  then show ?thesis using rt_thread_suspend_refused [of s t] assms by simp
qed

lemma live_resume: "live s \<Longrightarrow> live (snd (rt_thread_resume t s))"
  using rt_thread_resume_ok [of 1 s t] rt_thread_resume_refused [of s t]
  by (cases "stat_of s t = RT_THREAD_SUSPEND") (fastforce simp: live_def woken_def)+

lemma live_init_core:
  assumes "live s" "unused s t" "rt_thread_init_core t sys p tick s = Inr s'"
  shows "live s'"
proof -
  have "unat p < 32" using assms(3) rt_thread_init_core_refused [of p t sys tick s] by fastforce
  then show ?thesis
    using rt_thread_init_core_ok [OF live_inv [OF assms(1)] assms(2), of p sys tick] assms by (auto simp: live_def)
qed

lemma startup_cur:
  assumes "rt_thread_startup t s = Inr (r, s')" "cur s \<noteq> None"
  shows "cur s' \<noteq> None"
proof -
  let ?s = "snd (rt_thread_resume t (thr_upd t (\<lambda>r. r\<lparr>current_priority := init_priority (threads s t),
     number_mask := push_bit (init_priority (threads s t)) 1, stat := RT_THREAD_SUSPEND\<rparr>) s))"
  have "rt_schedule ?s = Inr s'" "cur ?s = cur s"
    using assms by (auto simp: rt_thread_startup_def rt_thread_self_def Let_def rbind_eq_Inr split: if_splits)
  then show ?thesis using schedule_cur assms(2) by metis
qed

lemma live_startup:
  assumes "live s" "cur s \<noteq> Some t" "rt_thread_startup t s = Inr (r, s')"
  shows "live s'"
proof -
  have "stat_of s t = RT_THREAD_INIT" using assms(3) by (auto simp: rt_thread_startup_def split: if_splits)
  then show ?thesis
    using rt_thread_startup_ok [OF live_inv [OF assms(1)] _ assms(2)] startup_cur [OF assms(3)] assms(1,3)
    by (auto simp: live_def)
qed

lemma live_delete: "live s \<Longrightarrow> rt_thread_delete t s = Inr (r, s') \<Longrightarrow> live s'"
  using rt_thread_delete_ok [of 1 s t] by (cases "is_system (threads s t)") (auto simp: live_def rt_thread_delete_def)

lemma live_detach: "live s \<Longrightarrow> rt_thread_detach t s = Inr (r, s') \<Longrightarrow> live s'"
  using rt_thread_detach_ok [of 1 s t] by (cases "is_system (threads s t)") (auto simp: live_def rt_thread_detach_def)

lemma set_priority_Inr: "set_priority p t s = Inr s' \<Longrightarrow> unat p < 32"
  by (simp add: set_priority_def split: if_splits)

lemma live_control:
  assumes "live s" "cur s \<noteq> Some t \<or> cmd \<noteq> RT_THREAD_CTRL_STARTUP" "rt_thread_control t cmd s = Inr (r, s')"
  shows "live s'"
proof (cases cmd)
  case (RT_THREAD_CTRL_CHANGE_PRIORITY p)
  then have "unat p < 32" using assms(3) rt_thread_control_priority_refused [of p t s] by fastforce
  then show ?thesis
    using rt_thread_control_priority_ok [OF live_inv [OF assms(1)], of p t] assms RT_THREAD_CTRL_CHANGE_PRIORITY
    by (auto simp: live_def)
next
  case RT_THREAD_CTRL_STARTUP
  then show ?thesis using live_startup [OF assms(1)] assms(2,3) by (simp add: rt_thread_control_def)
next
  case RT_THREAD_CTRL_CLOSE
  then show ?thesis using live_delete [OF assms(1)] assms(3) by (simp add: rt_thread_control_def)
next
  case RT_THREAD_CTRL_INFO
  then show ?thesis using assms by (simp add: rt_thread_control_def)
qed

lemma live_sleep:
  assumes "live s" "cur s = Some c" "stat_of s c = RT_THREAD_RUNNING" "rt_thread_sleep d s = Inr s'"
  shows "live s'"
proof -
  note inv = live_inv [OF assms(1)]
  obtain s1 where s1: "rt_thread_suspend c s = Inr (RT_EOK, s1)" "kernel_inv 1 s1" "stat_of s1 c = RT_THREAD_SUSPEND"
      "cur s1 = cur s" "rt_timer_list s1 = rt_timer_list s"
    using rt_thread_suspend_ok [OF inv] assms(3) by fastforce
  obtain s2 where s2: "arm_timer c d s1 = Inr s2" "rt_schedule s2 = Inr s'"
    using assms(2,4) s1(1) by (auto simp: rt_thread_sleep_def rt_thread_self_def rbind_eq_Inr)
  have d: "d < 0x7fffffff" using s2(1) arm_timer_refused [of d c s1] by fastforce
  have "Thread_Timer c \<notin> set (rt_timer_list s1)"
    using kernel_invD(4) [OF inv] assms(3) s1(5) by (auto simp: sleepers_ok_def)
  then have "kernel_inv 1 s2" "cur s2 = cur s1"
    using arm_timer_ok [OF s1(2,3) d] s2(1) by (auto simp: timer_frame_def)
  then show ?thesis using live_schedule [OF _ s2(2)] s1(4) assms(2) by (simp add: live_def)
qed

lemma live_timer_start:
  assumes "live s" "rt_timer_start (Obj_Timer n) s = Inr (r, s')"
  shows "live s'"
proof -
  have d: "tm_init_tick (timers s (Obj_Timer n)) < 0x7fffffff"
    using assms(2) timer_start_refused [of s "Obj_Timer n"] by fastforce
  note k = kernel_invD [OF live_inv [OF assms(1)]]
  have t: "timers_ok 1 s'" "timer_frame s s'" "set (rt_timer_list s') \<subseteq> insert (Obj_Timer n) (set (rt_timer_list s))"
    using timer_start_ok [OF k(3) d] assms(2) by auto
  then have "sleepers_ok s'" using k(4) by (auto simp: sleepers_ok_def timer_frame_def)
  moreover have "cur s' = cur s" using t(2) by (simp add: timer_frame_def)
  ultimately show ?thesis
    using t(1) k(2) timer_frame_inv [OF t(2)] assms(1) by (simp add: live_def kernel_inv_def sched_inv_def)
qed

lemma live_timer_quiet:
  assumes "live s" "timer_frame s s'" "timers_ok 1 s'" "set (rt_timer_list s') \<subseteq> set (rt_timer_list s)"
  shows "live s'"
proof -
  note k = kernel_invD [OF live_inv [OF assms(1)]]
  have "cur s' = cur s" using assms(2) by (simp add: timer_frame_def)
  then show ?thesis
    using kernel_inv_timer_frame [OF assms(2) k(1) assms(3,4) k(4)] assms(1) by (simp add: live_def)
qed

lemma live_timer_ops:
  assumes "live s"
  shows "live (snd (rt_timer_stop i s))" "live (snd (rt_timer_detach i s))"
    "live (snd (snd (rt_timer_control (Obj_Timer n) cmd s)))"
proof -
  note t = kernel_invD(3) [OF live_inv [OF assms]]
  show "live (snd (rt_timer_stop i s))"
    using live_timer_quiet [OF assms timer_stop_ok(3,1) [OF t]] timer_stop_ok(5) [OF t] by auto
  show "live (snd (rt_timer_detach i s))"
    using assms remove_timer_inv by (simp add: live_def rt_timer_detach_def)
  let ?s = "snd (snd (rt_timer_control (Obj_Timer n) cmd s))"
  have fr: "timer_frame s ?s" "rt_timer_list ?s = rt_timer_list s"
    by (simp_all add: timer_frame_def rt_timer_control_def split: timer_cmd.split)
  have "timers_ok 1 ?s = timers_ok 1 s"
    by (rule timers_ok_cong) (auto simp: rt_timer_control_def split: timer_cmd.split)
  then show "live ?s" using live_timer_quiet [OF assms fr(1)] t fr(2) by simp
qed

lemma live_wakes:
  assumes "live s" "wait_list l" "lists s l \<noteq> []"
  shows "live (rt_ipc_list_resume l s)"
proof -
  obtain t ts where l: "lists s l = t # ts" using assms(3) by (cases "lists s l") auto
  show ?thesis
    using rt_ipc_list_resume_ok [OF live_inv [OF assms(1)] assms(2) l] assms(1) by (simp add: live_def)
qed

lemma resume_all_cur: "resume_all_loop n l s = Inr s' \<Longrightarrow> cur s' = cur s"
  by (induction n arbitrary: s) (auto simp: Let_def split: if_splits)

lemma kstep_live:
  assumes "timer_callback obj" "kstep obj s s'" "live s"
  shows "live s'"
  using assms(2)
proof cases
  case k_schedule
  then show ?thesis using live_schedule [OF assms(3)] by simp
next
  case k_enter_critical
  then show ?thesis using assms(3) by (simp add: live_def rt_enter_critical_inv) (simp add: rt_enter_critical_def)
next
  case k_exit_critical
  have "cur s' \<noteq> None"
    using k_exit_critical assms(3) schedule_cur [of _ s'] by (auto simp: rt_exit_critical_def Let_def live_def split: if_splits)
  then show ?thesis using rt_exit_critical_inv [OF live_inv [OF assms(3)] k_exit_critical] by (simp add: live_def)
next
  case k_idle
  then show ?thesis using idle_take_inv(1) [OF live_inv [OF assms(3)]] assms(3)
    by (simp add: live_def) (simp add: idle_take_def rt_enter_critical_def)
next
  case (k_init t p tick r)
  then show ?thesis using live_init_core [OF assms(3)] by (auto simp: rt_thread_init_def rbind_eq_Inr)
next
  case (k_create t mo ms p tick r)
  then show ?thesis
    using live_init_core [OF assms(3)] assms(3) by (auto simp: rt_thread_create_def rbind_eq_Inr split: if_splits)
next
  case (k_startup t r)
  then show ?thesis using live_startup [OF assms(3)] by blast
next
  case (k_yield r)
  then show ?thesis using live_schedule [OF assms(3)] by (auto simp: rt_thread_yield_def rbind_eq_Inr)
next
  case (k_sleep c d)
  then show ?thesis using live_sleep [OF assms(3)] by blast
next
  case (k_sleep_wake t)
  then show ?thesis using assms(3) by (simp add: live_def rt_thread_sleep_wake_def error_upd_inv)
next
  case (k_suspend t r)
  then show ?thesis using live_suspend [OF assms(3)] by blast
next
  case (k_control t cmd r)
  then show ?thesis using live_control [OF assms(3)] by blast
next
  case (k_detach t r)
  then show ?thesis using live_detach [OF assms(3)] by blast
next
  case (k_delete t r)
  then show ?thesis using live_delete [OF assms(3)] by blast
next
  case (k_exit c)
  then show ?thesis using rt_thread_exit_ok [OF live_inv [OF assms(3)] k_exit(1)] by (auto simp: live_def)
next
  case (k_timer_start n r)
  then show ?thesis using live_timer_start [OF assms(3)] by blast
next
  case (k_wait c l flag time)
  then have flag: "flag = 0 \<or> flag = 1" by (simp add: RT_IPC_FLAG_FIFO_def RT_IPC_FLAG_PRIO_def)
  show ?thesis
    using ipc_wait_ok [OF live_inv [OF assms(3)] k_wait(1,2,3) flag k_wait(5) order_refl] k_wait(6)
    by (auto simp: live_def waits_def)
next
  case (k_wake_all l)
  then show ?thesis
    using rt_ipc_list_resume_all_ok [OF live_inv [OF assms(3)] k_wake_all(1)] assms(3) resume_all_cur
    by (fastforce simp: live_def rt_ipc_list_resume_all_def)
next
  case (k_tick fuel)
  have "cur s \<noteq> None" using assms(3) by (simp add: live_def)
  from timer_callback.tick_then [OF assms(1) live_inv [OF assms(3)] this k_tick(1,2)]
  show ?thesis using k_tick(3) by (auto simp: live_def)
qed (use assms(3) live_resume live_timer_ops live_wakes in
     \<open>auto simp: live_def rt_interrupt_enter_def rt_interrupt_leave_def\<close>)

lemma ksteps_live:
  assumes "timer_callback obj" "(kstep obj)\<^sup>*\<^sup>* s0 s" "live s0"
  shows "live s"
  using assms(2,3) by (induction rule: rtranclp_induct) (auto intro: kstep_live [OF assms(1)])

section \<open>Properties\<close>

text \<open>C2: Whatever calls are made and however the ticks fall: a thread is in the ready queue \<open>p\<close> if and only
  if it is ready and has the priority \<open>p\<close>, the bit of the group tells whether that queue has
  threads, no thread is in two lists or twice in one, a waiting thread is suspended, a running
  one is the current one, and priorities stay within the table.
\<close>

theorem kernel_lists_match_states:
  assumes "timer_callback obj" "live s0" "(kstep obj)\<^sup>*\<^sup>* s0 s"
  shows "(\<forall>t p. t \<in> set (lists s (Ready_Queue p)) \<longleftrightarrow> stat_of s t = RT_THREAD_READY \<and> prio s t = p) \<and>
    (\<forall>p < 32. bit (rt_thread_ready_priority_group s) p \<longleftrightarrow> lists s (Ready_Queue p) \<noteq> []) \<and>
    (\<forall>l. distinct (lists s l)) \<and> (\<forall>l l' t. t \<in> set (lists s l) \<longrightarrow> t \<in> set (lists s l') \<longrightarrow> l = l') \<and>
    (\<forall>l t. wait_list l \<longrightarrow> t \<in> set (lists s l) \<longrightarrow> stat_of s t = RT_THREAD_SUSPEND) \<and>
    (\<forall>t. stat_of s t = RT_THREAD_RUNNING \<longrightarrow> cur s = Some t) \<and> (\<forall>t. prio s t < RT_THREAD_PRIORITY_MAX)"
proof -
  have inv: "kernel_inv 1 s" using ksteps_live [OF assms(1,3,2)] by (rule live_inv)
  have parts: "ready_bits s" "links_once s" "heads_ok s" "prios_ok s" "stats_ok {} s"
    using kernel_invD(2) [OF inv] by (simp_all add: sched_inv_ex_def)
  have "t \<in> set (lists s (Ready_Queue p)) \<longleftrightarrow> stat_of s t = RT_THREAD_READY \<and> prio s t = p" for t p
    using parts(3,5) by (auto simp: heads_ok_def stats_ok_def head_stat_def)
  moreover have "l = l'" if "t \<in> set (lists s l)" "t \<in> set (lists s l')" for l l' t
    using parts(2) that unfolding links_once_def by blast
  moreover have "stat_of s t = RT_THREAD_SUSPEND" if "wait_list l" "t \<in> set (lists s l)" for l t
    using waiting_suspended [OF inv that] .
  ultimately show ?thesis
    using parts(1,2,4,5) by (simp add: ready_bits_def links_once_def prios_ok_def stats_ok_def RT_THREAD_PRIORITY_MAX_def)
qed

lemma example_kernel_live: "live example_kernel"
  by (simp add: live_def example_kernel_ok)

text \<open>Thread 0 sleeps for 3 ticks, then a tick comes.\<close>

lemma example_steps:
  "\<exists>s. (kstep resume_callback)\<^sup>*\<^sup>* example_kernel s \<and> rt_tick s = 1"
proof -
  obtain s1 where s1: "rt_thread_sleep 3 example_kernel = Inr s1" "kernel_inv 1 s1" "cur s1 \<noteq> None" "rt_tick s1 = 0"
      "set (rt_timer_list s1) = {Thread_Timer 0}" "distinct (rt_timer_list s1)"
    using rt_thread_sleep_ok [OF example_kernel_ok(1,4,6) _ _ example_kernel_ok(5,7), of 3 1]
    by (auto simp: example_kernel_ok(3) kernel_inv_def timers_ok_def simp del: One_nat_def)
      (simp add: example_kernel_def kernel_reset_def)
  have p: "periods_ok s1"
    using kernel_invD(3) [OF s1(2)] s1(5) by (auto simp: periods_ok_def timers_ok_def)
  have l: "length (rt_timer_list s1) < 2" using distinct_card [OF s1(6)] s1(5) by simp
  obtain s2 where s2: "rt_tick_increase resume_callback 2 s1 = Some (Inr s2)" "rt_tick s2 = rt_tick s1 + 1"
    using resuming.rt_tick_increase_ok [OF s1(2,3) p l] by (auto simp: checked_def)
  have "kstep resume_callback example_kernel s1" by (rule k_sleep [OF example_kernel_ok(4,6) s1(1)])
  moreover have "kstep resume_callback s1 s2" by (rule k_tick [OF p l s2(1)])
  ultimately have "(kstep resume_callback)\<^sup>*\<^sup>* example_kernel s2" by simp
  then show ?thesis using s2(2) s1(4) by auto
qed

theorem kernel_lists_match_states_witness:
  "\<exists>s. (kstep resume_callback)\<^sup>*\<^sup>* example_kernel s \<and> rt_tick s = 1 \<and>
    (\<forall>t p. t \<in> set (lists s (Ready_Queue p)) \<longleftrightarrow> stat_of s t = RT_THREAD_READY \<and> prio s t = p)"
proof -
  obtain s where s: "(kstep resume_callback)\<^sup>*\<^sup>* example_kernel s" "rt_tick s = 1" using example_steps by blast
  show ?thesis
    using kernel_lists_match_states [OF resuming.timer_callback_axioms example_kernel_live s(1)] s by blast
qed

text \<open>C4: In every state that is reached the scheduler can be called: it returns, and when it is unlocked and a
  thread is ready or the current one runs, the thread that runs afterwards is as urgent as any that is
  ready. The running timers are in the order in which they are due, none was due before the last tick, and only
  suspended threads have one.
\<close>

theorem reachable_kernel_schedules:
  assumes "timer_callback obj" "live s0" "(kstep obj)\<^sup>*\<^sup>* s0 s"
  shows "\<exists>s' t. rt_schedule s = Inr s' \<and> cur s' = Some t \<and>
    (rt_scheduler_lock_nest s = 0 \<and> (\<exists>u. runnable s u) \<longrightarrow> stat_of s' t = RT_THREAD_RUNNING \<and> most_urgent s' t) \<and>
    sorted (map (ahead s) (rt_timer_list s)) \<and> (\<forall>i \<in> set (rt_timer_list s). 1 \<le> ahead s i) \<and>
    (\<forall>u. Thread_Timer u \<in> set (rt_timer_list s) \<longrightarrow> stat_of s u = RT_THREAD_SUSPEND)"
proof -
  have lv: "live s" using ksteps_live [OF assms(1,3,2)] .
  note k = kernel_invD [OF live_inv [OF lv]]
  obtain c where c: "cur s = Some c" using lv by (auto simp: live_def)
  obtain s' t where s': "rt_schedule s = Inr s'" "cur s' = Some t" using rt_schedule_spec [OF k(1) c] by blast
  have "stat_of s' t = RT_THREAD_RUNNING \<and> most_urgent s' t" if "rt_scheduler_lock_nest s = 0" "runnable s u" for u
  proof -
    have "stat_of s c = RT_THREAD_RUNNING \<or> stat_of s u = RT_THREAD_READY"
      using that(2) k(2) c by (auto simp: runnable_def sched_inv_ex_def stats_ok_def)
    then show ?thesis using schedule_running [OF k(1) c that(1)] s' by auto
  qed
  then show ?thesis using s' k(3,4) by (auto simp: timers_ok_def sleepers_ok_def)
qed

theorem reachable_kernel_schedules_witness:
  "\<exists>s s' t. (kstep resume_callback)\<^sup>*\<^sup>* example_kernel s \<and> rt_tick s = 1 \<and> rt_schedule s = Inr s' \<and> cur s' = Some t"
proof -
  obtain s where s: "(kstep resume_callback)\<^sup>*\<^sup>* example_kernel s" "rt_tick s = 1" using example_steps by blast
  show ?thesis
    using reachable_kernel_schedules [OF resuming.timer_callback_axioms example_kernel_live s(1)] s by blast
qed

end
