(* ===== verification/Semaphore.thy ===== *)
theory Semaphore
  imports Ipc
begin

text \<open>
  Semaphores, the first part of \<^verbatim>\<open>rt-thread/src/ipc.c\<close>.

  The value is 16 bits wide. A release hands its unit to the first waiting thread, if there is
  one, and only counts it otherwise; so a semaphore with a value has no waiting threads
  (\<open>sem_ok\<close>). \<open>spec_take\<close> and \<open>spec_release\<close> are the abstract semaphore: a count and a queue.
\<close>

section \<open>Operations\<close>

record semaphore =
  sem_id :: nat
  sem_value :: u16
  sem_flag :: u8

abbreviation sem_waiters :: "semaphore \<Rightarrow> kernel \<Rightarrow> tid list" where
  "sem_waiters sem s \<equiv> lists s (Suspend_List (sem_id sem))"

definition rt_sem_init :: "nat \<Rightarrow> u32 \<Rightarrow> u8 \<Rightarrow> kernel \<Rightarrow> int \<times> semaphore \<times> kernel" where
  "rt_sem_init n value flag s =
     (RT_EOK, \<lparr>sem_id = n, sem_value = ucast value, sem_flag = flag\<rparr>, rt_ipc_object_init n s)"

definition rt_sem_create ::
  "bool \<Rightarrow> nat \<Rightarrow> u32 \<Rightarrow> u8 \<Rightarrow> kernel \<Rightarrow> fault + semaphore option \<times> kernel" where
  "rt_sem_create mem n value flag s =
     (if \<not> not_in_interrupt s then Inl Assert_Fail
      else if \<not> mem then Inr (None, s)
      else Inr (Some \<lparr>sem_id = n, sem_value = ucast value, sem_flag = flag\<rparr>, rt_ipc_object_init n s))"

definition rt_sem_detach :: "semaphore \<Rightarrow> kernel \<Rightarrow> fault + int \<times> kernel" where
  "rt_sem_detach sem s = rbind (rt_ipc_list_resume_all (Suspend_List (sem_id sem)) s) (\<lambda>s. Inr (RT_EOK, s))"

definition rt_sem_delete :: "semaphore \<Rightarrow> kernel \<Rightarrow> fault + int \<times> kernel" where
  "rt_sem_delete sem s =
     (if \<not> not_in_interrupt s then Inl Assert_Fail
      else rbind (rt_ipc_list_resume_all (Suspend_List (sem_id sem)) s) (\<lambda>s. Inr (RT_EOK, s)))"

definition rt_sem_take :: "semaphore \<Rightarrow> int \<Rightarrow> kernel \<Rightarrow> fault + outcome \<times> semaphore \<times> kernel" where
  "rt_sem_take sem time s =
     (if sem_value sem > 0 then Inr (Returned RT_EOK, sem\<lparr>sem_value := sem_value sem - 1\<rparr>, s)
      else if time = 0 then Inr (Returned (- RT_ETIMEOUT), sem, s)
      else if \<not> in_thread_context s then Inl Assert_Fail
      else
        let t = the (rt_thread_self s);
            s = thr_upd t (\<lambda>r. r\<lparr>error := RT_EOK\<rparr>) s
        in rbind (ipc_wait (Suspend_List (sem_id sem)) (sem_flag sem) time t s) (\<lambda>s.
           Inr (Blocked, sem, s)))"

text \<open>What \<open>rt_sem_take\<close> returns when the thread \<open>t\<close> that waited goes on.\<close>

definition rt_sem_take_wake :: "tid \<Rightarrow> kernel \<Rightarrow> int" where
  "rt_sem_take_wake t s = (if error (threads s t) \<noteq> RT_EOK then error (threads s t) else RT_EOK)"

definition rt_sem_trytake :: "semaphore \<Rightarrow> kernel \<Rightarrow> fault + outcome \<times> semaphore \<times> kernel" where
  "rt_sem_trytake sem s = rt_sem_take sem 0 s"

definition rt_sem_release :: "semaphore \<Rightarrow> kernel \<Rightarrow> fault + int \<times> semaphore \<times> kernel" where
  "rt_sem_release sem s =
     (if sem_waiters sem s \<noteq> [] then
        rbind (rt_schedule (rt_ipc_list_resume (Suspend_List (sem_id sem)) s)) (\<lambda>s. Inr (RT_EOK, sem, s))
      else Inr (RT_EOK, sem\<lparr>sem_value := sem_value sem + 1\<rparr>, s))"

definition rt_sem_control :: "semaphore \<Rightarrow> nat \<Rightarrow> u32 \<Rightarrow> kernel \<Rightarrow> fault + int \<times> semaphore \<times> kernel" where
  "rt_sem_control sem cmd arg s =
     (if cmd = RT_IPC_CMD_RESET then
        rbind (rt_ipc_list_resume_all (Suspend_List (sem_id sem)) s) (\<lambda>s.
        let sem = sem\<lparr>sem_value := ucast arg\<rparr>
        in rbind (rt_schedule s) (\<lambda>s. Inr (RT_EOK, sem, s)))
      else Inr (- RT_ERROR, sem, s))"

section \<open>The abstract semaphore\<close>

definition spec_take :: "u8 \<Rightarrow> (tid \<Rightarrow> nat) \<Rightarrow> tid \<Rightarrow> nat \<times> tid list \<Rightarrow> nat \<times> tid list" where
  "spec_take flag p t = (\<lambda>(n, q). if n > 0 then (n - 1, q) else (n, queued flag p t q))"

fun spec_release :: "nat \<times> tid list \<Rightarrow> nat \<times> tid list" where
  "spec_release (n, []) = ((n + 1) mod 65536, [])"
| "spec_release (n, t # q) = (n, q)"

definition sem_abs :: "semaphore \<Rightarrow> kernel \<Rightarrow> nat \<times> tid list" where
  "sem_abs sem s = (unat (sem_value sem), sem_waiters sem s)"

definition sem_ok :: "semaphore \<Rightarrow> kernel \<Rightarrow> bool" where
  "sem_ok sem s \<longleftrightarrow> (sem_flag sem = 0 \<or> sem_flag sem = 1) \<and> (sem_value sem \<noteq> 0 \<longrightarrow> sem_waiters sem s = [])"

lemma unat_gt_0: "(w :: u16) > 0 \<longleftrightarrow> unat w > 0"
  by (simp add: word_gt_0 unat_gt_0)

lemma rt_sem_take_ok:
  assumes inv: "kernel_inv 1 s" and ok: "sem_ok sem s" and c: "cur s = Some c" "stat_of s c = RT_THREAD_RUNNING"
    and nest: "rt_interrupt_nest s = 0" and time: "time < 0x7fffffff"
  shows "\<exists>r sem' s'. rt_sem_take sem time s = Inr (r, sem', s') \<and> kernel_inv 1 s' \<and> sem_ok sem' s' \<and>
    sem_id sem' = sem_id sem \<and>
    (r = Returned RT_EOK \<longrightarrow> unat (sem_value sem) = unat (sem_value sem') + 1 \<and> s' = s) \<and>
    (r = Returned (- RT_ETIMEOUT) \<longrightarrow> sem' = sem \<and> s' = s \<and> time = 0 \<and> sem_value sem = 0) \<and>
    (r = Blocked \<longrightarrow> sem' = sem \<and> sem_value sem = 0 \<and>
       waits (Suspend_List (sem_id sem)) (sem_flag sem) c (thr_upd c (\<lambda>r. r\<lparr>error := RT_EOK\<rparr>) s) s' \<and>
       (0 < time \<longrightarrow> Thread_Timer c \<in> set (rt_timer_list s') \<and> ahead s' (Thread_Timer c) = nat time + 1)) \<and>
    (r = Returned RT_EOK \<or> r = Returned (- RT_ETIMEOUT) \<or> r = Blocked)"
proof -
  consider "sem_value sem > 0" | "sem_value sem = 0" "time = 0" | "sem_value sem = 0" "time \<noteq> 0"
    by (auto simp: word_gt_0)
  then show ?thesis
  proof cases
    case 1
    then have "unat (sem_value sem) \<ge> 1" by (simp add: unat_gt_0 Suc_le_eq)
    then have "unat (sem_value sem) = unat (sem_value sem - 1) + 1" by (simp add: unat_sub word_le_nat_alt)
    then show ?thesis using 1 inv ok
      by (simp add: rt_sem_take_def sem_ok_def word_gt_0) (simp add: rt_err_defs)
  next
    case 2
    then show ?thesis using inv ok by (simp add: rt_sem_take_def) (simp add: rt_err_defs)
  next
    case 3
    let ?s = "thr_upd c (\<lambda>r. r\<lparr>error := RT_EOK\<rparr>) s"
    have ctx: "in_thread_context s"
      using c(1) nest by (simp add: in_thread_context_def not_in_interrupt_def rt_thread_self_def rt_interrupt_get_nest_def)
    have i: "kernel_inv 1 ?s" using inv error_upd_inv by simp
    have flag: "sem_flag sem = 0 \<or> sem_flag sem = 1" using ok by (simp add: sem_ok_def)
    obtain s' where s': "ipc_wait (Suspend_List (sem_id sem)) (sem_flag sem) time c ?s = Inr s'" "kernel_inv 1 s'"
      "waits (Suspend_List (sem_id sem)) (sem_flag sem) c ?s s'"
      "0 < time \<longrightarrow> Thread_Timer c \<in> set (rt_timer_list s') \<and> ahead s' (Thread_Timer c) = nat time + 1"
      using ipc_wait_ok [OF i _ _ wait_list_simps(1) flag time] c by auto
    have "rt_sem_take sem time s = Inr (Blocked, sem, s')"
      using 3 ctx s'(1) c(1) by (simp add: rt_sem_take_def rt_thread_self_def)
    then show ?thesis using s' 3 ok by (simp add: sem_ok_def)
  qed
qed

lemma rt_sem_release_ok:
  assumes inv: "kernel_inv m s" and ok: "sem_ok sem s" and c: "cur s \<noteq> None"
  shows "\<exists>sem' s'. rt_sem_release sem s = Inr (RT_EOK, sem', s') \<and> kernel_inv m s' \<and> sem_ok sem' s' \<and>
    sem_id sem' = sem_id sem \<and> sem_abs sem' s' = spec_release (sem_abs sem s) \<and>
    (sem_waiters sem s = [] \<longrightarrow> s' = s) \<and>
    (\<forall>t ts. sem_waiters sem s = t # ts \<longrightarrow> sem' = sem \<and> wakes (Suspend_List (sem_id sem)) t s s')"
proof (cases "sem_waiters sem s")
  case Nil
  have "unat (sem_value sem + 1) = (unat (sem_value sem) + 1) mod 65536" by (simp add: unat_word_ariths)
  then show ?thesis using Nil inv ok
    by (simp add: rt_sem_release_def sem_ok_def sem_abs_def)
next
  case (Cons t ts)
  obtain s' where s': "rt_schedule (rt_ipc_list_resume (Suspend_List (sem_id sem)) s) = Inr s'" "kernel_inv m s'"
      "wakes (Suspend_List (sem_id sem)) t s s'"
    using resume_schedule_ok [OF inv wait_list_simps(1) Cons c] by blast
  have "sem_waiters sem s' = ts" using s'(3) Cons by (simp add: wakes_def)
  then show ?thesis using s' Cons ok by (simp add: rt_sem_release_def sem_ok_def sem_abs_def)
qed

lemma rt_sem_control_ok:
  assumes inv: "kernel_inv m s" and ok: "sem_ok sem s" and c: "cur s \<noteq> None"
  shows "\<exists>sem' s'. rt_sem_control sem RT_IPC_CMD_RESET v s = Inr (RT_EOK, sem', s') \<and> kernel_inv m s' \<and> sem_ok sem' s' \<and>
    sem_abs sem' s' = (unat v mod 65536, []) \<and>
    (\<forall>t \<in> set (sem_waiters sem s). runnable s' t \<and> rt_sem_take_wake t s' = - RT_ERROR)"
proof -
  let ?l = "Suspend_List (sem_id sem)"
  obtain s1 where s1: "rt_ipc_list_resume_all ?l s = Inr s1" "kernel_inv m s1" "wakes_all ?l s s1"
    using rt_ipc_list_resume_all_ok [OF inv wait_list_simps(1)] by blast
  obtain s' where s': "rt_schedule s1 = Inr s'"
    using rt_schedule_spec [OF kernel_invD(1) [OF s1(2)]] s1(3) c by (auto simp: wakes_all_def)
  note w = wakes_all_sched [OF s1(3) s' s1(2) wait_list_simps(1)]
  have "unat (ucast v :: u16) = unat v mod 65536" by (simp add: unsigned_ucast_eq take_bit_eq_mod)
  then show ?thesis
    using s1(1) s' w kernel_inv_schedule [OF s1(2) s'] ok
    by (auto simp: rt_sem_control_def sem_abs_def sem_ok_def rt_sem_take_wake_def rt_err_defs)
qed

section \<open>The semaphore in the running system\<close>

text \<open>
  The calls of a running thread on a semaphore that was initialised with \<open>v\<close>, and the ticks in
  between. The last two arguments count the units that were handed out and the releases.
\<close>

inductive sem_reach :: "(nat \<Rightarrow> kernel \<Rightarrow> fault + kernel) \<Rightarrow> nat \<Rightarrow> semaphore \<Rightarrow> kernel \<Rightarrow> nat \<Rightarrow> nat \<Rightarrow> bool"
  for obj :: "nat \<Rightarrow> kernel \<Rightarrow> fault + kernel" and v :: nat where
  init: "kernel_inv 1 s0 \<Longrightarrow> lists s0 (Suspend_List n) = [] \<Longrightarrow> flag = RT_IPC_FLAG_FIFO \<or> flag = RT_IPC_FLAG_PRIO \<Longrightarrow>
     rt_sem_init n w flag s0 = (r, sem, s) \<Longrightarrow> v = unat (sem_value sem) \<Longrightarrow> sem_reach obj v sem s 0 0"
| take: "sem_reach obj v sem s given released \<Longrightarrow> cur s = Some c \<Longrightarrow> stat_of s c = RT_THREAD_RUNNING \<Longrightarrow>
     rt_interrupt_nest s = 0 \<Longrightarrow> time < 0x7fffffff \<Longrightarrow> rt_sem_take sem time s = Inr (r, sem', s') \<Longrightarrow>
     sem_reach obj v sem' s' (if r = Returned RT_EOK then given + 1 else given) released"
| release: "sem_reach obj v sem s given released \<Longrightarrow> cur s \<noteq> None \<Longrightarrow> sem_value sem \<noteq> 65535 \<Longrightarrow>
     rt_sem_release sem s = Inr (r, sem', s') \<Longrightarrow>
     sem_reach obj v sem' s' (if sem_waiters sem s \<noteq> [] then given + 1 else given) (released + 1)"
| tick: "sem_reach obj v sem s given released \<Longrightarrow> cur s \<noteq> None \<Longrightarrow> periods_ok s \<Longrightarrow> length (rt_timer_list s) < fuel \<Longrightarrow>
     rt_tick_increase obj fuel s = Some (Inr s') \<Longrightarrow> sem_reach obj v sem s' given released"


section \<open>Properties\<close>

text \<open>A release refines the abstract semaphore: with no thread waiting it counts, modulo the 16 bits
  of the value, otherwise it makes the first waiting thread runnable and nothing else, and that
  thread's call returns without an error.
\<close>

theorem sem_release_refines:
  assumes "kernel_inv m s" "sem_ok sem s" "cur s \<noteq> None"
  shows "\<exists>sem' s'. rt_sem_release sem s = Inr (RT_EOK, sem', s') \<and> kernel_inv m s' \<and> sem_ok sem' s' \<and>
    sem_abs sem' s' = spec_release (sem_abs sem s) \<and>
    (\<forall>t ts. sem_waiters sem s = t # ts \<longrightarrow> runnable s' t \<and> rt_sem_take_wake t s' = rt_sem_take_wake t s \<and>
       (\<forall>u. u \<noteq> t \<longrightarrow> runnable s' u = runnable s u))"
proof -
  obtain sem' s' where s': "rt_sem_release sem s = Inr (RT_EOK, sem', s')" "kernel_inv m s'" "sem_ok sem' s'"
    "sem_abs sem' s' = spec_release (sem_abs sem s)"
    "\<forall>t ts. sem_waiters sem s = t # ts \<longrightarrow> sem' = sem \<and> wakes (Suspend_List (sem_id sem)) t s s'"
    using rt_sem_release_ok [OF assms] by blast
  have "runnable s' t \<and> rt_sem_take_wake t s' = rt_sem_take_wake t s \<and> (\<forall>u. u \<noteq> t \<longrightarrow> runnable s' u = runnable s u)"
    if "sem_waiters sem s = t # ts" for t ts
  proof -
    have w: "wakes (Suspend_List (sem_id sem)) t s s'" using s'(5) that by blast
    then have "data_frame s s'" by (simp add: wakes_def)
    then show ?thesis using w data_frameD(2) by (simp add: wakes_def rt_sem_take_wake_def)
  qed
  then show ?thesis using s' by blast
qed

theorem sem_release_refines_witness:
  "\<exists>sem' s'. rt_sem_release \<lparr>sem_id = 1, sem_value = 3, sem_flag = 0\<rparr> example_kernel = Inr (RT_EOK, sem', s') \<and>
    sem_abs sem' s' = (4, [])"
proof -
  let ?sem = "\<lparr>sem_id = 1, sem_value = 3, sem_flag = 0\<rparr>"
  have w: "sem_waiters ?sem example_kernel = []" by (simp add: example_kernel_def kernel_reset_def)
  then have "sem_ok ?sem example_kernel" by (simp add: sem_ok_def)
  then show ?thesis
    using sem_release_refines [of 1 example_kernel ?sem] w by (auto simp: example_kernel_ok sem_abs_def)
qed



text \<open>
  A thread that has locked the scheduler and takes a semaphore without a unit is put to wait but
  goes on at once, and its call returns success.
\<close>

theorem sem_take_locked_succeeds:
  assumes "kernel_inv 1 s" "sem_ok sem s" "sem_value sem = 0" "cur s = Some c" "stat_of s c = RT_THREAD_RUNNING"
    "rt_interrupt_nest s = 0" "time \<noteq> 0" "time < 0x7fffffff" "rt_scheduler_lock_nest s \<noteq> 0"
  shows "\<exists>s'. rt_sem_take sem time s = Inr (Blocked, sem, s') \<and> cur s' = Some c \<and> rt_sem_take_wake c s' = RT_EOK \<and>
    c \<in> set (sem_waiters sem s')"
proof -
  let ?s = "thr_upd c (\<lambda>r. r\<lparr>error := RT_EOK\<rparr>) s"
  obtain r sem' s' where s': "rt_sem_take sem time s = Inr (r, sem', s')"
    "r = Returned RT_EOK \<longrightarrow> unat (sem_value sem) = unat (sem_value sem') + 1"
    "r = Returned (- RT_ETIMEOUT) \<longrightarrow> time = 0" "r = Returned RT_EOK \<or> r = Returned (- RT_ETIMEOUT) \<or> r = Blocked"
    "r = Blocked \<longrightarrow> sem' = sem \<and> waits (Suspend_List (sem_id sem)) (sem_flag sem) c ?s s'"
    using rt_sem_take_ok [OF assms(1,2,4,5,6,8)] by blast
  then have b: "r = Blocked" "sem' = sem" "waits (Suspend_List (sem_id sem)) (sem_flag sem) c ?s s'"
    using assms(3,7) by auto
  have q: "c \<in> set (sem_waiters sem s')"
    using b(3) assms(2) by (auto simp: waits_def set_queued sem_ok_def)
  have "error (threads s' c) = RT_EOK" using data_frameD(2) [of ?s s' c] b(3) by (simp add: waits_def)
  moreover have "cur s' = Some c"
    using s'(1) b assms(3,4,7,9) wait_locked [of "Suspend_List (sem_id sem)" "sem_flag sem" time c ?s s']
    by (auto simp: rt_sem_take_def rt_thread_self_def Let_def rbind_eq_Inr split: if_splits)
  ultimately show ?thesis using s'(1) b(1,2) q by (simp add: rt_sem_take_wake_def)
qed

theorem sem_take_locked_succeeds_witness:
  "\<exists>s'. rt_sem_take \<lparr>sem_id = 1, sem_value = 0, sem_flag = 0\<rparr> (-1) (rt_enter_critical example_kernel) =
      Inr (Blocked, \<lparr>sem_id = 1, sem_value = 0, sem_flag = 0\<rparr>, s') \<and>
    cur s' = Some 0 \<and> rt_sem_take_wake 0 s' = RT_EOK \<and> 0 \<in> set (sem_waiters \<lparr>sem_id = 1, sem_value = 0, sem_flag = 0\<rparr> s')"
proof (rule sem_take_locked_succeeds)
  show "kernel_inv 1 (rt_enter_critical example_kernel)" by (simp add: rt_enter_critical_inv example_kernel_ok)
  show "sem_ok \<lparr>sem_id = 1, sem_value = 0, sem_flag = 0\<rparr> (rt_enter_critical example_kernel)" by (simp add: sem_ok_def)
qed (simp_all add: rt_enter_critical_def example_kernel_ok s16_id, simp add: example_kernel_def kernel_reset_def)

end
