(* ===== verification/Mutex.thy ===== *)
theory Mutex
  imports Ipc
begin

text \<open>
  Mutexes, the second part of \<^verbatim>\<open>rt-thread/src/ipc.c\<close>: ownership, recursive taking and
  priority inheritance.

  A thread that has to wait lends its priority to the owner; the owner gets the priority it had
  when it took the mutex back when it releases it. \<open>mutex_ok\<close> is the invariant of one mutex;
  \<open>inherited\<close> says that no waiting thread is more urgent than the owner.
\<close>

section \<open>Operations\<close>

record mutex =
  mtx_id :: nat
  mtx_value :: u16
  original_priority :: u8
  hold :: u8
  owner :: "tid option"
  mtx_flag :: u8

abbreviation mtx_waiters :: "mutex \<Rightarrow> kernel \<Rightarrow> tid list" where
  "mtx_waiters mtx s \<equiv> lists s (Suspend_List (mtx_id mtx))"

definition rt_mutex_init :: "nat \<Rightarrow> u8 \<Rightarrow> kernel \<Rightarrow> int \<times> mutex \<times> kernel" where
  "rt_mutex_init n flag s =
     (RT_EOK, \<lparr>mtx_id = n, mtx_value = 1, original_priority = 0xFF, hold = 0, owner = None, mtx_flag = flag\<rparr>,
      rt_ipc_object_init n s)"

definition rt_mutex_create :: "bool \<Rightarrow> nat \<Rightarrow> u8 \<Rightarrow> kernel \<Rightarrow> fault + mutex option \<times> kernel" where
  "rt_mutex_create mem n flag s =
     (if \<not> not_in_interrupt s then Inl Assert_Fail
      else if \<not> mem then Inr (None, s)
      else Inr (Some \<lparr>mtx_id = n, mtx_value = 1, original_priority = 0xFF, hold = 0, owner = None, mtx_flag = flag\<rparr>,
        rt_ipc_object_init n s))"

definition rt_mutex_detach :: "mutex \<Rightarrow> kernel \<Rightarrow> fault + int \<times> kernel" where
  "rt_mutex_detach mtx s = rbind (rt_ipc_list_resume_all (Suspend_List (mtx_id mtx)) s) (\<lambda>s. Inr (RT_EOK, s))"

definition rt_mutex_delete :: "mutex \<Rightarrow> kernel \<Rightarrow> fault + int \<times> kernel" where
  "rt_mutex_delete mtx s =
     (if \<not> not_in_interrupt s then Inl Assert_Fail
      else rbind (rt_ipc_list_resume_all (Suspend_List (mtx_id mtx)) s) (\<lambda>s. Inr (RT_EOK, s)))"

text \<open>The part of \<open>rt_mutex_take\<close> from the label \<open>__again\<close> to the context switch.\<close>

definition mutex_again :: "tid \<Rightarrow> mutex \<Rightarrow> int \<Rightarrow> kernel \<Rightarrow> fault + outcome \<times> mutex \<times> kernel" where
  "mutex_again t mtx time s =
     (if mtx_value mtx > 0 then
        Inr (Returned RT_EOK, mtx\<lparr>mtx_value := mtx_value mtx - 1, owner := Some t,
               original_priority := of_nat (prio s t), hold := hold mtx + 1\<rparr>, s)
      else if time = 0 then
        Inr (Returned (- RT_ETIMEOUT), mtx, thr_upd t (\<lambda>r. r\<lparr>error := - RT_ETIMEOUT\<rparr>) s)
      else
        (case owner mtx of
           None \<Rightarrow> Inl Null_Deref
         | Some ow \<Rightarrow>
             rbind (if prio s t < prio s ow
                    then rbind (rt_thread_control ow (RT_THREAD_CTRL_CHANGE_PRIORITY (of_nat (prio s t))) s) (\<lambda>(_, s). Inr s)
                    else Inr s) (\<lambda>s.
             rbind (ipc_wait (Suspend_List (mtx_id mtx)) (mtx_flag mtx) time t s) (\<lambda>s.
             Inr (Blocked, mtx, s)))))"

definition rt_mutex_take :: "mutex \<Rightarrow> int \<Rightarrow> kernel \<Rightarrow> fault + outcome \<times> mutex \<times> kernel" where
  "rt_mutex_take mtx time s =
     (if \<not> in_thread_context s then Inl Assert_Fail
      else
        let t = the (rt_thread_self s);
            s = thr_upd t (\<lambda>r. r\<lparr>error := RT_EOK\<rparr>) s
        in if owner mtx = Some t then Inr (Returned RT_EOK, mtx\<lparr>hold := hold mtx + 1\<rparr>, s)
           else mutex_again t mtx time s)"

text \<open>How the call goes on when the thread \<open>t\<close> that waited is current again.\<close>

definition rt_mutex_take_wake :: "tid \<Rightarrow> mutex \<Rightarrow> int \<Rightarrow> kernel \<Rightarrow> fault + outcome \<times> mutex \<times> kernel" where
  "rt_mutex_take_wake t mtx time s =
     (if error (threads s t) \<noteq> RT_EOK then
        if error (threads s t) = - RT_EINTR then mutex_again t mtx time s
        else Inr (Returned (error (threads s t)), mtx, s)
      else Inr (Returned RT_EOK, mtx, s))"

definition rt_mutex_release :: "mutex \<Rightarrow> kernel \<Rightarrow> fault + int \<times> mutex \<times> kernel" where
  "rt_mutex_release mtx s =
     (if \<not> in_thread_context s then Inl Assert_Fail
      else
        let t = the (rt_thread_self s)
        in if owner mtx \<noteq> Some t then Inr (- RT_ERROR, mtx, thr_upd t (\<lambda>r. r\<lparr>error := - RT_ERROR\<rparr>) s)
           else
             let mtx = mtx\<lparr>hold := hold mtx - 1\<rparr>
             in if hold mtx = 0 then
                  rbind (if unat (original_priority mtx) \<noteq> prio s t
                         then rbind (rt_thread_control t (RT_THREAD_CTRL_CHANGE_PRIORITY (original_priority mtx)) s) (\<lambda>(_, s). Inr s)
                         else Inr s) (\<lambda>s.
                  if mtx_waiters mtx s \<noteq> [] then
                    let w = hd (mtx_waiters mtx s);
                        mtx = mtx\<lparr>owner := Some w, original_priority := of_nat (prio s w), hold := hold mtx + 1\<rparr>
                    in rbind (rt_schedule (rt_ipc_list_resume (Suspend_List (mtx_id mtx)) s)) (\<lambda>s.
                       Inr (RT_EOK, mtx, s))
                  else Inr (RT_EOK, mtx\<lparr>mtx_value := mtx_value mtx + 1, owner := None, original_priority := 0xFF\<rparr>, s))
                else Inr (RT_EOK, mtx, s))"

definition rt_mutex_control :: "mutex \<Rightarrow> nat \<Rightarrow> int" where
  "rt_mutex_control mtx cmd = - RT_ERROR"

section \<open>The invariant\<close>

definition mutex_ok :: "mutex \<Rightarrow> kernel \<Rightarrow> bool" where
  "mutex_ok mtx s \<longleftrightarrow> (mtx_flag mtx = 0 \<or> mtx_flag mtx = 1) \<and>
     (case owner mtx of
        None \<Rightarrow> mtx_value mtx = 1 \<and> hold mtx = 0 \<and> mtx_waiters mtx s = []
      | Some ow \<Rightarrow> mtx_value mtx = 0 \<and> hold mtx \<noteq> 0 \<and> unat (original_priority mtx) < 32 \<and> ow \<notin> set (mtx_waiters mtx s))"

definition inherited :: "mutex \<Rightarrow> kernel \<Rightarrow> bool" where
  "inherited mtx s \<longleftrightarrow> (\<forall>w \<in> set (mtx_waiters mtx s). \<forall>ow. owner mtx = Some ow \<longrightarrow> prio s ow \<le> prio s w)"

lemma prio_less: "kernel_inv m s \<Longrightarrow> prio s t < 32"
  using kernel_invD(2) prios_okD(1) by (auto simp: sched_inv_ex_def)

lemma unat_prio: "kernel_inv m s \<Longrightarrow> unat (of_nat (prio s t) :: u8) = prio s t"
  using prio_less [of m s t] by (intro unat_u8_of_nat) simp

text \<open>Setting a priority when it differs.\<close>

lemma change_priority_ok:
  assumes inv: "kernel_inv m s" and p: "unat p < 32"
  shows "\<exists>s'. rbind (rt_thread_control t (RT_THREAD_CTRL_CHANGE_PRIORITY p) s) (\<lambda>(_, s). Inr s) = Inr s' \<and> kernel_inv m s' \<and>
    (\<forall>u. prio s' u = (if u = t then unat p else prio s u)) \<and> (\<forall>u. stat_of s' u = stat_of s u) \<and>
    (\<forall>u. error (threads s' u) = error (threads s u)) \<and> (\<forall>k. wait_list k \<longrightarrow> lists s' k = lists s k) \<and> cur s' = cur s \<and>
    rt_interrupt_nest s' = rt_interrupt_nest s \<and> rt_scheduler_lock_nest s' = rt_scheduler_lock_nest s \<and>
    rt_tick s' = rt_tick s \<and> rt_timer_list s' = rt_timer_list s \<and> timers s' = timers s"
proof -
  obtain s' where s': "rt_thread_control t (RT_THREAD_CTRL_CHANGE_PRIORITY p) s = Inr (RT_EOK, s')" "kernel_inv m s'"
    "threads s' = (threads s)(t := (threads s t)\<lparr>current_priority := unat p, number_mask := 2 ^ unat p\<rparr>)"
    "\<forall>l. (\<forall>p. l \<noteq> Ready_Queue p) \<longrightarrow> lists s' l = lists s l" "cur s' = cur s" "timers s' = timers s"
    "rt_timer_list s' = rt_timer_list s" "rt_tick s' = rt_tick s"
    "rt_scheduler_lock_nest s' = rt_scheduler_lock_nest s" "rt_interrupt_nest s' = rt_interrupt_nest s"
    using rt_thread_control_priority_ok [OF inv p] by blast
  have "lists s' k = lists s k" if "wait_list k" for k using s'(4) wait_listD [OF that] by blast
  then show ?thesis using s' by simp
qed

section \<open>Taking\<close>

lemma mutex_ok_cong:
  assumes "mtx_waiters mtx s' = mtx_waiters mtx s"
  shows "mutex_ok mtx s' = mutex_ok mtx s"
  using assms by (simp add: mutex_ok_def split: option.split)

lemma context_ok: "cur s = Some c \<Longrightarrow> rt_interrupt_nest s = 0 \<Longrightarrow> in_thread_context s"
  by (simp add: in_thread_context_def not_in_interrupt_def rt_thread_self_def rt_interrupt_get_nest_def)

text \<open>The call waits: the owner has the more urgent of the two priorities.\<close>

lemma rt_mutex_take_blocks:
  assumes inv: "kernel_inv 1 s" and ok: "mutex_ok mtx s" and c: "cur s = Some c" "stat_of s c = RT_THREAD_RUNNING"
    and nest: "rt_interrupt_nest s = 0" and time: "time < 0x7fffffff" "time \<noteq> 0" and ow: "owner mtx = Some ow" "ow \<noteq> c"
  shows "\<exists>s'. rt_mutex_take mtx time s = Inr (Blocked, mtx, s') \<and> kernel_inv 1 s' \<and> mutex_ok mtx s' \<and>
    mtx_waiters mtx s' = queued (mtx_flag mtx) (\<lambda>u. if u = ow then min (prio s ow) (prio s c) else prio s u) c (mtx_waiters mtx s) \<and>
    prio s' ow = min (prio s ow) (prio s c) \<and> (\<forall>u. u \<noteq> ow \<longrightarrow> prio s' u = prio s u) \<and>
    stat_of s' c = RT_THREAD_SUSPEND \<and>
    (0 < time \<longrightarrow> Thread_Timer c \<in> set (rt_timer_list s') \<and> ahead s' (Thread_Timer c) = nat time + 1)"
proof -
  let ?s = "thr_upd c (\<lambda>r. r\<lparr>error := RT_EOK\<rparr>) s"
  let ?l = "Suspend_List (mtx_id mtx)"
  have i: "kernel_inv 1 ?s" using inv error_upd_inv by simp
  have pr: "prio ?s u = prio s u" for u by simp
  obtain s1 where s1: "(if prio ?s c < prio ?s ow
        then rbind (rt_thread_control ow (RT_THREAD_CTRL_CHANGE_PRIORITY (of_nat (prio ?s c))) ?s) (\<lambda>(_, s). Inr s)
        else Inr ?s) = Inr s1" "kernel_inv 1 s1"
      "\<forall>u. prio s1 u = (if u = ow then min (prio s ow) (prio s c) else prio s u)" "\<forall>u. stat_of s1 u = stat_of s u"
      "\<forall>k. wait_list k \<longrightarrow> lists s1 k = lists s k" "cur s1 = cur s"
  proof (cases "prio s c < prio s ow")
    case True
    have u: "unat (of_nat (prio s c) :: u8) = prio s c" by (rule unat_prio [OF inv])
    then have "unat (of_nat (prio s c) :: u8) < 32" using prio_less [OF inv, of c] by simp
    then obtain s1 where a: "rbind (rt_thread_control ow (RT_THREAD_CTRL_CHANGE_PRIORITY (of_nat (prio s c))) ?s) (\<lambda>(_, s). Inr s) = Inr s1"
        "kernel_inv 1 s1" "\<forall>u. prio s1 u = (if u = ow then unat (of_nat (prio s c) :: u8) else prio ?s u)"
        "\<forall>u. stat_of s1 u = stat_of ?s u" "\<forall>k. wait_list k \<longrightarrow> lists s1 k = lists ?s k" "cur s1 = cur ?s"
      using change_priority_ok [OF i, of "of_nat (prio s c)" ow] by blast
    show ?thesis by (rule that [of s1]) (use a True u in \<open>auto simp: min_def\<close>)
  next
    case False
    then show ?thesis using that [of ?s] i by simp
  qed
  have flag: "mtx_flag mtx = 0 \<or> mtx_flag mtx = 1" using ok by (simp add: mutex_ok_def)
  have c1: "cur s1 = Some c" "stat_of s1 c = RT_THREAD_RUNNING" using s1(4,6) c by simp_all
  obtain s' where s': "ipc_wait ?l (mtx_flag mtx) time c s1 = Inr s'" "kernel_inv 1 s'" "waits ?l (mtx_flag mtx) c s1 s'"
      "0 < time \<longrightarrow> Thread_Timer c \<in> set (rt_timer_list s') \<and> ahead s' (Thread_Timer c) = nat time + 1"
    using ipc_wait_ok [OF s1(2) c1 wait_list_simps(1) flag time(1)] by auto
  have p1: "prio s1 = (\<lambda>u. if u = ow then min (prio s ow) (prio s c) else prio s u)" using s1(3) by auto
  have pr': "prio s' u = prio s1 u" for u using s'(3) data_frameD(1) by (simp add: waits_def)
  have w: "mtx_waiters mtx s' = queued (mtx_flag mtx) (prio s1) c (mtx_waiters mtx s)"
    using s'(3) s1(5) by (simp add: waits_def)
  have val: "mtx_value mtx = 0" "ow \<notin> set (mtx_waiters mtx s)" using ok ow(1) by (simp_all add: mutex_ok_def)
  have "mutex_ok mtx s'" using ok ow w flag by (simp add: mutex_ok_def set_queued)
  moreover have "rt_mutex_take mtx time s = Inr (Blocked, mtx, s')"
  proof -
    have "mutex_again c mtx time ?s = rbind (Inr s1) (\<lambda>s. rbind (ipc_wait ?l (mtx_flag mtx) time c s) (\<lambda>s. Inr (Blocked, mtx, s)))"
      unfolding mutex_again_def ow(1) option.case s1(1) val(1) using time(2) by simp
    then show ?thesis
      using context_ok [OF c(1) nest] c(1) ow s'(1) by (simp add: rt_mutex_take_def rt_thread_self_def)
  qed
  moreover have "stat_of s' c = RT_THREAD_SUSPEND" using s'(3) by (simp add: waits_def)
  ultimately show ?thesis using s'(2,4) w unfolding p1 by (simp add: pr' s1(3))
qed

lemma rt_mutex_take_free:
  assumes inv: "kernel_inv 1 s" and ok: "mutex_ok mtx s" and c: "cur s = Some c"
    and nest: "rt_interrupt_nest s = 0" and ow: "owner mtx = None"
  defines "mtx' \<equiv> mtx\<lparr>mtx_value := 0, owner := Some c, original_priority := of_nat (prio s c), hold := 1\<rparr>"
  shows "rt_mutex_take mtx time s = Inr (Returned RT_EOK, mtx', thr_upd c (\<lambda>r. r\<lparr>error := RT_EOK\<rparr>) s)"
    "mutex_ok mtx' s"
proof -
  have v: "mtx_value mtx = 1" "hold mtx = 0" "mtx_waiters mtx s = []" using ok ow by (simp_all add: mutex_ok_def)
  then show "rt_mutex_take mtx time s = Inr (Returned RT_EOK, mtx', thr_upd c (\<lambda>r. r\<lparr>error := RT_EOK\<rparr>) s)"
    using context_ok [OF c nest] c ow by (simp add: rt_mutex_take_def rt_thread_self_def mutex_again_def mtx'_def)
  show "mutex_ok mtx' s"
    using v ok unat_prio [OF inv, of c] prio_less [OF inv, of c] by (simp add: mutex_ok_def mtx'_def)
qed

lemma rt_mutex_take_again:
  assumes "cur s = Some c" "rt_interrupt_nest s = 0" "owner mtx = Some c"
  shows "rt_mutex_take mtx time s = Inr (Returned RT_EOK, mtx\<lparr>hold := hold mtx + 1\<rparr>, thr_upd c (\<lambda>r. r\<lparr>error := RT_EOK\<rparr>) s)"
  using context_ok [OF assms(1,2)] assms(1,3) by (simp add: rt_mutex_take_def rt_thread_self_def)

lemma rt_mutex_take_refused:
  assumes "cur s = Some c" "rt_interrupt_nest s = 0" "mutex_ok mtx s" "owner mtx = Some ow" "ow \<noteq> c"
  shows "rt_mutex_take mtx 0 s = Inr (Returned (- RT_ETIMEOUT), mtx, thr_upd c (\<lambda>r. r\<lparr>error := - RT_ETIMEOUT\<rparr>) s)"
  using context_ok [OF assms(1,2)] assms
  by (simp add: rt_mutex_take_def rt_thread_self_def mutex_again_def mutex_ok_def) (simp add: thr_upd_def)

section \<open>Releasing\<close>

lemma rt_mutex_release_foreign:
  assumes "cur s = Some c" "rt_interrupt_nest s = 0" "owner mtx \<noteq> Some c"
  shows "rt_mutex_release mtx s = Inr (- RT_ERROR, mtx, thr_upd c (\<lambda>r. r\<lparr>error := - RT_ERROR\<rparr>) s)"
  using context_ok [OF assms(1,2)] assms(1,3) by (simp add: rt_mutex_release_def rt_thread_self_def)

lemma rt_mutex_release_nested:
  assumes "cur s = Some c" "rt_interrupt_nest s = 0" "owner mtx = Some c" "hold mtx \<noteq> 1"
  shows "rt_mutex_release mtx s = Inr (RT_EOK, mtx\<lparr>hold := hold mtx - 1\<rparr>, s)"
  using context_ok [OF assms(1,2)] assms by (simp add: rt_mutex_release_def rt_thread_self_def)

lemma rt_mutex_release_last:
  assumes inv: "kernel_inv 1 s" and ok: "mutex_ok mtx s" and c: "cur s = Some c"
    and nest: "rt_interrupt_nest s = 0" and ow: "owner mtx = Some c" "hold mtx = 1"
  shows "\<exists>mtx' s'. rt_mutex_release mtx s = Inr (RT_EOK, mtx', s') \<and> kernel_inv 1 s' \<and> mutex_ok mtx' s' \<and>
    mtx_id mtx' = mtx_id mtx \<and> mtx_flag mtx' = mtx_flag mtx \<and>
    prio s' c = unat (original_priority mtx) \<and> (\<forall>u. u \<noteq> c \<longrightarrow> prio s' u = prio s u) \<and>
    mtx_waiters mtx s' = tl (mtx_waiters mtx s) \<and>
    (case mtx_waiters mtx s of
       [] \<Rightarrow> owner mtx' = None
     | w # _ \<Rightarrow> owner mtx' = Some w \<and> hold mtx' = 1 \<and> unat (original_priority mtx') = prio s w \<and>
         runnable s' w \<and> error (threads s' w) = error (threads s w))"
proof -
  let ?l = "Suspend_List (mtx_id mtx)"
  have o: "unat (original_priority mtx) < 32" "c \<notin> set (mtx_waiters mtx s)" "mtx_value mtx = 0"
      "mtx_flag mtx = 0 \<or> mtx_flag mtx = 1"
    using ok ow by (simp_all add: mutex_ok_def)
  obtain s1 where s1: "(if unat (original_priority mtx) \<noteq> prio s c
        then rbind (rt_thread_control c (RT_THREAD_CTRL_CHANGE_PRIORITY (original_priority (mtx\<lparr>hold := 0\<rparr>))) s) (\<lambda>(_, s). Inr s)
        else Inr s) = Inr s1" "kernel_inv 1 s1"
      "\<forall>u. prio s1 u = (if u = c then unat (original_priority mtx) else prio s u)"
      "\<forall>k. wait_list k \<longrightarrow> lists s1 k = lists s k" "cur s1 = cur s" "\<forall>u. error (threads s1 u) = error (threads s u)"
  proof (cases "unat (original_priority mtx) \<noteq> prio s c")
    case True
    obtain s1 where a: "rbind (rt_thread_control c (RT_THREAD_CTRL_CHANGE_PRIORITY (original_priority mtx)) s) (\<lambda>(_, s). Inr s) = Inr s1"
        "kernel_inv 1 s1" "\<forall>u. prio s1 u = (if u = c then unat (original_priority mtx) else prio s u)"
        "\<forall>k. wait_list k \<longrightarrow> lists s1 k = lists s k" "cur s1 = cur s" "\<forall>u. error (threads s1 u) = error (threads s u)"
      using change_priority_ok [OF inv o(1), of c] by blast
    show ?thesis by (rule that [of s1]) (use a True in auto)
  next
    case False
    then show ?thesis using that [of s] inv by simp
  qed
  have run: "rt_mutex_release mtx s = (let mtx = mtx\<lparr>hold := 0\<rparr> in
      if mtx_waiters mtx s1 \<noteq> [] then
        let w = hd (mtx_waiters mtx s1);
            mtx = mtx\<lparr>owner := Some w, original_priority := of_nat (prio s1 w), hold := hold mtx + 1\<rparr>
        in rbind (rt_schedule (rt_ipc_list_resume ?l s1)) (\<lambda>s. Inr (RT_EOK, mtx, s))
      else Inr (RT_EOK, mtx\<lparr>mtx_value := mtx_value mtx + 1, owner := None, original_priority := 0xFF\<rparr>, s1))"
    using context_ok [OF c nest] c ow
    by (simp add: rt_mutex_release_def rt_thread_self_def Let_def s1(1) split del: if_split) (simp add: Let_def)
  show ?thesis
  proof (cases "mtx_waiters mtx s")
    case Nil
    then show ?thesis using s1 o by (simp add: run mutex_ok_def)
  next
    case (Cons w ws)
    have w1: "mtx_waiters mtx s1 = w # ws" using s1(4) Cons by simp
    obtain s' where s': "rt_schedule (rt_ipc_list_resume ?l s1) = Inr s'" "kernel_inv 1 s'" "wakes ?l w s1 s'"
      using resume_schedule_ok [OF s1(2) wait_list_simps(1) w1] s1(5) c by auto
    let ?m = "mtx\<lparr>owner := Some w, original_priority := of_nat (prio s1 w), hold := 1\<rparr>"
    have wc: "w \<noteq> c" using o(2) Cons by auto
    have ws': "mtx_waiters mtx s' = ws" using s'(3) w1 by (simp add: wakes_def)
    have d: "data_frame s1 s'" using s'(3) by (simp add: wakes_def)
    have dist: "w \<notin> set ws"
    proof -
      have "distinct (mtx_waiters mtx s)" using kernel_invD(2) [OF inv] unfolding sched_inv_ex_def links_once_def by blast
      then show ?thesis using Cons by simp
    qed
    have u: "unat (of_nat (prio s1 w) :: u8) = prio s1 w" by (rule unat_prio [OF s1(2)])
    have "mutex_ok ?m s'" using o u prio_less [OF s1(2), of w] ws' dist by (simp add: mutex_ok_def)
    moreover have "rt_mutex_release mtx s = Inr (RT_EOK, ?m, s')"
      using w1 s'(1) by (simp add: run)
    moreover have "runnable s' w" using s'(3) by (simp add: wakes_def)
    ultimately show ?thesis
      using s'(2) ws' Cons u wc data_frameD(1,2) [OF d] s1(3,6) by simp
  qed
qed

section \<open>Properties\<close>

text \<open>A mutex with a list in order of priority: the waiting threads are in that order too.\<close>

definition mutex_inv :: "mutex \<Rightarrow> kernel \<Rightarrow> bool" where
  "mutex_inv mtx s \<longleftrightarrow> mutex_ok mtx s \<and> inherited mtx s \<and> mtx_flag mtx = RT_IPC_FLAG_PRIO \<and>
     sorted (map (prio s) (mtx_waiters mtx s))"

text \<open>C17: A thread that has to wait for a mutex with priority order lends its priority to the owner: the
  owner gets the more urgent of the two priorities and no other priority changes, so no waiting
  thread is more urgent than the owner; the thread is queued behind those as urgent as itself.
\<close>

theorem mutex_take_inherits:
  assumes inv: "kernel_inv 1 s" and ok: "mutex_inv mtx s" and c: "cur s = Some c" "stat_of s c = RT_THREAD_RUNNING"
    and nest: "rt_interrupt_nest s = 0" and time: "time < 0x7fffffff" "time \<noteq> 0" and ow: "owner mtx = Some ow" "ow \<noteq> c"
  shows "\<exists>s'. rt_mutex_take mtx time s = Inr (Blocked, mtx, s') \<and> kernel_inv 1 s' \<and> mutex_inv mtx s' \<and>
    prio s' ow = min (prio s ow) (prio s c) \<and> (\<forall>u. u \<noteq> ow \<longrightarrow> prio s' u = prio s u) \<and>
    mtx_waiters mtx s' = place_after (prio s) c (mtx_waiters mtx s) \<and> stat_of s' c = RT_THREAD_SUSPEND"
proof -
  let ?p = "\<lambda>u. if u = ow then min (prio s ow) (prio s c) else prio s u"
  have m: "mutex_ok mtx s" "inherited mtx s" "mtx_flag mtx = 1" "sorted (map (prio s) (mtx_waiters mtx s))"
    using ok by (simp_all add: mutex_inv_def RT_IPC_FLAG_PRIO_def)
  obtain s' where s': "rt_mutex_take mtx time s = Inr (Blocked, mtx, s')" "kernel_inv 1 s'" "mutex_ok mtx s'"
    "mtx_waiters mtx s' = queued (mtx_flag mtx) ?p c (mtx_waiters mtx s)"
    "prio s' ow = min (prio s ow) (prio s c)" "\<forall>u. u \<noteq> ow \<longrightarrow> prio s' u = prio s u" "stat_of s' c = RT_THREAD_SUSPEND"
    using rt_mutex_take_blocks [OF inv m(1) c nest time ow] by blast
  have out: "ow \<notin> set (mtx_waiters mtx s)" using m(1) ow(1) by (simp add: mutex_ok_def)
  have "queued (mtx_flag mtx) ?p c (mtx_waiters mtx s) = place_after ?p c (mtx_waiters mtx s)"
    by (simp add: queued_def m(3) RT_IPC_FLAG_FIFO_def RT_IPC_FLAG_PRIO_def)
  also have "\<dots> = place_after (prio s) c (mtx_waiters mtx s)"
    by (rule place_after_cong) (use out ow(2) in auto)
  finally have w: "mtx_waiters mtx s' = place_after (prio s) c (mtx_waiters mtx s)" using s'(4) by simp
  have mp: "map (prio s') (mtx_waiters mtx s') = map (prio s) (mtx_waiters mtx s')"
    using w s'(6) out ow(2) by (intro map_cong) auto
  have "sorted (map (prio s') (mtx_waiters mtx s'))" unfolding mp unfolding w using m(4) by simp
  moreover have "inherited mtx s'"
    unfolding inherited_def
  proof (intro ballI allI impI)
    fix v o' assume v: "v \<in> set (mtx_waiters mtx s')" and "owner mtx = Some o'"
    then have o': "o' = ow" using ow(1) by simp
    have "v = c \<or> v \<in> set (mtx_waiters mtx s)" using v w by simp
    moreover have "v \<noteq> ow" using calculation out ow(2) by auto
    moreover have "prio s ow \<le> prio s v" if "v \<in> set (mtx_waiters mtx s)" using m(2) ow(1) that by (simp add: inherited_def)
    ultimately show "prio s' o' \<le> prio s' v" using s'(5,6) by (auto simp: o' min_def)
  qed
  ultimately show ?thesis using s' w m(3) by (simp add: mutex_inv_def RT_IPC_FLAG_PRIO_def)
qed

theorem mutex_take_inherits_witness:
  "\<exists>s'. rt_mutex_take \<lparr>mtx_id = 1, mtx_value = 0, original_priority = 20, hold = 1, owner = Some 3, mtx_flag = 1\<rparr> (-1)
      (example_wait 10 []) = Inr (Blocked, \<lparr>mtx_id = 1, mtx_value = 0, original_priority = 20, hold = 1, owner = Some 3, mtx_flag = 1\<rparr>, s') \<and>
    prio s' 3 = 10"
proof -
  let ?m = "\<lparr>mtx_id = 1, mtx_value = 0, original_priority = 20, hold = 1, owner = Some 3, mtx_flag = 1\<rparr>"
  have p: "prio (example_wait 10 []) 3 = 20" by (simp add: example_wait_def example_thread_def)
  have "mutex_inv ?m (example_wait 10 [])"
    using example_wait_simps(4) [of 10 "[]"]
    by (simp add: mutex_inv_def mutex_ok_def inherited_def RT_IPC_FLAG_PRIO_def)
  then show ?thesis
    using mutex_take_inherits [OF example_wait_ok, of 10 "[]" ?m 0 "-1" 3] p by (auto simp: example_wait_simps)
qed

text \<open>C18: The owner's last release gives it the priority back that it had when it took the mutex, and hands
  a mutex with priority order to the most urgent waiting thread, whose call returns without an
  error; the invariant holds for the new owner.
\<close>

theorem mutex_release_hands_over:
  assumes inv: "kernel_inv 1 s" and ok: "mutex_inv mtx s" and c: "cur s = Some c"
    and nest: "rt_interrupt_nest s = 0" and ow: "owner mtx = Some c" "hold mtx = 1"
    and w: "mtx_waiters mtx s = w # ws"
  shows "\<exists>mtx' s'. rt_mutex_release mtx s = Inr (RT_EOK, mtx', s') \<and> kernel_inv 1 s' \<and> mutex_inv mtx' s' \<and>
    owner mtx' = Some w \<and> mtx_waiters mtx' s' = ws \<and> prio s' c = unat (original_priority mtx) \<and>
    runnable s' w \<and> error (threads s' w) = error (threads s w) \<and> (\<forall>v. v \<in> set ws \<longrightarrow> prio s w \<le> prio s v)"
proof -
  have m: "mutex_ok mtx s" "inherited mtx s" "mtx_flag mtx = 1" "sorted (map (prio s) (w # ws))"
    using ok w by (simp_all add: mutex_inv_def RT_IPC_FLAG_PRIO_def)
  obtain mtx' s' where s': "rt_mutex_release mtx s = Inr (RT_EOK, mtx', s')" "kernel_inv 1 s'" "mutex_ok mtx' s'"
    "mtx_id mtx' = mtx_id mtx" "mtx_flag mtx' = mtx_flag mtx" "prio s' c = unat (original_priority mtx)"
    "\<forall>u. u \<noteq> c \<longrightarrow> prio s' u = prio s u" "mtx_waiters mtx s' = ws" "owner mtx' = Some w"
    "runnable s' w" "error (threads s' w) = error (threads s w)"
    using rt_mutex_release_last [OF inv m(1) c nest ow] w by auto
  have cw: "c \<notin> set (w # ws)" using m(1) ow(1) w by (simp add: mutex_ok_def)
  have pr: "prio s' u = prio s u" if "u \<in> set (w # ws)" for u using s'(7) cw that by metis
  have "map (prio s') ws = map (prio s) ws" using pr by simp
  then have "sorted (map (prio s') ws)" using m(4) by (metis list.simps(9) sorted_simps(2))
  moreover have "inherited mtx' s'"
    using m(4) pr by (simp add: inherited_def s'(4,8,9))
  ultimately show ?thesis
    using s' m(3,4) by (auto simp: mutex_inv_def RT_IPC_FLAG_PRIO_def)
qed

theorem mutex_release_hands_over_witness:
  "\<exists>mtx' s'. rt_mutex_release \<lparr>mtx_id = 1, mtx_value = 0, original_priority = 10, hold = 1, owner = Some 0, mtx_flag = 1\<rparr>
      (example_wait 5 [1, 2]) = Inr (RT_EOK, mtx', s') \<and> owner mtx' = Some 1 \<and> prio s' 0 = 10"
proof -
  let ?m = "\<lparr>mtx_id = 1, mtx_value = 0, original_priority = 10, hold = 1, owner = Some 0, mtx_flag = 1\<rparr>"
  have "mutex_inv ?m (example_wait 5 [1, 2])"
    by (simp add: mutex_inv_def mutex_ok_def inherited_def RT_IPC_FLAG_PRIO_def example_wait_simps del: One_nat_def)
  then show ?thesis
    using mutex_release_hands_over [OF example_wait_ok, of 5 "[1, 2]" ?m 0 1 "[2]"]
    by (auto simp: example_wait_simps simp del: One_nat_def)
qed

text \<open>C40: In order of arrival the inheritance ends with the first hand-over: when a thread that is more
  urgent than the next owner goes on waiting, the next owner is not given its priority.
\<close>

theorem mutex_fifo_loses_inheritance:
  assumes inv: "kernel_inv 1 s" and ok: "mutex_ok mtx s" and c: "cur s = Some c"
    and nest: "rt_interrupt_nest s = 0" and ow: "owner mtx = Some c" "hold mtx = 1"
    and w: "mtx_waiters mtx s = w # ws" "v \<in> set ws" "prio s v < prio s w"
  shows "\<exists>mtx' s'. rt_mutex_release mtx s = Inr (RT_EOK, mtx', s') \<and> owner mtx' = Some w \<and> \<not> inherited mtx' s'"
proof -
  obtain mtx' s' where s': "rt_mutex_release mtx s = Inr (RT_EOK, mtx', s')"
    "mtx_id mtx' = mtx_id mtx" "\<forall>u. u \<noteq> c \<longrightarrow> prio s' u = prio s u" "mtx_waiters mtx s' = ws" "owner mtx' = Some w"
    using rt_mutex_release_last [OF inv ok c nest ow] w(1) by auto
  have "c \<notin> set (w # ws)" using ok ow(1) w(1) by (simp add: mutex_ok_def)
  then have "prio s' v < prio s' w" using s'(3) w(2,3) by auto
  then have "\<not> inherited mtx' s'" using w(2) s'(2,4,5) by (auto simp: inherited_def not_le)
  then show ?thesis using s'(1,5) by blast
qed

theorem mutex_fifo_loses_inheritance_witness:
  "\<exists>mtx' s'. rt_mutex_release \<lparr>mtx_id = 1, mtx_value = 0, original_priority = 10, hold = 1, owner = Some 0, mtx_flag = 0\<rparr>
      (example_wait 10 [2, 1]) = Inr (RT_EOK, mtx', s') \<and> owner mtx' = Some 2 \<and> \<not> inherited mtx' s'"
  by (rule mutex_fifo_loses_inheritance [OF example_wait_ok, of 10 "[2, 1]" _ 0 2 "[1]" 1])
    (simp_all add: example_wait_simps mutex_ok_def del: One_nat_def)

end
