(* ===== verification/Event.thy ===== *)
theory Event
  imports Ipc
begin

text \<open>
  Events, the third part of \<^verbatim>\<open>rt-thread/src/ipc.c\<close>: a set of 32 flags that threads wait
  for, for all of some flags or for any of them.

  \<open>satisfied\<close> is the condition a thread waits for. The invariant \<open>event_ok\<close> is that no thread
  waits although its condition holds.
\<close>

section \<open>Operations\<close>

definition RT_EVENT_FLAG_AND :: u8 where "RT_EVENT_FLAG_AND = 1"
definition RT_EVENT_FLAG_OR :: u8 where "RT_EVENT_FLAG_OR = 2"
definition RT_EVENT_FLAG_CLEAR :: u8 where "RT_EVENT_FLAG_CLEAR = 4"

lemmas event_flag_defs = RT_EVENT_FLAG_AND_def RT_EVENT_FLAG_OR_def RT_EVENT_FLAG_CLEAR_def

record rt_event =
  ev_id :: nat
  ev_set :: u32
  ev_flag :: u8

abbreviation ev_waiters :: "rt_event \<Rightarrow> kernel \<Rightarrow> tid list" where
  "ev_waiters ev s \<equiv> lists s (Suspend_List (ev_id ev))"

definition rt_event_init :: "nat \<Rightarrow> u8 \<Rightarrow> kernel \<Rightarrow> int \<times> rt_event \<times> kernel" where
  "rt_event_init n flag s = (RT_EOK, \<lparr>ev_id = n, ev_set = 0, ev_flag = flag\<rparr>, rt_ipc_object_init n s)"

definition rt_event_create :: "bool \<Rightarrow> nat \<Rightarrow> u8 \<Rightarrow> kernel \<Rightarrow> fault + rt_event option \<times> kernel" where
  "rt_event_create mem n flag s =
     (if \<not> not_in_interrupt s then Inl Assert_Fail
      else if \<not> mem then Inr (None, s)
      else Inr (Some \<lparr>ev_id = n, ev_set = 0, ev_flag = flag\<rparr>, rt_ipc_object_init n s))"

definition rt_event_detach :: "rt_event \<Rightarrow> kernel \<Rightarrow> fault + int \<times> kernel" where
  "rt_event_detach ev s = rbind (rt_ipc_list_resume_all (Suspend_List (ev_id ev)) s) (\<lambda>s. Inr (RT_EOK, s))"

definition rt_event_delete :: "rt_event \<Rightarrow> kernel \<Rightarrow> fault + int \<times> kernel" where
  "rt_event_delete ev s =
     (if \<not> not_in_interrupt s then Inl Assert_Fail
      else rbind (rt_ipc_list_resume_all (Suspend_List (ev_id ev)) s) (\<lambda>s. Inr (RT_EOK, s)))"



text \<open>The second result is what is written to \<open>*recved\<close>.\<close>

definition rt_event_recv ::
  "rt_event \<Rightarrow> u32 \<Rightarrow> u8 \<Rightarrow> int \<Rightarrow> kernel \<Rightarrow> fault + outcome \<times> u32 option \<times> rt_event \<times> kernel" where
  "rt_event_recv ev flags opt timeout s =
     (if \<not> in_thread_context s then Inl Assert_Fail
      else if flags = 0 then Inr (Returned (- RT_ERROR), None, ev, s)
      else
        let t = the (rt_thread_self s);
            s = thr_upd t (\<lambda>r. r\<lparr>error := RT_EOK\<rparr>) s
        in if opt AND RT_EVENT_FLAG_AND = 0 \<and> opt AND RT_EVENT_FLAG_OR = 0 then Inl Assert_Fail
           else
             let status = (if opt AND RT_EVENT_FLAG_AND \<noteq> 0 then ev_set ev AND flags = flags else ev_set ev AND flags \<noteq> 0)
             in if status then
                  Inr (Returned (error (threads s t)), Some (ev_set ev AND flags),
                       if opt AND RT_EVENT_FLAG_CLEAR \<noteq> 0 then ev\<lparr>ev_set := ev_set ev AND NOT flags\<rparr> else ev, s)
                else if timeout = 0 then
                  let s = thr_upd t (\<lambda>r. r\<lparr>error := - RT_ETIMEOUT\<rparr>) s
                  in Inr (Returned (error (threads s t)), None, ev, s)
                else
                  let s = thr_upd t (\<lambda>r. r\<lparr>event_set := flags, event_info := opt\<rparr>) s
                  in rbind (ipc_wait (Suspend_List (ev_id ev)) (ev_flag ev) timeout t s) (\<lambda>s.
                     Inr (Blocked, None, ev, s)))"

definition rt_event_recv_wake :: "tid \<Rightarrow> kernel \<Rightarrow> int \<times> u32 option" where
  "rt_event_recv_wake t s =
     (if error (threads s t) \<noteq> RT_EOK then (error (threads s t), None)
      else (error (threads s t), Some (event_set (threads s t))))"

definition rt_event_control :: "rt_event \<Rightarrow> nat \<Rightarrow> kernel \<Rightarrow> fault + int \<times> rt_event \<times> kernel" where
  "rt_event_control ev cmd s =
     (if cmd = RT_IPC_CMD_RESET then
        rbind (rt_ipc_list_resume_all (Suspend_List (ev_id ev)) s) (\<lambda>s.
        rbind (rt_schedule s) (\<lambda>s. Inr (RT_EOK, ev\<lparr>ev_set := 0\<rparr>, s)))
      else Inr (- RT_ERROR, ev, s))"

section \<open>The condition a thread waits for\<close>

definition satisfied :: "u32 \<Rightarrow> u8 \<Rightarrow> u32 \<Rightarrow> bool" where
  "satisfied wanted info evset \<longleftrightarrow>
     (if info AND RT_EVENT_FLAG_AND \<noteq> 0 then wanted AND evset = wanted
      else info AND RT_EVENT_FLAG_OR \<noteq> 0 \<and> wanted AND evset \<noteq> 0)"

abbreviation awaits :: "kernel \<Rightarrow> tid \<Rightarrow> u32 \<Rightarrow> bool" where
  "awaits s t evset \<equiv> satisfied (event_set (threads s t)) (event_info (threads s t)) evset"

lemma satisfied_mono:
  assumes "satisfied w i e'" "e' AND e = e'"
  shows "satisfied w i e"
proof -
  have "w AND e = w" if "w AND e' = w"
    by (metis that assms(2) and.assoc and.commute)
  moreover have "w AND e \<noteq> 0" if "w AND e' \<noteq> 0"
  proof
    assume "w AND e = 0"
    then have "w AND (e' AND e) = 0" by (metis and.left_commute and_zero_eq)
    then show False using that assms(2) by simp
  qed
  ultimately show ?thesis using assms(1) by (auto simp: satisfied_def split: if_splits)
qed




definition event_ok :: "rt_event \<Rightarrow> kernel \<Rightarrow> bool" where
  "event_ok ev s \<longleftrightarrow> (ev_flag ev = 0 \<or> ev_flag ev = 1) \<and>
     (\<forall>t \<in> set (ev_waiters ev s). \<not> awaits s t (ev_set ev))"


section \<open>Properties\<close>



text \<open>Receiving flags in full: the condition holds and the call returns with the flags, cleared if asked
  for; it does not hold and the call returns a timeout; or the thread waits. In every case no thread
  waits although its condition holds.
\<close>

theorem event_recv_cases:
  assumes inv: "kernel_inv 1 s" and ok: "event_ok ev s" and c: "cur s = Some c" "stat_of s c = RT_THREAD_RUNNING"
    and nest: "rt_interrupt_nest s = 0" and time: "time < 0x7fffffff" and fl: "flags \<noteq> 0"
    and opt: "opt AND RT_EVENT_FLAG_AND \<noteq> 0 \<or> opt AND RT_EVENT_FLAG_OR \<noteq> 0"
  shows "\<exists>r got ev' s'. rt_event_recv ev flags opt time s = Inr (r, got, ev', s') \<and> kernel_inv 1 s' \<and> event_ok ev' s' \<and>
    (if satisfied flags opt (ev_set ev)
     then r = Returned RT_EOK \<and> got = Some (ev_set ev AND flags) \<and> ev_waiters ev s' = ev_waiters ev s \<and>
       ev_set ev' = (if opt AND RT_EVENT_FLAG_CLEAR \<noteq> 0 then ev_set ev AND NOT flags else ev_set ev)
     else got = None \<and> ev' = ev \<and>
       (if time = 0 then r = Returned (- RT_ETIMEOUT) \<and> ev_waiters ev s' = ev_waiters ev s
        else r = Blocked \<and> stat_of s' c = RT_THREAD_SUSPEND \<and>
          ev_waiters ev s' = queued (ev_flag ev) (prio s) c (ev_waiters ev s)))"
proof -
  let ?l = "Suspend_List (ev_id ev)"
  let ?s = "thr_upd c (\<lambda>r. r\<lparr>error := RT_EOK\<rparr>) s"
  have ctx: "in_thread_context s"
    using c(1) nest by (simp add: in_thread_context_def not_in_interrupt_def rt_thread_self_def rt_interrupt_get_nest_def)
  have status: "(if opt AND RT_EVENT_FLAG_AND \<noteq> 0 then ev_set ev AND flags = flags else ev_set ev AND flags \<noteq> 0) =
      satisfied flags opt (ev_set ev)"
    using opt by (auto simp: satisfied_def ac_simps)
  have flag: "ev_flag ev = 0 \<or> ev_flag ev = 1" using ok by (simp add: event_ok_def)
  have nl: "c \<notin> set (ev_waiters ev s)" using running_unlinked [OF kernel_invD(2) [OF inv] c(2)] unlinkedD by blast
  have i: "kernel_inv 1 ?s" using inv error_upd_inv by simp
  have okc: "event_ok ev (thr_upd c f s)" for f using ok nl by (auto simp: event_ok_def)
  show ?thesis
  proof (cases "satisfied flags opt (ev_set ev)")
    case True
    let ?ev = "if opt AND RT_EVENT_FLAG_CLEAR \<noteq> 0 then ev\<lparr>ev_set := ev_set ev AND NOT flags\<rparr> else ev"
    have "rt_event_recv ev flags opt time s = Inr (Returned RT_EOK, Some (ev_set ev AND flags), ?ev, ?s)"
      using True ctx c(1) fl opt by (simp add: rt_event_recv_def rt_thread_self_def Let_def status)
    moreover have "(ev_set ev AND NOT flags) AND ev_set ev = ev_set ev AND NOT flags"
      by (simp add: ac_simps)
    then have "event_ok ?ev ?s"
      using okc [of "\<lambda>r. r\<lparr>error := RT_EOK\<rparr>"] satisfied_mono by (auto simp: event_ok_def)
    ultimately show ?thesis using True i by auto
  next
    case False
    show ?thesis
    proof (cases "time = 0")
      case t0: True
      let ?s1 = "thr_upd c (\<lambda>r. r\<lparr>error := - RT_ETIMEOUT\<rparr>) ?s"
      have "rt_event_recv ev flags opt time s = Inr (Returned (- RT_ETIMEOUT), None, ev, ?s1)"
        using False ctx c(1) fl opt t0 by (simp add: rt_event_recv_def rt_thread_self_def Let_def status)
      moreover have "kernel_inv 1 ?s1" using i error_upd_inv by simp
      moreover have "event_ok ev ?s1" using ok nl by (auto simp: event_ok_def)
      ultimately show ?thesis using False t0 by auto
    next
      case t1: False
      let ?s1 = "thr_upd c (\<lambda>r. r\<lparr>event_set := flags, event_info := opt\<rparr>) ?s"
      have i1: "kernel_inv 1 ?s1" using i by (subst field_upd_kernel_inv) simp_all
      obtain s' where s': "ipc_wait ?l (ev_flag ev) time c ?s1 = Inr s'" "kernel_inv 1 s'" "waits ?l (ev_flag ev) c ?s1 s'"
        using ipc_wait_ok [OF i1 _ _ wait_list_simps(1) flag time] c by auto
      have "rt_event_recv ev flags opt time s = Inr (Blocked, None, ev, s')"
        using False ctx c(1) fl opt t1 s'(1) by (simp add: rt_event_recv_def rt_thread_self_def Let_def status)
      moreover have p: "prio ?s1 = prio s" by (rule ext) simp
      then have q: "ev_waiters ev s' = queued (ev_flag ev) (prio s) c (ev_waiters ev s)"
        using s'(3) by (simp add: waits_def)
      moreover have "event_ok ev s'"
      proof -
        have d: "event_set (threads s' t) = event_set (threads ?s1 t)" "event_info (threads s' t) = event_info (threads ?s1 t)" for t
          using data_frameD(3,4) [of ?s1 s' t] s'(3) unfolding waits_def by blast+
        show ?thesis using ok False flag nl unfolding event_ok_def q d by (auto simp: set_queued)
      qed
      moreover have "stat_of s' c = RT_THREAD_SUSPEND" using s'(3) by (simp add: waits_def)
      ultimately show ?thesis using False t1 s'(2) by auto
    qed
  qed
qed

theorem event_recv_cases_witness:
  "\<exists>got ev' s'. rt_event_recv \<lparr>ev_id = 1, ev_set = 6, ev_flag = 0\<rparr> 3 RT_EVENT_FLAG_OR 10 example_kernel = Inr (Returned RT_EOK, got, ev', s') \<and>
    got = Some 2"
proof -
  let ?ev = "\<lparr>ev_id = 1, ev_set = 6, ev_flag = 0\<rparr>"
  have w: "ev_waiters ?ev example_kernel = []" "rt_interrupt_nest example_kernel = 0"
    by (simp_all add: example_kernel_def kernel_reset_def)
  have "event_ok ?ev example_kernel" by (simp add: event_ok_def w(1) [simplified])
  then show ?thesis
    using event_recv_cases [OF example_kernel_ok(1) _ example_kernel_ok(4,6) w(2), of ?ev 10 3 RT_EVENT_FLAG_OR]
    by (auto simp: satisfied_def event_flag_defs)
qed

end
