(* ===== verification/Mailbox.thy ===== *)
theory Mailbox
  imports Ipc
begin

text \<open>
  Mailboxes, the fourth part of \<^verbatim>\<open>rt-thread/src/ipc.c\<close>: a ring of words with threads that
  wait for a word and threads that wait for room.

  The loops of \<open>rt_mb_send_wait\<close> and \<open>rt_mb_recv\<close> go round once for every time the thread waits.
  \<open>mb_send_try\<close> and \<open>mb_recv_try\<close> are one round, up to the context switch; the \<open>_wake\<close> functions
  are the rest of the round, with the time that is left, and the next one. \<open>mb_abs\<close> is the
  abstract mailbox: the queue of the words in it.
\<close>

section \<open>Operations\<close>

record mailbox =
  mb_id :: nat
  msg_pool :: "u32 list"
  mb_size :: u16
  mb_entry :: u16
  in_offset :: u16
  out_offset :: u16
  mb_flag :: u8

abbreviation mb_receivers :: "mailbox \<Rightarrow> kernel \<Rightarrow> tid list" where
  "mb_receivers mb s \<equiv> lists s (Suspend_List (mb_id mb))"

abbreviation mb_senders :: "mailbox \<Rightarrow> kernel \<Rightarrow> tid list" where
  "mb_senders mb s \<equiv> lists s (Sender_List (mb_id mb))"

definition rt_mb_init :: "nat \<Rightarrow> u32 list \<Rightarrow> u32 \<Rightarrow> u8 \<Rightarrow> kernel \<Rightarrow> int \<times> mailbox \<times> kernel" where
  "rt_mb_init n pool msgs flag s =
     (let s = rt_ipc_object_init n s
      in (RT_EOK, \<lparr>mb_id = n, msg_pool = pool, mb_size = ucast msgs, mb_entry = 0, in_offset = 0, out_offset = 0, mb_flag = flag\<rparr>,
          s\<lparr>lists := (lists s)(Sender_List n := [])\<rparr>))"

text \<open>\<open>pool\<close> is the block the heap gives for the messages, if it has one.\<close>

definition rt_mb_create ::
  "bool \<Rightarrow> u32 list option \<Rightarrow> nat \<Rightarrow> u32 \<Rightarrow> u8 \<Rightarrow> kernel \<Rightarrow> fault + mailbox option \<times> kernel" where
  "rt_mb_create mem pool n msgs flag s =
     (if \<not> not_in_interrupt s then Inl Assert_Fail
      else if \<not> mem then Inr (None, s)
      else
        let s = rt_ipc_object_init n s
        in (case pool of
              None \<Rightarrow> Inr (None, s)
            | Some ws \<Rightarrow>
                Inr (Some \<lparr>mb_id = n, msg_pool = ws, mb_size = ucast msgs, mb_entry = 0, in_offset = 0, out_offset = 0, mb_flag = flag\<rparr>,
                     s\<lparr>lists := (lists s)(Sender_List n := [])\<rparr>)))"

definition rt_mb_detach :: "mailbox \<Rightarrow> kernel \<Rightarrow> fault + int \<times> kernel" where
  "rt_mb_detach mb s =
     rbind (rt_ipc_list_resume_all (Suspend_List (mb_id mb)) s) (\<lambda>s.
     rbind (rt_ipc_list_resume_all (Sender_List (mb_id mb)) s) (\<lambda>s. Inr (RT_EOK, s)))"

definition rt_mb_delete :: "mailbox \<Rightarrow> kernel \<Rightarrow> fault + int \<times> kernel" where
  "rt_mb_delete mb s =
     (if \<not> not_in_interrupt s then Inl Assert_Fail
      else
        rbind (rt_ipc_list_resume_all (Suspend_List (mb_id mb)) s) (\<lambda>s.
        rbind (rt_ipc_list_resume_all (Sender_List (mb_id mb)) s) (\<lambda>s. Inr (RT_EOK, s))))"

definition mb_send_try :: "mailbox \<Rightarrow> u32 \<Rightarrow> int \<Rightarrow> kernel \<Rightarrow> fault + outcome \<times> mailbox \<times> kernel" where
  "mb_send_try mb v timeout s =
     (if mb_entry mb = mb_size mb then
        (case rt_thread_self s of
           None \<Rightarrow> Inl Null_Deref
         | Some t \<Rightarrow>
             let s = thr_upd t (\<lambda>r. r\<lparr>error := RT_EOK\<rparr>) s
             in if timeout = 0 then Inr (Returned (- RT_EFULL), mb, s)
                else if \<not> in_thread_context s then Inl Assert_Fail
                else rbind (ipc_wait (Sender_List (mb_id mb)) (mb_flag mb) timeout t s) (\<lambda>s. Inr (Blocked, mb, s)))
      else
        rbind (wr (msg_pool mb) (unat (in_offset mb)) v) (\<lambda>pool.
        let mb = mb\<lparr>msg_pool := pool, in_offset := in_offset mb + 1\<rparr>;
            mb = (if in_offset mb \<ge> mb_size mb then mb\<lparr>in_offset := 0\<rparr> else mb);
            mb = mb\<lparr>mb_entry := mb_entry mb + 1\<rparr>
        in if mb_receivers mb s \<noteq> [] then
             rbind (rt_schedule (rt_ipc_list_resume (Suspend_List (mb_id mb)) s)) (\<lambda>s. Inr (Returned RT_EOK, mb, s))
           else Inr (Returned RT_EOK, mb, s)))"

definition rt_mb_send_wait :: "mailbox \<Rightarrow> u32 \<Rightarrow> int \<Rightarrow> kernel \<Rightarrow> fault + outcome \<times> mailbox \<times> kernel" where
  "rt_mb_send_wait mb v timeout s =
     (if mb_entry mb = mb_size mb \<and> timeout = 0 then Inr (Returned (- RT_EFULL), mb, s)
      else mb_send_try mb v timeout s)"

text \<open>The time that is left of a timeout that started at the tick \<open>tick\<close>.\<close>

definition time_left :: "int \<Rightarrow> u32 \<Rightarrow> kernel \<Rightarrow> int" where
  "time_left timeout tick s =
     (if timeout > 0 then let left = s32 (timeout - uint (rt_tick_get s - tick)) in if left < 0 then 0 else left
      else timeout)"

definition rt_mb_send_wake :: "tid \<Rightarrow> mailbox \<Rightarrow> u32 \<Rightarrow> int \<Rightarrow> u32 \<Rightarrow> kernel \<Rightarrow> fault + outcome \<times> mailbox \<times> kernel" where
  "rt_mb_send_wake t mb v timeout tick s =
     (if error (threads s t) \<noteq> RT_EOK then Inr (Returned (error (threads s t)), mb, s)
      else mb_send_try mb v (time_left timeout tick s) s)"

definition rt_mb_send :: "mailbox \<Rightarrow> u32 \<Rightarrow> kernel \<Rightarrow> fault + outcome \<times> mailbox \<times> kernel" where
  "rt_mb_send mb v s = rt_mb_send_wait mb v 0 s"

text \<open>The second result of the receiving functions is what is written to \<open>*value\<close>.\<close>

definition mb_recv_try :: "mailbox \<Rightarrow> int \<Rightarrow> kernel \<Rightarrow> fault + outcome \<times> u32 option \<times> mailbox \<times> kernel" where
  "mb_recv_try mb timeout s =
     (if mb_entry mb = 0 then
        (case rt_thread_self s of
           None \<Rightarrow> Inl Null_Deref
         | Some t \<Rightarrow>
             let s = thr_upd t (\<lambda>r. r\<lparr>error := RT_EOK\<rparr>) s
             in if timeout = 0 then
                  Inr (Returned (- RT_ETIMEOUT), None, mb, thr_upd t (\<lambda>r. r\<lparr>error := - RT_ETIMEOUT\<rparr>) s)
                else if \<not> in_thread_context s then Inl Assert_Fail
                else rbind (ipc_wait (Suspend_List (mb_id mb)) (mb_flag mb) timeout t s) (\<lambda>s. Inr (Blocked, None, mb, s)))
      else
        rbind (rd (msg_pool mb) (unat (out_offset mb))) (\<lambda>v.
        let mb = mb\<lparr>out_offset := out_offset mb + 1\<rparr>;
            mb = (if out_offset mb \<ge> mb_size mb then mb\<lparr>out_offset := 0\<rparr> else mb);
            mb = mb\<lparr>mb_entry := mb_entry mb - 1\<rparr>
        in if mb_senders mb s \<noteq> [] then
             rbind (rt_schedule (rt_ipc_list_resume (Sender_List (mb_id mb)) s)) (\<lambda>s. Inr (Returned RT_EOK, Some v, mb, s))
           else Inr (Returned RT_EOK, Some v, mb, s)))"

definition rt_mb_recv :: "mailbox \<Rightarrow> int \<Rightarrow> kernel \<Rightarrow> fault + outcome \<times> u32 option \<times> mailbox \<times> kernel" where
  "rt_mb_recv mb timeout s =
     (if mb_entry mb = 0 \<and> timeout = 0 then Inr (Returned (- RT_ETIMEOUT), None, mb, s)
      else mb_recv_try mb timeout s)"

definition rt_mb_recv_wake ::
  "tid \<Rightarrow> mailbox \<Rightarrow> int \<Rightarrow> u32 \<Rightarrow> kernel \<Rightarrow> fault + outcome \<times> u32 option \<times> mailbox \<times> kernel" where
  "rt_mb_recv_wake t mb timeout tick s =
     (if error (threads s t) \<noteq> RT_EOK then Inr (Returned (error (threads s t)), None, mb, s)
      else mb_recv_try mb (time_left timeout tick s) s)"

definition rt_mb_control :: "mailbox \<Rightarrow> nat \<Rightarrow> kernel \<Rightarrow> fault + int \<times> mailbox \<times> kernel" where
  "rt_mb_control mb cmd s =
     (if cmd = RT_IPC_CMD_RESET then
        rbind (rt_ipc_list_resume_all (Suspend_List (mb_id mb)) s) (\<lambda>s.
        rbind (rt_ipc_list_resume_all (Sender_List (mb_id mb)) s) (\<lambda>s.
        rbind (rt_schedule s) (\<lambda>s.
        Inr (RT_EOK, mb\<lparr>mb_entry := 0, in_offset := 0, out_offset := 0\<rparr>, s))))
      else Inr (- RT_ERROR, mb, s))"

section \<open>The queue of words\<close>

definition mb_ok :: "mailbox \<Rightarrow> bool" where
  "mb_ok mb \<longleftrightarrow> (mb_flag mb = 0 \<or> mb_flag mb = 1) \<and> 0 < unat (mb_size mb) \<and> unat (mb_size mb) \<le> length (msg_pool mb) \<and>
     unat (mb_entry mb) \<le> unat (mb_size mb) \<and> unat (out_offset mb) < unat (mb_size mb) \<and>
     unat (in_offset mb) = (unat (out_offset mb) + unat (mb_entry mb)) mod unat (mb_size mb)"

definition mb_abs :: "mailbox \<Rightarrow> u32 list" where
  "mb_abs mb = map (\<lambda>i. msg_pool mb ! ((unat (out_offset mb) + i) mod unat (mb_size mb))) [0..<unat (mb_entry mb)]"

definition mb_full :: "mailbox \<Rightarrow> bool" where
  "mb_full mb \<longleftrightarrow> mb_entry mb = mb_size mb"

text \<open>The offset after one step round the ring.\<close>

lemma offset_step:
  fixes off sz :: u16
  assumes "unat off < unat sz"
  shows "unat (if off + 1 \<ge> sz then 0 else off + 1) = (unat off + 1) mod unat sz"
proof -
  have "unat sz < 65536" by (rule unat_u16_less)
  then have u: "unat (off + 1) = unat off + 1" using assms by (simp add: unat_word_ariths)
  have "off + 1 \<ge> sz \<longleftrightarrow> unat off + 1 \<ge> unat sz" by (simp add: word_le_nat_alt u)
  then show ?thesis using assms u by (cases "unat off + 1 = unat sz") (auto simp: not_le)
qed

lemma mb_put:
  fixes v :: u32
  assumes ok: "mb_ok mb" and room: "mb_entry mb \<noteq> mb_size mb"
  defines "mb' \<equiv> mb\<lparr>msg_pool := (msg_pool mb)[unat (in_offset mb) := v],
     in_offset := if in_offset mb + 1 \<ge> mb_size mb then 0 else in_offset mb + 1, mb_entry := mb_entry mb + 1\<rparr>"
  shows "mb_ok mb'" "mb_abs mb' = mb_abs mb @ [v]" "unat (in_offset mb) < length (msg_pool mb)"
proof -
  obtain sz e ot io where vd: "sz = unat (mb_size mb)" "e = unat (mb_entry mb)" "ot = unat (out_offset mb)"
      "io = unat (in_offset mb)" by blast
  have k: "0 < sz" "sz \<le> length (msg_pool mb)" "e \<le> sz" "ot < sz" "io = (ot + e) mod sz"
    using ok by (simp_all add: mb_ok_def vd)
  have "e \<noteq> sz" using room by (simp add: vd word_unat_eq_iff)
  then have es: "e < sz" using k(3) by simp
  have "sz < 65536" using unat_u16_less by (simp add: vd)
  then have ue: "unat (mb_entry mb + 1) = e + 1" using es by (simp add: unat_word_ariths vd)
  have ios: "io < sz" using k by simp
  then show "unat (in_offset mb) < length (msg_pool mb)" using k(2) by (simp add: vd)
  have ui: "unat (if in_offset mb + 1 \<ge> mb_size mb then 0 else in_offset mb + 1) = (io + 1) mod sz"
    using offset_step [of "in_offset mb" "mb_size mb"] ios by (simp add: vd)
  have f: "mb_size mb' = mb_size mb" "out_offset mb' = out_offset mb" "unat (mb_entry mb') = e + 1"
    "unat (in_offset mb') = (io + 1) mod sz" "msg_pool mb' = (msg_pool mb)[io := v]" "mb_flag mb' = mb_flag mb"
    using ue ui by (simp_all add: mb'_def vd)
  have "(io + 1) mod sz = (ot + (e + 1)) mod sz" by (simp add: k(5) mod_simps add.assoc)
  then show "mb_ok mb'" using ok es k ue by (simp add: mb_ok_def f vd [symmetric])
  have ne: "(ot + i) mod sz \<noteq> io" if "i < e" for i
  proof -
    have "(ot + i) mod sz = (if ot + i < sz then ot + i else ot + i - sz)"
      using that es k(4) by (intro mod_less_twice) simp
    moreover have "io = (if ot + e < sz then ot + e else ot + e - sz)"
      unfolding k(5) using es k(4) by (intro mod_less_twice) simp
    ultimately show ?thesis using that es k(4) by (auto split: if_splits)
  qed
  have "mb_abs mb' = map (\<lambda>i. (msg_pool mb)[io := v] ! ((ot + i) mod sz)) [0..<e + 1]"
    by (simp add: mb_abs_def f vd [symmetric])
  also have "\<dots> = map (\<lambda>i. msg_pool mb ! ((ot + i) mod sz)) [0..<e] @ [v]"
  proof -
    have "(msg_pool mb)[io := v] ! ((ot + i) mod sz) = msg_pool mb ! ((ot + i) mod sz)" if "i < e" for i
      using ne [OF that] by (metis nth_list_update_neq)
    moreover have "(msg_pool mb)[io := v] ! ((ot + e) mod sz) = v"
      unfolding k(5) [symmetric] using ios k(2) by simp
    ultimately show ?thesis by simp
  qed
  finally show "mb_abs mb' = mb_abs mb @ [v]" by (simp add: mb_abs_def vd)
qed

lemma mb_get:
  assumes ok: "mb_ok mb" and some: "mb_entry mb \<noteq> 0"
  defines "mb' \<equiv> mb\<lparr>out_offset := if out_offset mb + 1 \<ge> mb_size mb then 0 else out_offset mb + 1,
     mb_entry := mb_entry mb - 1\<rparr>"
  shows "mb_ok mb'" "mb_abs mb = msg_pool mb ! unat (out_offset mb) # mb_abs mb'"
    "unat (out_offset mb) < length (msg_pool mb)"
proof -
  obtain sz e ot io where vd: "sz = unat (mb_size mb)" "e = unat (mb_entry mb)" "ot = unat (out_offset mb)"
      "io = unat (in_offset mb)" by blast
  have k: "0 < sz" "sz \<le> length (msg_pool mb)" "e \<le> sz" "ot < sz" "io = (ot + e) mod sz"
    using ok by (simp_all add: mb_ok_def vd)
  show "unat (out_offset mb) < length (msg_pool mb)" using k(2,4) by (simp add: vd)
  have "0 < e" using some by (simp add: vd unat_gt_0)
  then obtain d where d: "e = Suc d" by (cases e) auto
  have "1 \<le> mb_entry mb" using \<open>0 < e\<close> by (simp add: vd word_le_nat_alt)
  then have ue: "unat (mb_entry mb - 1) = d" using d by (simp add: unat_sub vd)
  have uo: "unat (if out_offset mb + 1 \<ge> mb_size mb then 0 else out_offset mb + 1) = (ot + 1) mod sz"
    using offset_step [of "out_offset mb" "mb_size mb"] k(4) by (simp add: vd)
  have f: "mb_size mb' = mb_size mb" "in_offset mb' = in_offset mb" "unat (mb_entry mb') = d"
    "unat (out_offset mb') = (ot + 1) mod sz" "msg_pool mb' = msg_pool mb" "mb_flag mb' = mb_flag mb"
    using ue uo by (simp_all add: mb'_def)
  have "((ot + 1) mod sz + d) mod sz = (ot + e) mod sz" by (simp add: d mod_simps)
  then show "mb_ok mb'" using ok k d by (simp add: mb_ok_def f vd [symmetric])
  have "mb_abs mb' = map (\<lambda>i. msg_pool mb ! (((ot + 1) mod sz + i) mod sz)) [0..<d]"
    by (simp add: mb_abs_def f vd [symmetric])
  also have "\<dots> = map (\<lambda>i. msg_pool mb ! ((ot + Suc i) mod sz)) [0..<d]" by (simp add: mod_simps)
  also have "msg_pool mb ! ot # \<dots> = map (\<lambda>i. msg_pool mb ! ((ot + i) mod sz)) [0..<Suc d]"
    using k(4) by (simp add: map_upt_Suc del: upt_Suc)
  finally have "msg_pool mb ! ot # mb_abs mb' = map (\<lambda>i. msg_pool mb ! ((ot + i) mod sz)) [0..<Suc d]" .
  moreover have "unat (mb_entry mb) = Suc d" using d vd(2) by simp
  ultimately show "mb_abs mb = msg_pool mb ! unat (out_offset mb) # mb_abs mb'"
    unfolding mb_abs_def [of mb] by (simp only: vd)
qed

section \<open>One round of the loops\<close>

lemma mb_send_try_ok:
  assumes inv: "kernel_inv 1 s" and ok: "mb_ok mb" and c: "cur s = Some c" "stat_of s c = RT_THREAD_RUNNING"
    and nest: "rt_interrupt_nest s = 0" and time: "time < 0x7fffffff"
  shows "\<exists>r mb' s'. mb_send_try mb v time s = Inr (r, mb', s') \<and> kernel_inv 1 s' \<and> mb_ok mb' \<and> mb_id mb' = mb_id mb \<and>
    (if mb_full mb
     then mb' = mb \<and> (if time = 0 then r = Returned (- RT_EFULL)
       else r = Blocked \<and> stat_of s' c = RT_THREAD_SUSPEND \<and> mb_senders mb s' = queued (mb_flag mb) (prio s) c (mb_senders mb s))
     else r = Returned RT_EOK \<and> mb_abs mb' = mb_abs mb @ [v] \<and>
       (case mb_receivers mb s of [] \<Rightarrow> s' = s | t # _ \<Rightarrow> wakes (Suspend_List (mb_id mb)) t s s'))"
proof (cases "mb_full mb")
  case True
  then have full: "mb_entry mb = mb_size mb" by (simp add: mb_full_def)
  let ?s = "thr_upd c (\<lambda>r. r\<lparr>error := RT_EOK\<rparr>) s"
  have i: "kernel_inv 1 ?s" using inv error_upd_inv by simp
  have ctx: "in_thread_context ?s"
    using c(1) nest by (simp add: in_thread_context_def not_in_interrupt_def rt_thread_self_def rt_interrupt_get_nest_def)
  show ?thesis
  proof (cases "time = 0")
    case t0: True
    then show ?thesis using True full i ok c(1) by (simp add: mb_send_try_def rt_thread_self_def Let_def)
  next
    case False
    have flag: "mb_flag mb = 0 \<or> mb_flag mb = 1" using ok by (simp add: mb_ok_def)
    obtain s' where s': "ipc_wait (Sender_List (mb_id mb)) (mb_flag mb) time c ?s = Inr s'" "kernel_inv 1 s'"
        "waits (Sender_List (mb_id mb)) (mb_flag mb) c ?s s'"
      using ipc_wait_ok [OF i _ _ wait_list_simps(2) flag time] c by auto
    have p: "prio ?s = prio s" by (rule ext) simp
    have "mb_send_try mb v time s = Inr (Blocked, mb, s')"
      using full False ctx s'(1) c(1) by (simp add: mb_send_try_def rt_thread_self_def Let_def)
    moreover have "mb_senders mb s' = queued (mb_flag mb) (prio s) c (mb_senders mb s)"
      using s'(3) p by (simp add: waits_def)
    moreover have "stat_of s' c = RT_THREAD_SUSPEND" using s'(3) by (simp add: waits_def)
    ultimately show ?thesis using True False s'(2) ok by simp
  qed
next
  case False
  then have room: "mb_entry mb \<noteq> mb_size mb" by (simp add: mb_full_def)
  let ?mb = "mb\<lparr>msg_pool := (msg_pool mb)[unat (in_offset mb) := v],
     in_offset := if in_offset mb + 1 \<ge> mb_size mb then 0 else in_offset mb + 1, mb_entry := mb_entry mb + 1\<rparr>"
  note put = mb_put(1,2) [OF ok room, of v] mb_put(3) [OF ok room]
  have run: "mb_send_try mb v time s = (if mb_receivers mb s \<noteq> [] then
      rbind (rt_schedule (rt_ipc_list_resume (Suspend_List (mb_id mb)) s)) (\<lambda>s. Inr (Returned RT_EOK, ?mb, s))
      else Inr (Returned RT_EOK, ?mb, s))"
    using room put(3) by (simp add: mb_send_try_def Let_def)
  show ?thesis
  proof (cases "mb_receivers mb s")
    case Nil
    then show ?thesis using False run put inv by simp
  next
    case (Cons t ts)
    obtain s' where "rt_schedule (rt_ipc_list_resume (Suspend_List (mb_id mb)) s) = Inr s'" "kernel_inv 1 s'"
        "wakes (Suspend_List (mb_id mb)) t s s'"
      using resume_schedule_ok [OF inv wait_list_simps(1) Cons] c(1) by auto
    then show ?thesis using False run put Cons by simp
  qed
qed

lemma mb_recv_try_ok:
  assumes inv: "kernel_inv 1 s" and ok: "mb_ok mb" and c: "cur s = Some c" "stat_of s c = RT_THREAD_RUNNING"
    and nest: "rt_interrupt_nest s = 0" and time: "time < 0x7fffffff"
  shows "\<exists>r got mb' s'. mb_recv_try mb time s = Inr (r, got, mb', s') \<and> kernel_inv 1 s' \<and> mb_ok mb' \<and> mb_id mb' = mb_id mb \<and>
    (case mb_abs mb of
       [] \<Rightarrow> mb' = mb \<and> got = None \<and> (if time = 0 then r = Returned (- RT_ETIMEOUT)
         else r = Blocked \<and> stat_of s' c = RT_THREAD_SUSPEND \<and> mb_receivers mb s' = queued (mb_flag mb) (prio s) c (mb_receivers mb s))
     | v # vs \<Rightarrow> r = Returned RT_EOK \<and> got = Some v \<and> mb_abs mb' = vs \<and>
         (case mb_senders mb s of [] \<Rightarrow> s' = s | t # _ \<Rightarrow> wakes (Sender_List (mb_id mb)) t s s'))"
proof (cases "mb_entry mb = 0")
  case True
  then have nil: "mb_abs mb = []" by (simp add: mb_abs_def)
  let ?s = "thr_upd c (\<lambda>r. r\<lparr>error := RT_EOK\<rparr>) s"
  have i: "kernel_inv 1 ?s" using inv error_upd_inv by simp
  have ctx: "in_thread_context ?s"
    using c(1) nest by (simp add: in_thread_context_def not_in_interrupt_def rt_thread_self_def rt_interrupt_get_nest_def)
  show ?thesis
  proof (cases "time = 0")
    case t0: True
    have "kernel_inv 1 (thr_upd c (\<lambda>r. r\<lparr>error := - RT_ETIMEOUT\<rparr>) ?s)" using i error_upd_inv by simp
    then show ?thesis using True t0 nil ok c(1) by (simp add: mb_recv_try_def rt_thread_self_def Let_def)
  next
    case False
    have flag: "mb_flag mb = 0 \<or> mb_flag mb = 1" using ok by (simp add: mb_ok_def)
    obtain s' where s': "ipc_wait (Suspend_List (mb_id mb)) (mb_flag mb) time c ?s = Inr s'" "kernel_inv 1 s'"
        "waits (Suspend_List (mb_id mb)) (mb_flag mb) c ?s s'"
      using ipc_wait_ok [OF i _ _ wait_list_simps(1) flag time] c by auto
    have p: "prio ?s = prio s" by (rule ext) simp
    have "mb_recv_try mb time s = Inr (Blocked, None, mb, s')"
      using True False ctx s'(1) c(1) by (simp add: mb_recv_try_def rt_thread_self_def Let_def)
    moreover have "mb_receivers mb s' = queued (mb_flag mb) (prio s) c (mb_receivers mb s)"
      using s'(3) p by (simp add: waits_def)
    moreover have "stat_of s' c = RT_THREAD_SUSPEND" using s'(3) by (simp add: waits_def)
    ultimately show ?thesis using nil False s'(2) ok by simp
  qed
next
  case False
  let ?mb = "mb\<lparr>out_offset := if out_offset mb + 1 \<ge> mb_size mb then 0 else out_offset mb + 1, mb_entry := mb_entry mb - 1\<rparr>"
  let ?v = "msg_pool mb ! unat (out_offset mb)"
  note get = mb_get [OF ok False]
  have run: "mb_recv_try mb time s = (if mb_senders mb s \<noteq> [] then
      rbind (rt_schedule (rt_ipc_list_resume (Sender_List (mb_id mb)) s)) (\<lambda>s. Inr (Returned RT_EOK, Some ?v, ?mb, s))
      else Inr (Returned RT_EOK, Some ?v, ?mb, s))"
    using False get(3) by (simp add: mb_recv_try_def Let_def)
  show ?thesis
  proof (cases "mb_senders mb s")
    case Nil
    then show ?thesis using run get inv by simp
  next
    case (Cons t ts)
    obtain s' where "rt_schedule (rt_ipc_list_resume (Sender_List (mb_id mb)) s) = Inr s'" "kernel_inv 1 s'"
        "wakes (Sender_List (mb_id mb)) t s s'"
      using resume_schedule_ok [OF inv wait_list_simps(2) Cons] c(1) by auto
    then show ?thesis using run get Cons by simp
  qed
qed

lemma mb_recv_try_abs:
  assumes "kernel_inv 1 s" "mb_ok mb" "cur s = Some c" "stat_of s c = RT_THREAD_RUNNING" "rt_interrupt_nest s = 0"
    "time < 0x7fffffff" "mb_recv_try mb time s = Inr (r, got, mb', s')"
  shows "kernel_inv 1 s'" "mb_ok mb'" "received @ mb_abs mb = (case got of None \<Rightarrow> received | Some v \<Rightarrow> received @ [v]) @ mb_abs mb'"
proof -
  note R = mb_recv_try_ok [OF assms(1-6)]
  show "kernel_inv 1 s'" "mb_ok mb'" using R assms(7) by auto
  show "received @ mb_abs mb = (case got of None \<Rightarrow> received | Some v \<Rightarrow> received @ [v]) @ mb_abs mb'"
    using R assms(7) by (cases "mb_abs mb") auto
qed

section \<open>The mailbox in the running system\<close>

text \<open>
  The calls of running threads on a mailbox, the threads that go on after they waited, and the
  ticks in between. The last two arguments are the words whose sending returned success and the
  words that were received, in order.
\<close>

inductive mb_reach :: "(nat \<Rightarrow> kernel \<Rightarrow> fault + kernel) \<Rightarrow> mailbox \<Rightarrow> kernel \<Rightarrow> u32 list \<Rightarrow> u32 list \<Rightarrow> bool"
  for obj :: "nat \<Rightarrow> kernel \<Rightarrow> fault + kernel" where
  init: "kernel_inv 1 s \<Longrightarrow> mb_ok mb \<Longrightarrow> mb_entry mb = 0 \<Longrightarrow> mb_reach obj mb s [] []"
| send: "mb_reach obj mb s sent received \<Longrightarrow> cur s = Some c \<Longrightarrow> stat_of s c = RT_THREAD_RUNNING \<Longrightarrow>
     rt_interrupt_nest s = 0 \<Longrightarrow> time < 0x7fffffff \<Longrightarrow>
     rt_mb_send_wait mb v time s = Inr (r, mb', s') \<or> rt_mb_send_wake c mb v time0 tick s = Inr (r, mb', s') \<Longrightarrow>
     time_left time0 tick s < 0x7fffffff \<Longrightarrow>
     mb_reach obj mb' s' (if r = Returned RT_EOK then sent @ [v] else sent) received"
| recv: "mb_reach obj mb s sent received \<Longrightarrow> cur s = Some c \<Longrightarrow> stat_of s c = RT_THREAD_RUNNING \<Longrightarrow>
     rt_interrupt_nest s = 0 \<Longrightarrow> time < 0x7fffffff \<Longrightarrow>
     rt_mb_recv mb time s = Inr (r, got, mb', s') \<or> rt_mb_recv_wake c mb time0 tick s = Inr (r, got, mb', s') \<Longrightarrow>
     time_left time0 tick s < 0x7fffffff \<Longrightarrow>
     mb_reach obj mb' s' sent (case got of None \<Rightarrow> received | Some v \<Rightarrow> received @ [v])"
| tick: "mb_reach obj mb s sent received \<Longrightarrow> cur s \<noteq> None \<Longrightarrow> periods_ok s \<Longrightarrow> length (rt_timer_list s) < fuel \<Longrightarrow>
     rt_tick_increase obj fuel s = Some (Inr s') \<Longrightarrow> mb_reach obj mb s' sent received"

section \<open>Properties\<close>

text \<open>
  A send into a mailbox that is not full appends the word to the queue and wakes the first
  receiver; into a full one it returns at once or waits behind the other senders.
\<close>

theorem mb_send_appends:
  assumes inv: "kernel_inv 1 s" and ok: "mb_ok mb" and c: "cur s = Some c" "stat_of s c = RT_THREAD_RUNNING"
    and nest: "rt_interrupt_nest s = 0" and time: "time < 0x7fffffff"
  shows "\<exists>r mb' s'. rt_mb_send_wait mb v time s = Inr (r, mb', s') \<and> kernel_inv 1 s' \<and> mb_ok mb' \<and>
    (if mb_full mb
     then mb' = mb \<and> (if time = 0 then r = Returned (- RT_EFULL)
       else r = Blocked \<and> mb_senders mb s' = queued (mb_flag mb) (prio s) c (mb_senders mb s))
     else r = Returned RT_EOK \<and> mb_abs mb' = mb_abs mb @ [v] \<and>
       (\<forall>t ts. mb_receivers mb s = t # ts \<longrightarrow> runnable s' t \<and> mb_receivers mb s' = ts))"
proof (cases "mb_full mb \<and> time = 0")
  case True
  then show ?thesis using inv ok by (simp add: rt_mb_send_wait_def mb_full_def)
next
  case False
  obtain r mb' s' where s': "mb_send_try mb v time s = Inr (r, mb', s')" "kernel_inv 1 s'" "mb_ok mb'"
    "if mb_full mb
     then mb' = mb \<and> (if time = 0 then r = Returned (- RT_EFULL)
       else r = Blocked \<and> stat_of s' c = RT_THREAD_SUSPEND \<and> mb_senders mb s' = queued (mb_flag mb) (prio s) c (mb_senders mb s))
     else r = Returned RT_EOK \<and> mb_abs mb' = mb_abs mb @ [v] \<and>
       (case mb_receivers mb s of [] \<Rightarrow> s' = s | t # _ \<Rightarrow> wakes (Suspend_List (mb_id mb)) t s s')"
    using mb_send_try_ok [OF inv ok c nest time] by metis
  moreover have "rt_mb_send_wait mb v time s = mb_send_try mb v time s"
    using False by (auto simp: rt_mb_send_wait_def mb_full_def)
  ultimately show ?thesis using False by (auto simp: wakes_def)
qed

theorem mb_send_appends_witness:
  "\<exists>mb' s'. rt_mb_send_wait \<lparr>mb_id = 1, msg_pool = [0, 0], mb_size = 2, mb_entry = 1, in_offset = 1, out_offset = 0, mb_flag = 0\<rparr> 7 0
      (example_wait 10 [2]) = Inr (Returned RT_EOK, mb', s') \<and> mb_abs mb' = [0, 7] \<and> runnable s' 2"
proof -
  let ?mb = "\<lparr>mb_id = 1, msg_pool = [0, 0], mb_size = 2, mb_entry = 1, in_offset = 1, out_offset = 0, mb_flag = 0\<rparr> :: mailbox"
  have "mb_ok ?mb" "mb_abs ?mb = [0]" "\<not> mb_full ?mb" by (simp_all add: mb_ok_def mb_abs_def mb_full_def)
  then show ?thesis
    using mb_send_appends [of "example_wait 10 [2]" ?mb 0 0 7] example_wait_ok [of 10 "[2]" 1]
      example_wait_simps(1-4) [of 10 "[2]"] by auto
qed

text \<open>C11: Whatever threads send and receive, wait and time out: the words that were received and the words
  that are in the mailbox are the words whose sending succeeded, in that order. No word is lost,
  repeated or overtaken.
\<close>

theorem mailbox_delivers_in_order:
  assumes "mb_reach obj mb s sent received" "timer_callback obj"
  shows "kernel_inv 1 s \<and> mb_ok mb \<and> sent = received @ mb_abs mb"
  using assms(1)
proof (induction rule: mb_reach.induct)
  case (init s mb)
  then show ?case by (simp add: mb_abs_def)
next
  case (send mb s sent received c time v r mb' s' time0 tick)
  consider "r = Returned (- RT_EFULL)" "mb' = mb" "s' = s" | e where "r = Returned e" "e \<noteq> RT_EOK" "mb' = mb" "s' = s"
    | t where "mb_send_try mb v t s = Inr (r, mb', s')" "t < 0x7fffffff"
    using send.hyps(5-7) by (auto simp: rt_mb_send_wait_def rt_mb_send_wake_def split: if_splits)
  then show ?case
  proof cases
    case (3 t)
    obtain r0 mb0 s0 where "mb_send_try mb v t s = Inr (r0, mb0, s0)" "kernel_inv 1 s0" "mb_ok mb0"
      "if mb_full mb then mb0 = mb \<and> r0 \<noteq> Returned RT_EOK else r0 = Returned RT_EOK \<and> mb_abs mb0 = mb_abs mb @ [v]"
      using mb_send_try_ok [of s mb c t v] send.IH send.hyps(2-4) 3(2) by (auto simp: rt_err_defs split: if_splits)
    then show ?thesis using 3(1) send.IH by (auto split: if_splits)
  qed (use send.IH in \<open>auto simp: rt_err_defs\<close>)
next
  case (recv mb s sent received c time r got mb' s' time0 tick)
  consider e where "r = Returned e" "got = None" "mb' = mb" "s' = s"
    | t where "mb_recv_try mb t s = Inr (r, got, mb', s')" "t < 0x7fffffff"
    using recv.hyps(5-7) by (auto simp: rt_mb_recv_def rt_mb_recv_wake_def split: if_splits)
  then show ?case
  proof cases
    case (2 t)
    show ?thesis
      using mb_recv_try_abs [OF _ _ recv.hyps(2-4) 2(2,1)] recv.IH by auto
  qed (use recv.IH in auto)
next
  case (tick mb s sent received fuel s')
  have "kernel_inv 2 s'"
    using timer_callback.rt_tick_increase_ok [OF assms(2) _ tick.hyps(2,3,4)] tick.IH tick.hyps(5) by auto
  then show ?case using tick.IH kernel_inv_mono [of 2 s' 1] by simp
qed

theorem mailbox_delivers_in_order_witness:
  "\<exists>mb s. mb_reach resume_callback mb s [7] [] \<and> kernel_inv 1 s \<and> mb_abs mb = [7]"
proof -
  let ?mb = "\<lparr>mb_id = 1, msg_pool = [0, 0], mb_size = 2, mb_entry = 0, in_offset = 0, out_offset = 0, mb_flag = 0\<rparr> :: mailbox"
  let ?mb' = "\<lparr>mb_id = 1, msg_pool = [7, 0], mb_size = 2, mb_entry = 1, in_offset = 1, out_offset = 0, mb_flag = 0\<rparr> :: mailbox"
  have "mb_ok ?mb" by (simp add: mb_ok_def)
  then have i: "mb_reach resume_callback ?mb example_kernel [] []"
    by (intro mb_reach.init) (simp_all add: example_kernel_ok)
  have e: "lists example_kernel (Suspend_List n) = []" "rt_interrupt_nest example_kernel = 0" for n
    by (simp_all add: example_kernel_def kernel_reset_def)
  have "rt_mb_send_wait ?mb 7 0 example_kernel = Inr (Returned RT_EOK, ?mb', example_kernel)"
    by (simp add: rt_mb_send_wait_def mb_send_try_def wr_def e Let_def word_le_nat_alt)
  then have "mb_reach resume_callback ?mb' example_kernel [7] []"
    using mb_reach.send [OF i example_kernel_ok(4,6) e(2), of 0 7 "Returned RT_EOK" ?mb' example_kernel 0 0]
    by (simp add: time_left_def)
  then show ?thesis using mailbox_delivers_in_order [OF _ resuming.timer_callback_axioms] by fastforce
qed

end
