(* ===== verification/Message_Queue.thy ===== *)
theory Message_Queue
  imports Mailbox
begin

text \<open>
  Message queues, the last part of \<^verbatim>\<open>rt-thread/src/ipc.c\<close>: messages of a fixed size in a
  pool of blocks, which are linked into a queue and a list of free blocks.

  \<^item> A block is its index in the pool. \<open>mq_next\<close> holds the links and \<open>mq_data\<close> the bytes of
    the blocks.
  \<^item> The calls let interrupts in while they copy a message; the pieces before and after the copy
    are definitions of their own, and the calls compose them.
  \<^item> \<open>mq_rep mq q f\<close> says that the queue has the blocks \<open>q\<close> and the free list the blocks \<open>f\<close>;
    every operation keeps it. \<open>messages\<close> are the contents of the queue.
\<close>

section \<open>Operations\<close>

record mqueue =
  mq_id :: nat
  mq_data :: "u8 list list"
  mq_next :: "nat option list"
  msg_size :: u16
  max_msgs :: u16
  mq_entry :: u16
  msg_queue_head :: "nat option"
  msg_queue_tail :: "nat option"
  msg_queue_free :: "nat option"
  mq_flag :: u8

abbreviation mq_receivers :: "mqueue \<Rightarrow> kernel \<Rightarrow> tid list" where
  "mq_receivers mq s \<equiv> lists s (Suspend_List (mq_id mq))"

definition RT_ALIGN :: "nat \<Rightarrow> nat \<Rightarrow> nat" where
  "RT_ALIGN n align = (n + align - 1) div align * align"

text \<open>The loop that links the blocks from \<open>temp\<close> on into the free list.\<close>

function mq_link_free :: "nat \<Rightarrow> nat \<Rightarrow> nat option list \<Rightarrow> nat option \<Rightarrow> fault + nat option list \<times> nat option" where
  "mq_link_free temp n nx free =
     (if temp < n then rbind (wr nx temp free) (\<lambda>nx. mq_link_free (temp + 1) n nx (Some temp)) else Inr (nx, free))"
  by auto

termination
  by (relation "measure (\<lambda>(temp, n, _, _). n - temp)") auto

declare mq_link_free.simps [simp del]

text \<open>\<open>data\<close> and \<open>nx\<close> are the blocks of the pool as they are found.\<close>

definition rt_mq_init ::
  "nat \<Rightarrow> u8 list list \<Rightarrow> nat option list \<Rightarrow> u32 \<Rightarrow> u32 \<Rightarrow> u8 \<Rightarrow> kernel \<Rightarrow> fault + int \<times> mqueue \<times> kernel" where
  "rt_mq_init n data nx msgsize pool_size flag s =
     (let s = rt_ipc_object_init n s;
          sz = of_nat (RT_ALIGN (unat msgsize) 4) :: u16;
          cnt = of_nat (unat pool_size div (unat sz + 4)) :: u16
      in rbind (mq_link_free 0 (unat cnt) nx None) (\<lambda>(nx, free).
         Inr (RT_EOK, \<lparr>mq_id = n, mq_data = data, mq_next = nx, msg_size = sz, max_msgs = cnt, mq_entry = 0,
           msg_queue_head = None, msg_queue_tail = None, msg_queue_free = free, mq_flag = flag\<rparr>, s)))"

definition rt_mq_detach :: "mqueue \<Rightarrow> kernel \<Rightarrow> fault + int \<times> kernel" where
  "rt_mq_detach mq s = rbind (rt_ipc_list_resume_all (Suspend_List (mq_id mq)) s) (\<lambda>s. Inr (RT_EOK, s))"

definition rt_mq_delete :: "mqueue \<Rightarrow> kernel \<Rightarrow> fault + int \<times> kernel" where
  "rt_mq_delete mq s =
     (if \<not> not_in_interrupt s then Inl Assert_Fail
      else rbind (rt_ipc_list_resume_all (Suspend_List (mq_id mq)) s) (\<lambda>s. Inr (RT_EOK, s)))"

text \<open>\<open>pool\<close> is what the heap gives for the blocks, if anything. A failed creation deletes the object.\<close>

definition rt_mq_create ::
  "bool \<Rightarrow> (u8 list list \<times> nat option list) option \<Rightarrow> nat \<Rightarrow> u32 \<Rightarrow> u32 \<Rightarrow> u8 \<Rightarrow> kernel \<Rightarrow> fault + mqueue option \<times> kernel" where
  "rt_mq_create mem pool n msgsize msgs flag s =
     (if \<not> not_in_interrupt s then Inl Assert_Fail
      else if \<not> mem then Inr (None, s)
      else
        let s = rt_ipc_object_init n s;
            mq = \<lparr>mq_id = n, mq_data = [], mq_next = [], msg_size = of_nat (RT_ALIGN (unat msgsize) 4), max_msgs = ucast msgs,
                  mq_entry = 0, msg_queue_head = None, msg_queue_tail = None, msg_queue_free = None, mq_flag = flag\<rparr>
        in (case pool of
              None \<Rightarrow> rbind (rt_mq_delete mq s) (\<lambda>(_, s). Inr (None, s))
            | Some (data, nx) \<Rightarrow>
                rbind (mq_link_free 0 (unat (max_msgs mq)) nx None) (\<lambda>(nx, free).
                Inr (Some (mq\<lparr>mq_data := data, mq_next := nx, msg_queue_free := free\<rparr>), s))))"

text \<open>Taking a block from the free list; \<open>None\<close> when there is none.\<close>

definition mq_take_free :: "mqueue \<Rightarrow> fault + (nat \<times> mqueue) option" where
  "mq_take_free mq =
     (case msg_queue_free mq of
        None \<Rightarrow> Inr None
      | Some i \<Rightarrow> rbind (rd (mq_next mq) i) (\<lambda>p. Inr (Some (i, mq\<lparr>msg_queue_free := p\<rparr>))))"

text \<open>Copying \<open>n\<close> bytes of the buffer into a block.\<close>

definition mq_fill :: "nat \<Rightarrow> u8 list \<Rightarrow> nat \<Rightarrow> mqueue \<Rightarrow> fault + mqueue" where
  "mq_fill i buffer n mq =
     (if length buffer < n then Inl Oob_Read
      else rbind (rd (mq_data mq) i) (\<lambda>block.
        if length block < n then Inl Oob_Write
        else Inr (mq\<lparr>mq_data := (mq_data mq)[i := splice_at 0 (take n buffer) block]\<rparr>)))"

definition mq_link_tail :: "nat \<Rightarrow> mqueue \<Rightarrow> fault + mqueue" where
  "mq_link_tail i mq =
     rbind (case msg_queue_tail mq of None \<Rightarrow> Inr (mq_next mq) | Some t \<Rightarrow> wr (mq_next mq) t (Some i)) (\<lambda>nx.
     let mq = mq\<lparr>mq_next := nx, msg_queue_tail := Some i\<rparr>;
         mq = (if msg_queue_head mq = None then mq\<lparr>msg_queue_head := Some i\<rparr> else mq)
     in Inr (mq\<lparr>mq_entry := mq_entry mq + 1\<rparr>))"

definition mq_link_head :: "nat \<Rightarrow> mqueue \<Rightarrow> fault + mqueue" where
  "mq_link_head i mq =
     rbind (wr (mq_next mq) i (msg_queue_head mq)) (\<lambda>nx.
     let mq = mq\<lparr>mq_next := nx, msg_queue_head := Some i\<rparr>;
         mq = (if msg_queue_tail mq = None then mq\<lparr>msg_queue_tail := Some i\<rparr> else mq)
     in Inr (mq\<lparr>mq_entry := mq_entry mq + 1\<rparr>))"

definition mq_wake :: "mqueue \<Rightarrow> kernel \<Rightarrow> fault + int \<times> mqueue \<times> kernel" where
  "mq_wake mq s =
     (if mq_receivers mq s \<noteq> [] then
        rbind (rt_schedule (rt_ipc_list_resume (Suspend_List (mq_id mq)) s)) (\<lambda>s. Inr (RT_EOK, mq, s))
      else Inr (RT_EOK, mq, s))"

definition rt_mq_send :: "mqueue \<Rightarrow> u8 list \<Rightarrow> u32 \<Rightarrow> kernel \<Rightarrow> fault + int \<times> mqueue \<times> kernel" where
  "rt_mq_send mq buffer n s =
     (if n = 0 then Inl Assert_Fail
      else if unat n > unat (msg_size mq) then Inr (- RT_ERROR, mq, s)
      else
        rbind (mq_take_free mq) (\<lambda>r.
        case r of
          None \<Rightarrow> Inr (- RT_EFULL, mq, s)
        | Some (i, mq) \<Rightarrow>
            rbind (wr (mq_next mq) i None) (\<lambda>nx.
            rbind (mq_fill i buffer (unat n) (mq\<lparr>mq_next := nx\<rparr>)) (\<lambda>mq.
            rbind (mq_link_tail i mq) (\<lambda>mq.
            mq_wake mq s)))))"

definition rt_mq_urgent :: "mqueue \<Rightarrow> u8 list \<Rightarrow> u32 \<Rightarrow> kernel \<Rightarrow> fault + int \<times> mqueue \<times> kernel" where
  "rt_mq_urgent mq buffer n s =
     (if n = 0 then Inl Assert_Fail
      else if unat n > unat (msg_size mq) then Inr (- RT_ERROR, mq, s)
      else
        rbind (mq_take_free mq) (\<lambda>r.
        case r of
          None \<Rightarrow> Inr (- RT_EFULL, mq, s)
        | Some (i, mq) \<Rightarrow>
            rbind (mq_fill i buffer (unat n) mq) (\<lambda>mq.
            rbind (mq_link_head i mq) (\<lambda>mq.
            mq_wake mq s))))"

text \<open>Taking the first message out of the queue, and giving its block back.\<close>

definition mq_unlink_head :: "mqueue \<Rightarrow> fault + nat \<times> mqueue" where
  "mq_unlink_head mq =
     (case msg_queue_head mq of
        None \<Rightarrow> Inl Null_Deref
      | Some i \<Rightarrow>
          rbind (rd (mq_next mq) i) (\<lambda>p.
          let mq = mq\<lparr>msg_queue_head := p\<rparr>;
              mq = (if msg_queue_tail mq = Some i then mq\<lparr>msg_queue_tail := None\<rparr> else mq)
          in Inr (i, mq)))"

definition mq_give_back :: "nat \<Rightarrow> mqueue \<Rightarrow> fault + mqueue" where
  "mq_give_back i mq = rbind (wr (mq_next mq) i (msg_queue_free mq)) (\<lambda>nx. Inr (mq\<lparr>mq_next := nx, msg_queue_free := Some i\<rparr>))"

text \<open>The second result of the receiving functions is what is written to the buffer.\<close>

definition mq_recv_try :: "mqueue \<Rightarrow> u32 \<Rightarrow> int \<Rightarrow> kernel \<Rightarrow> fault + outcome \<times> u8 list option \<times> mqueue \<times> kernel" where
  "mq_recv_try mq n timeout s =
     (if mq_entry mq = 0 then
        if \<not> in_thread_context s then Inl Assert_Fail
        else
          let t = the (rt_thread_self s);
              s = thr_upd t (\<lambda>r. r\<lparr>error := RT_EOK\<rparr>) s
          in if timeout = 0 then
               Inr (Returned (- RT_ETIMEOUT), None, mq, thr_upd t (\<lambda>r. r\<lparr>error := - RT_ETIMEOUT\<rparr>) s)
             else rbind (ipc_wait (Suspend_List (mq_id mq)) (mq_flag mq) timeout t s) (\<lambda>s. Inr (Blocked, None, mq, s))
      else
        rbind (mq_unlink_head mq) (\<lambda>(i, mq).
        let mq = mq\<lparr>mq_entry := mq_entry mq - 1\<rparr>
        in rbind (rd (mq_data mq) i) (\<lambda>block.
           let k = (if unat n > unat (msg_size mq) then unat (msg_size mq) else unat n)
           in if length block < k then Inl Oob_Read
              else rbind (mq_give_back i mq) (\<lambda>mq. Inr (Returned RT_EOK, Some (take k block), mq, s)))))"

definition rt_mq_recv :: "mqueue \<Rightarrow> u32 \<Rightarrow> int \<Rightarrow> kernel \<Rightarrow> fault + outcome \<times> u8 list option \<times> mqueue \<times> kernel" where
  "rt_mq_recv mq n timeout s =
     (if n = 0 then Inl Assert_Fail
      else if mq_entry mq = 0 \<and> timeout = 0 then Inr (Returned (- RT_ETIMEOUT), None, mq, s)
      else mq_recv_try mq n timeout s)"

definition rt_mq_recv_wake ::
  "tid \<Rightarrow> mqueue \<Rightarrow> u32 \<Rightarrow> int \<Rightarrow> u32 \<Rightarrow> kernel \<Rightarrow> fault + outcome \<times> u8 list option \<times> mqueue \<times> kernel" where
  "rt_mq_recv_wake t mq n timeout tick s =
     (if error (threads s t) \<noteq> RT_EOK then Inr (Returned (error (threads s t)), None, mq, s)
      else mq_recv_try mq n (time_left timeout tick s) s)"

text \<open>The loop of the reset; there are at most \<open>n\<close> messages.\<close>

fun mq_drain :: "nat \<Rightarrow> mqueue \<Rightarrow> fault + mqueue" where
  "mq_drain 0 mq = (if msg_queue_head mq = None then Inr mq else Inl Endless_Loop)"
| "mq_drain (Suc n) mq =
     (if msg_queue_head mq = None then Inr mq
      else rbind (mq_unlink_head mq) (\<lambda>(i, mq). rbind (mq_give_back i mq) (mq_drain n)))"

definition rt_mq_control :: "mqueue \<Rightarrow> nat \<Rightarrow> kernel \<Rightarrow> fault + int \<times> mqueue \<times> kernel" where
  "rt_mq_control mq cmd s =
     (if cmd = RT_IPC_CMD_RESET then
        rbind (rt_ipc_list_resume_all (Suspend_List (mq_id mq)) s) (\<lambda>s.
        rbind (mq_drain (length (mq_next mq)) mq) (\<lambda>mq.
        rbind (rt_schedule s) (\<lambda>s. Inr (RT_EOK, mq\<lparr>mq_entry := 0\<rparr>, s))))
      else Inr (- RT_ERROR, mq, s))"

section \<open>Linked blocks\<close>

text \<open>The blocks that are linked from \<open>p\<close> on.\<close>

fun chain :: "nat option list \<Rightarrow> nat option \<Rightarrow> nat list \<Rightarrow> bool" where
  "chain nx p [] \<longleftrightarrow> p = None"
| "chain nx p (i # js) \<longleftrightarrow> p = Some i \<and> i < length nx \<and> chain nx (nx ! i) js"

lemma chain_upd [simp]: "i \<notin> set js \<Longrightarrow> chain (nx[i := v]) p js = chain nx p js"
  by (induction js arbitrary: p) auto

lemma chain_less: "chain nx p js \<Longrightarrow> j \<in> set js \<Longrightarrow> j < length nx"
  by (induction js arbitrary: p) auto

lemma chain_None: "chain nx None js \<longleftrightarrow> js = []"
  by (cases js) auto

lemma chain_snoc:
  assumes "chain nx p js" "js \<noteq> []" "distinct js" "i \<notin> set js" "i < length nx" "nx ! i = None"
  shows "chain (nx[last js := Some i]) p (js @ [i])"
  using assms
proof (induction js arbitrary: p)
  case (Cons j js)
  show ?case
  proof (cases "js = []")
    case True
    then show ?thesis using Cons.prems by (auto simp: nth_list_update)
  next
    case False
    then have "j \<noteq> last js" using Cons.prems by auto
    then show ?thesis using Cons False by (auto simp: nth_list_update)
  qed
qed simp

text \<open>\<open>h\<close> are the blocks that callers hold: they are in no list.\<close>

definition mq_rep :: "mqueue \<Rightarrow> nat list \<Rightarrow> nat list \<Rightarrow> nat set \<Rightarrow> bool" where
  "mq_rep mq q f h \<longleftrightarrow> chain (mq_next mq) (msg_queue_head mq) q \<and> chain (mq_next mq) (msg_queue_free mq) f \<and>
     msg_queue_tail mq = (if q = [] then None else Some (last q)) \<and> distinct (q @ f) \<and> (set q \<union> set f) \<inter> h = {} \<and>
     h \<subseteq> {..<length (mq_next mq)} \<and> unat (mq_entry mq) = length q \<and> length (mq_next mq) < 65536 \<and>
     (mq_flag mq = 0 \<or> mq_flag mq = 1) \<and> length (mq_data mq) = length (mq_next mq) \<and>
     (\<forall>i < length (mq_data mq). length (mq_data mq ! i) = unat (msg_size mq))"

definition messages :: "mqueue \<Rightarrow> nat list \<Rightarrow> u8 list list" where
  "messages mq q = map (\<lambda>i. mq_data mq ! i) q"

lemma mq_repD:
  assumes "mq_rep mq q f h"
  shows "chain (mq_next mq) (msg_queue_head mq) q" "chain (mq_next mq) (msg_queue_free mq) f" "distinct q" "distinct f"
    "set q \<inter> set f = {}" "msg_queue_tail mq = (if q = [] then None else Some (last q))" "unat (mq_entry mq) = length q"
    "length (mq_next mq) < 65536" "mq_flag mq = 0 \<or> mq_flag mq = 1" "length (mq_data mq) = length (mq_next mq)"
    "i < length (mq_next mq) \<Longrightarrow> length (mq_data mq ! i) = unat (msg_size mq)"
    "i \<in> h \<Longrightarrow> i < length (mq_next mq) \<and> i \<notin> set q \<and> i \<notin> set f" "h \<subseteq> {..<length (mq_next mq)}" "(set q \<union> set f) \<inter> h = {}"
  using assms by (auto simp: mq_rep_def)

lemma mq_head_None: "mq_rep mq q f h \<Longrightarrow> msg_queue_head mq = None \<longleftrightarrow> q = []"
  using mq_repD(1) [of mq q f h] by (cases q) auto

lemma mq_entry_zero: "mq_rep mq q f h \<Longrightarrow> mq_entry mq = 0 \<longleftrightarrow> q = []"
  using mq_repD(7) [of mq q f h] by (auto simp: unat_eq_0)

lemma messages_upd [simp]: "i \<notin> set q \<Longrightarrow> messages (mq\<lparr>mq_data := (mq_data mq)[i := block]\<rparr>) q = messages mq q"
  by (auto simp: messages_def intro!: nth_list_update_neq)

section \<open>The pieces of the operations\<close>

text \<open>The free list gives its first block to a caller.\<close>

lemma mq_take_free_ok:
  assumes "mq_rep mq q f h"
  shows "mq_take_free mq = (case f of [] \<Rightarrow> Inr None | i # _ \<Rightarrow> Inr (Some (i, mq\<lparr>msg_queue_free := mq_next mq ! i\<rparr>)))"
  using mq_repD(2) [OF assms] by (cases f) (auto simp: mq_take_free_def)

lemma mq_take_rep:
  "mq_rep mq q (i # f) h \<Longrightarrow> mq_rep (mq\<lparr>msg_queue_free := mq_next mq ! i\<rparr>) q f (insert i h)"
  by (auto simp: mq_rep_def)

text \<open>A caller writes to the block it holds.\<close>

lemma mq_null_rep:
  assumes "mq_rep mq q f h" "i \<in> h"
  shows "mq_rep (mq\<lparr>mq_next := (mq_next mq)[i := v]\<rparr>) q f h"
  using assms mq_repD(12) [OF assms] by (auto simp: mq_rep_def)

lemma block_length:
  "length (data ! j) = k \<Longrightarrow> length block = k \<Longrightarrow> j < length data \<Longrightarrow> length (data[i := block] ! j) = k"
  by (cases "i = j") auto

lemma mq_data_rep:
  "mq_rep mq q f h \<Longrightarrow> length block = unat (msg_size mq) \<Longrightarrow> mq_rep (mq\<lparr>mq_data := (mq_data mq)[i := block]\<rparr>) q f h"
  by (auto simp: mq_rep_def block_length)

abbreviation filled :: "u8 list \<Rightarrow> nat \<Rightarrow> u8 list \<Rightarrow> u8 list" where
  "filled buffer n block \<equiv> splice_at 0 (take n buffer) block"

lemma mq_fill_ok:
  assumes "n \<le> length buffer" "n \<le> unat (msg_size mq)" "i < length (mq_data mq)"
    "length (mq_data mq ! i) = unat (msg_size mq)"
  shows "mq_fill i buffer n mq = Inr (mq\<lparr>mq_data := (mq_data mq)[i := filled buffer n (mq_data mq ! i)]\<rparr>)"
  using assms by (simp add: mq_fill_def)

lemma mq_fill_rep:
  assumes rep: "mq_rep mq q f h" and i: "i \<in> h" and run: "mq_fill i buffer n mq = Inr mq'"
  shows "mq_rep mq' q f h" "messages mq' q = messages mq q" "mq_next mq' = mq_next mq" "j \<noteq> i \<Longrightarrow> mq_data mq' ! j = mq_data mq ! j"
proof -
  note d = mq_repD [OF rep]
  have len: "i < length (mq_data mq)" "length (mq_data mq ! i) = unat (msg_size mq)" "i \<notin> set q"
    using d(10,11) d(12) [OF i] by auto
  have e: "n \<le> length buffer" "n \<le> unat (msg_size mq)"
      "mq' = mq\<lparr>mq_data := (mq_data mq)[i := filled buffer n (mq_data mq ! i)]\<rparr>"
    using run len by (auto simp: mq_fill_def split: if_splits)
  show "mq_rep mq' q f h" using mq_data_rep [OF rep] e len by simp
  show "messages mq' q = messages mq q" "mq_next mq' = mq_next mq" "j \<noteq> i \<Longrightarrow> mq_data mq' ! j = mq_data mq ! j"
    using len by (simp_all add: e(3))
qed

text \<open>A caller links the block it holds.\<close>

lemma entry_Suc:
  assumes "mq_rep mq q f h" "i \<in> h"
  shows "unat (mq_entry mq + 1) = Suc (length q)"
proof -
  note d = mq_repD [OF assms(1)]
  have "set q \<subseteq> {..<length (mq_next mq)}" using chain_less [OF d(1)] by blast
  then have "length (i # q) \<le> length (mq_next mq)"
    using d(3) d(12) [OF assms(2)] by (intro distinct_bounded) auto
  then show ?thesis using d(7,8) by (simp add: unat_word_ariths)
qed

lemma mq_link_tail_rep:
  assumes rep: "mq_rep mq q f h" and i: "i \<in> h" "mq_next mq ! i = None"
  shows "\<exists>mq'. mq_link_tail i mq = Inr mq' \<and> mq_rep mq' (q @ [i]) f (h - {i}) \<and> mq_data mq' = mq_data mq \<and>
    mq_id mq' = mq_id mq \<and> msg_size mq' = msg_size mq \<and> (\<forall>j \<in> h. mq_next mq' ! j = mq_next mq ! j)"
proof -
  note d = mq_repD [OF rep]
  note out = d(12) [OF i(1)] and e = entry_Suc [OF rep i(1)]
  show ?thesis
  proof (cases "q = []")
    case True
    let ?mq = "mq\<lparr>msg_queue_tail := Some i, msg_queue_head := Some i, mq_entry := mq_entry mq + 1\<rparr>"
    have "mq_link_tail i mq = Inr ?mq"
      using True d(6) mq_head_None [OF rep] by (simp add: mq_link_tail_def)
    moreover have "mq_rep ?mq (q @ [i]) f (h - {i})"
      using True rep out i(2) e by (auto simp: mq_rep_def)
    ultimately show ?thesis by simp
  next
    case False
    let ?nx = "(mq_next mq)[last q := Some i]"
    let ?mq = "mq\<lparr>mq_next := ?nx, msg_queue_tail := Some i, mq_entry := mq_entry mq + 1\<rparr>"
    have t: "last q < length (mq_next mq)" "last q \<notin> set f" "last q \<notin> h"
      using last_in_set [OF False] chain_less [OF d(1)] d(5,14) by auto
    have "mq_link_tail i mq = Inr ?mq"
      using False d(6) t mq_head_None [OF rep] by (auto simp: mq_link_tail_def Let_def)
    moreover have "chain ?nx (msg_queue_head mq) (q @ [i])"
      using chain_snoc [OF d(1) False d(3)] out i(2) by simp
    then have "mq_rep ?mq (q @ [i]) f (h - {i})"
      using rep t out e by (auto simp: mq_rep_def)
    moreover have "\<forall>j \<in> h. ?nx ! j = mq_next mq ! j" using t(3) by (auto intro!: nth_list_update_neq)
    ultimately show ?thesis by simp
  qed
qed

lemma mq_link_head_rep:
  assumes rep: "mq_rep mq q f h" and i: "i \<in> h"
  shows "\<exists>mq'. mq_link_head i mq = Inr mq' \<and> mq_rep mq' (i # q) f (h - {i}) \<and> mq_data mq' = mq_data mq \<and>
    mq_id mq' = mq_id mq \<and> msg_size mq' = msg_size mq \<and> (\<forall>j \<in> h - {i}. mq_next mq' ! j = mq_next mq ! j)"
proof -
  note d = mq_repD [OF rep]
  note out = d(12) [OF i] and e = entry_Suc [OF rep i]
  let ?mq = "mq\<lparr>mq_next := (mq_next mq)[i := msg_queue_head mq], msg_queue_head := Some i,
      msg_queue_tail := if q = [] then Some i else msg_queue_tail mq, mq_entry := mq_entry mq + 1\<rparr>"
  have "mq_link_head i mq = Inr ?mq" using out d(6) by (simp add: mq_link_head_def)
  moreover have "mq_rep ?mq (i # q) f (h - {i})" using rep out e by (auto simp: mq_rep_def)
  ultimately show ?thesis by simp
qed

text \<open>The first block of the queue goes to a caller, and a caller gives a block back.\<close>

lemma mq_unlink_head_rep:
  assumes rep: "mq_rep mq (i # q) f h"
  shows "\<exists>mq'. mq_unlink_head mq = Inr (i, mq') \<and> mq_rep (mq'\<lparr>mq_entry := mq_entry mq - 1\<rparr>) q f (insert i h) \<and>
    mq_data mq' = mq_data mq \<and> mq_next mq' = mq_next mq \<and> mq_entry mq' = mq_entry mq \<and> mq_id mq' = mq_id mq \<and>
    msg_size mq' = msg_size mq"
proof -
  note d = mq_repD [OF rep]
  let ?mq = "mq\<lparr>msg_queue_head := mq_next mq ! i, msg_queue_tail := if q = [] then None else Some (last q)\<rparr>"
  have "last q \<noteq> i" if "q \<noteq> []" using d(3) that by auto
  then have "mq_unlink_head mq = Inr (i, ?mq)" using d(1,6) by (auto simp: mq_unlink_head_def Let_def)
  moreover have "1 \<le> mq_entry mq" using d(7) by (simp add: word_le_nat_alt)
  then have "unat (mq_entry mq - 1) = length q" using d(7) by (simp add: unat_sub)
  then have "mq_rep (?mq\<lparr>mq_entry := mq_entry mq - 1\<rparr>) q f (insert i h)" using rep by (auto simp: mq_rep_def)
  ultimately show ?thesis by simp
qed

lemma mq_give_back_rep:
  assumes rep: "mq_rep mq q f h" and i: "i \<in> h"
  shows "\<exists>mq'. mq_give_back i mq = Inr mq' \<and> mq_rep mq' q (i # f) (h - {i}) \<and> mq_data mq' = mq_data mq \<and>
    (\<forall>j \<in> h - {i}. mq_next mq' ! j = mq_next mq ! j)"
  using rep mq_repD(12) [OF rep i] by (auto simp: mq_give_back_def mq_rep_def)

lemma messages_same: "mq_data mq' = mq_data mq \<Longrightarrow> messages mq' q = messages mq q"
  by (simp add: messages_def)

section \<open>The calls\<close>

definition woken_receiver :: "mqueue \<Rightarrow> kernel \<Rightarrow> kernel \<Rightarrow> bool" where
  "woken_receiver mq s s' \<longleftrightarrow>
     (case mq_receivers mq s of [] \<Rightarrow> s' = s | t # ts \<Rightarrow> runnable s' t \<and> mq_receivers mq s' = ts)"

lemma mq_wake_ok:
  assumes inv: "kernel_inv m s" and c: "cur s \<noteq> None"
  shows "\<exists>s'. mq_wake mq s = Inr (RT_EOK, mq, s') \<and> kernel_inv m s' \<and> woken_receiver mq s s'"
proof (cases "mq_receivers mq s")
  case Nil
  then show ?thesis using inv by (simp add: mq_wake_def woken_receiver_def)
next
  case (Cons t ts)
  obtain s' where "rt_schedule (rt_ipc_list_resume (Suspend_List (mq_id mq)) s) = Inr s'" "kernel_inv m s'"
      "wakes (Suspend_List (mq_id mq)) t s s'"
    using resume_schedule_ok [OF inv wait_list_simps(1) Cons c] by blast
  then show ?thesis using Cons by (simp add: mq_wake_def woken_receiver_def wakes_def)
qed

text \<open>A sender that takes the block \<open>i\<close> fills and links it.\<close>

lemma held_block:
  assumes rep: "mq_rep mq q (i # f) {}" and n: "n \<le> length buffer" "n \<le> unat (msg_size mq)"
  defines "mq1 \<equiv> mq\<lparr>msg_queue_free := mq_next mq ! i\<rparr>"
  shows "mq_take_free mq = Inr (Some (i, mq1))" "mq_rep mq1 q f {i}" "i < length (mq_next mq)"
    "mq_fill i buffer n (mq1\<lparr>mq_next := nx\<rparr>) = Inr (mq1\<lparr>mq_next := nx, mq_data := (mq_data mq)[i := filled buffer n (mq_data mq ! i)]\<rparr>)"
    "length (filled buffer n (mq_data mq ! i)) = unat (msg_size mq)" "i \<notin> set q" "i < length (mq_data mq)"
proof -
  note d = mq_repD [OF rep]
  show rep1: "mq_rep mq1 q f {i}" using mq_take_rep [OF rep] by (simp add: mq1_def)
  show "mq_take_free mq = Inr (Some (i, mq1))" using mq_take_free_ok [OF rep] by (simp add: mq1_def)
  show i: "i < length (mq_next mq)" "i \<notin> set q" "i < length (mq_data mq)" using d(2,5,10) by auto
  have len: "length (mq_data mq ! i) = unat (msg_size mq)" using d(11) i by simp
  show "length (filled buffer n (mq_data mq ! i)) = unat (msg_size mq)" using len n by simp
  show "mq_fill i buffer n (mq1\<lparr>mq_next := nx\<rparr>) = Inr (mq1\<lparr>mq_next := nx, mq_data := (mq_data mq)[i := filled buffer n (mq_data mq ! i)]\<rparr>)"
    using mq_fill_ok [of n buffer "mq1\<lparr>mq_next := nx\<rparr>" i] n i len by (simp add: mq1_def)
qed

lemma mq_send_ok:
  assumes inv: "kernel_inv m s" and c: "cur s \<noteq> None" and rep: "mq_rep mq q (i # f) {}"
    and n: "n \<noteq> 0" "unat n \<le> length buffer" "unat n \<le> unat (msg_size mq)"
  shows "\<exists>mq' s'. rt_mq_send mq buffer n s = Inr (RT_EOK, mq', s') \<and> kernel_inv m s' \<and> woken_receiver mq s s' \<and>
    mq_rep mq' (q @ [i]) f {} \<and> messages mq' (q @ [i]) = messages mq q @ [filled buffer (unat n) (mq_data mq ! i)]"
proof -
  note b = held_block [OF rep n(2,3)]
  let ?mq = "mq\<lparr>msg_queue_free := mq_next mq ! i, mq_next := (mq_next mq)[i := None],
     mq_data := (mq_data mq)[i := filled buffer (unat n) (mq_data mq ! i)]\<rparr>"
  have "mq_rep ?mq q f {i}"
    using mq_data_rep [OF mq_null_rep [OF b(2)], of i "filled buffer (unat n) (mq_data mq ! i)" None i] b(5) by simp
  then obtain mq' where mq': "mq_link_tail i ?mq = Inr mq'" "mq_rep mq' (q @ [i]) f {}" "mq_data mq' = mq_data ?mq" "mq_id mq' = mq_id mq"
    using mq_link_tail_rep [of ?mq q f "{i}" i] b(3) by auto
  have msgs: "messages mq' (q @ [i]) = messages mq q @ [filled buffer (unat n) (mq_data mq ! i)]"
    using messages_same [OF mq'(3), of q] b(6,7) mq'(3) by (simp add: messages_def) (auto intro!: nth_list_update_neq)
  obtain s' where s': "mq_wake mq' s = Inr (RT_EOK, mq', s')" "kernel_inv m s'" "woken_receiver mq' s s'"
    using mq_wake_ok [OF inv c] by blast
  have "rt_mq_send mq buffer n s = Inr (RT_EOK, mq', s')"
    using n b(1,3,4) mq'(1) s'(1) by (simp add: rt_mq_send_def)
  moreover have "woken_receiver mq s s'" using s'(3) by (simp add: woken_receiver_def mq'(4) cong: list.case_cong)
  ultimately show ?thesis using s'(2) mq'(2) msgs by blast
qed

lemma mq_urgent_ok:
  assumes inv: "kernel_inv m s" and c: "cur s \<noteq> None" and rep: "mq_rep mq q (i # f) {}"
    and n: "n \<noteq> 0" "unat n \<le> length buffer" "unat n \<le> unat (msg_size mq)"
  shows "\<exists>mq' s'. rt_mq_urgent mq buffer n s = Inr (RT_EOK, mq', s') \<and> kernel_inv m s' \<and> woken_receiver mq s s' \<and>
    mq_rep mq' (i # q) f {} \<and> messages mq' (i # q) = filled buffer (unat n) (mq_data mq ! i) # messages mq q"
proof -
  note b = held_block [OF rep n(2,3)]
  let ?mq = "mq\<lparr>msg_queue_free := mq_next mq ! i, mq_data := (mq_data mq)[i := filled buffer (unat n) (mq_data mq ! i)]\<rparr>"
  have "mq_rep ?mq q f {i}"
    using mq_data_rep [OF b(2), of "filled buffer (unat n) (mq_data mq ! i)" i] b(5) by simp
  then obtain mq' where mq': "mq_link_head i ?mq = Inr mq'" "mq_rep mq' (i # q) f {}" "mq_data mq' = mq_data ?mq" "mq_id mq' = mq_id mq"
    using mq_link_head_rep [of ?mq q f "{i}" i] by auto
  have msgs: "messages mq' (i # q) = filled buffer (unat n) (mq_data mq ! i) # messages mq q"
    using messages_same [OF mq'(3), of q] b(6,7) mq'(3) by (simp add: messages_def) (auto intro!: nth_list_update_neq)
  obtain s' where s': "mq_wake mq' s = Inr (RT_EOK, mq', s')" "kernel_inv m s'" "woken_receiver mq' s s'"
    using mq_wake_ok [OF inv c] by blast
  have "mq_fill i buffer (unat n) (mq\<lparr>msg_queue_free := mq_next mq ! i\<rparr>) = Inr ?mq"
    using b(4) [of "mq_next mq"] by simp
  then have "rt_mq_urgent mq buffer n s = Inr (RT_EOK, mq', s')"
    using n b(1) mq'(1) s'(1) by (simp add: rt_mq_urgent_def)
  moreover have "woken_receiver mq s s'" using s'(3) by (simp add: woken_receiver_def mq'(4) cong: list.case_cong)
  ultimately show ?thesis using s'(2) mq'(2) msgs by blast
qed

lemma mq_recv_try_ok:
  assumes inv: "kernel_inv 1 s" and rep: "mq_rep mq q f {}" and c: "cur s = Some c" "stat_of s c = RT_THREAD_RUNNING"
    and nest: "rt_interrupt_nest s = 0" and time: "time < 0x7fffffff"
  shows "\<exists>r got mq' s'. mq_recv_try mq n time s = Inr (r, got, mq', s') \<and> kernel_inv 1 s' \<and>
    (case q of
       [] \<Rightarrow> mq' = mq \<and> got = None \<and> (if time = 0 then r = Returned (- RT_ETIMEOUT)
         else r = Blocked \<and> stat_of s' c = RT_THREAD_SUSPEND \<and> mq_receivers mq s' = queued (mq_flag mq) (prio s) c (mq_receivers mq s))
     | i # q' \<Rightarrow> r = Returned RT_EOK \<and> s' = s \<and> mq_rep mq' q' (i # f) {} \<and>
         messages mq q = mq_data mq ! i # messages mq' q' \<and> got = Some (take (unat n) (mq_data mq ! i)))"
proof (cases q)
  case Nil
  then have e0: "mq_entry mq = 0" using mq_entry_zero [OF rep] by simp
  let ?s = "thr_upd c (\<lambda>r. r\<lparr>error := RT_EOK\<rparr>) s"
  have i: "kernel_inv 1 ?s" using inv error_upd_inv by simp
  have ctx: "in_thread_context s"
    using c(1) nest by (simp add: in_thread_context_def not_in_interrupt_def rt_thread_self_def rt_interrupt_get_nest_def)
  show ?thesis
  proof (cases "time = 0")
    case t0: True
    have "kernel_inv 1 (thr_upd c (\<lambda>r. r\<lparr>error := - RT_ETIMEOUT\<rparr>) ?s)" using i error_upd_inv by simp
    then show ?thesis using Nil e0 t0 ctx c(1) by (simp add: mq_recv_try_def rt_thread_self_def Let_def)
  next
    case False
    obtain s' where s': "ipc_wait (Suspend_List (mq_id mq)) (mq_flag mq) time c ?s = Inr s'" "kernel_inv 1 s'"
        "waits (Suspend_List (mq_id mq)) (mq_flag mq) c ?s s'"
      using ipc_wait_ok [OF i _ _ wait_list_simps(1) mq_repD(9) [OF rep] time] c by auto
    have p: "prio ?s = prio s" by (rule ext) simp
    have "mq_recv_try mq n time s = Inr (Blocked, None, mq, s')"
      using e0 False ctx s'(1) c(1) by (simp add: mq_recv_try_def rt_thread_self_def Let_def)
    then show ?thesis using Nil False s' p by (simp add: waits_def)
  qed
next
  case (Cons i q')
  have rep': "mq_rep mq (i # q') f {}" using rep Cons by simp
  note d = mq_repD [OF rep']
  have ne: "mq_entry mq \<noteq> 0" using mq_entry_zero [OF rep'] by simp
  have i: "i < length (mq_data mq)" "length (mq_data mq ! i) = unat (msg_size mq)"
    using d(1,10,11) by auto
  obtain mq1 where m1: "mq_unlink_head mq = Inr (i, mq1)" "mq_rep (mq1\<lparr>mq_entry := mq_entry mq - 1\<rparr>) q' f {i}"
      "mq_data mq1 = mq_data mq" "mq_entry mq1 = mq_entry mq" "msg_size mq1 = msg_size mq"
    using mq_unlink_head_rep [OF rep'] by auto
  obtain mq' where m: "mq_give_back i (mq1\<lparr>mq_entry := mq_entry mq - 1\<rparr>) = Inr mq'" "mq_rep mq' q' (i # f) {}"
      "mq_data mq' = mq_data mq"
    using mq_give_back_rep [OF m1(2), of i] m1(3) by auto
  have t: "take (min (unat n) (unat (msg_size mq))) (mq_data mq ! i) = take (unat n) (mq_data mq ! i)"
    using i(2) by (metis min.cobounded2 order_refl take_all_iff take_take)
  have k: "(if unat n > unat (msg_size mq) then unat (msg_size mq) else unat n) = min (unat n) (unat (msg_size mq))"
    by simp
  have "mq_recv_try mq n time s = Inr (Returned RT_EOK, Some (take (unat n) (mq_data mq ! i)), mq', s)"
    using ne i m(1) m1 by (simp add: mq_recv_try_def Let_def k t)
  then show ?thesis using Cons inv m messages_same [OF m(3)] by (simp add: messages_def)
qed

text \<open>The reset gives all blocks back. It leaves the count of the messages as it is until the end.\<close>

lemma mq_drain_ok:
  "mq_rep (mq\<lparr>mq_entry := of_nat (length q)\<rparr>) q f h \<Longrightarrow> length q \<le> n \<Longrightarrow>
   \<exists>mq'. mq_drain n mq = Inr mq' \<and> mq_rep (mq'\<lparr>mq_entry := 0\<rparr>) [] (rev q @ f) h"
proof (induction q arbitrary: mq f n)
  case Nil
  then have "msg_queue_head mq = None" using mq_head_None [OF Nil(1)] by simp
  then have "mq_drain n mq = Inr mq" by (cases n) simp_all
  then show ?case using Nil by simp
next
  case (Cons i q)
  let ?e = "of_nat (length (i # q)) :: u16"
  obtain k where k: "n = Suc k" "length q \<le> k" using Cons.prems(2) by (cases n) auto
  obtain mq1 where m1: "mq_unlink_head (mq\<lparr>mq_entry := ?e\<rparr>) = Inr (i, mq1)" "mq_rep (mq1\<lparr>mq_entry := ?e - 1\<rparr>) q f (insert i h)"
    using mq_unlink_head_rep [OF Cons.prems(1)] by auto
  have ih: "i \<notin> h" using mq_repD(14) [OF Cons.prems(1)] by auto
  obtain mq2 where m2: "mq_give_back i (mq1\<lparr>mq_entry := ?e - 1\<rparr>) = Inr mq2" "mq_rep mq2 q (i # f) h"
    using mq_give_back_rep [OF m1(2), of i] ih by auto
  let ?mq1 = "mq1\<lparr>mq_entry := mq_entry mq\<rparr>" and ?mq2 = "mq2\<lparr>mq_entry := mq_entry mq\<rparr>"
  have u: "mq_unlink_head mq = Inr (i, ?mq1)"
    using m1(1) by (cases mq) (auto simp: mq_unlink_head_def rd_def Let_def split: option.splits if_splits)
  have g: "mq_give_back i ?mq1 = Inr ?mq2"
    using m2(1) by (cases mq1) (auto simp: mq_give_back_def wr_def split: if_splits)
  have "of_nat (length q) = mq_entry mq2"
    using mq_repD(7) [OF m2(2)] by (metis of_nat_unat ucast_id)
  then have "?mq2\<lparr>mq_entry := of_nat (length q)\<rparr> = mq2" by simp
  then obtain mq' where mq': "mq_drain k ?mq2 = Inr mq'" "mq_rep (mq'\<lparr>mq_entry := 0\<rparr>) [] (rev q @ i # f) h"
    using Cons.IH [of ?mq2 "i # f" k] m2(2) k(2) by auto
  have "msg_queue_head mq \<noteq> None" using mq_head_None [OF Cons.prems(1)] by auto
  then have "mq_drain n mq = Inr mq'" using k(1) u g mq'(1) by auto
  then show ?case using mq'(2) by simp
qed

text \<open>The initialisation puts all blocks into the free list.\<close>

lemma mq_link_free_ok:
  assumes "temp \<le> n" "n \<le> length nx" "chain nx free f" "set f \<subseteq> {..<temp}"
  shows "\<exists>nx' free'. mq_link_free temp n nx free = Inr (nx', free') \<and> length nx' = length nx \<and>
    chain nx' free' (rev [temp..<n] @ f)"
  using assms
proof (induction "n - temp" arbitrary: temp nx free f)
  case 0
  then show ?case by (simp add: mq_link_free.simps)
next
  case (Suc k)
  then have t: "temp < n" by simp
  have "temp \<notin> set f" using Suc.prems(4) by auto
  have "chain (nx[temp := free]) (Some temp) (temp # f)"
    using Suc.prems t \<open>temp \<notin> set f\<close> by simp
  then obtain nx' free' where r: "mq_link_free (Suc temp) n (nx[temp := free]) (Some temp) = Inr (nx', free')"
      "length nx' = length nx" "chain nx' free' (rev [Suc temp..<n] @ temp # f)"
    using Suc.hyps(1) [of "Suc temp" "nx[temp := free]" "Some temp" "temp # f"] Suc.hyps(2) Suc.prems t by fastforce
  have "mq_link_free temp n nx free = Inr (nx', free')"
    using t Suc.prems(2) r(1) mq_link_free.simps [of temp] by simp
  then show ?case using r(2,3) t by (simp add: upt_conv_Cons)
qed

lemma rt_mq_init_ok:
  assumes pool: "length data = length nx" "length nx < 65536"
    and blocks: "\<forall>i < length data. length (data ! i) = unat sz" and sz: "sz = (of_nat (RT_ALIGN (unat msgsize) 4) :: u16)"
    and cnt: "unat pool_size div (unat sz + 4) = length nx" and flag: "flag = 0 \<or> flag = 1"
  shows "\<exists>mq. rt_mq_init n data nx msgsize pool_size flag s = Inr (RT_EOK, mq, rt_ipc_object_init n s) \<and>
    mq_rep mq [] (rev [0..<length nx]) {} \<and> msg_size mq = sz \<and> mq_id mq = n"
proof -
  have u: "unat (of_nat (length nx) :: u16) = length nx" using pool(2) by (simp add: unat_of_nat)
  obtain nx' free where l: "mq_link_free 0 (length nx) nx None = Inr (nx', free)" "length nx' = length nx"
      "chain nx' free (rev [0..<length nx])"
    using mq_link_free_ok [of 0 "length nx" nx None "[]"] by auto
  show ?thesis
    using pool blocks flag l by (auto simp: rt_mq_init_def Let_def sz [symmetric] cnt u mq_rep_def)
qed

section \<open>Calls that interrupt each other\<close>

text \<open>
  The calls let interrupts in between their pieces, so the pieces of several calls run in any
  order. \<open>W\<close> are the blocks that senders hold, with the message once it is copied and whether it
  goes to the end of the queue; \<open>R\<close> are the blocks that receivers hold, with the message they were
  given. The last argument is the queue as the callers see it.
\<close>

inductive mq_run :: "mqueue \<Rightarrow> (nat \<rightharpoonup> (bool \<times> u8 list) option) \<Rightarrow> (nat \<rightharpoonup> u8 list) \<Rightarrow> u8 list list \<Rightarrow> bool" where
  start: "mq_rep mq [] f {} \<Longrightarrow> mq_run mq Map.empty Map.empty []"
| take: "mq_run mq W R ms \<Longrightarrow> mq_take_free mq = Inr (Some (i, mq')) \<Longrightarrow> mq_run mq' (W(i \<mapsto> None)) R ms"
| copy: "mq_run mq W R ms \<Longrightarrow> W i = Some None \<Longrightarrow> wr (mq_next mq) i None = Inr nx \<Longrightarrow>
     mq_fill i buffer n (mq\<lparr>mq_next := nx\<rparr>) = Inr mq' \<Longrightarrow> mq_run mq' (W(i \<mapsto> Some (True, mq_data mq' ! i))) R ms"
| copy_urgent: "mq_run mq W R ms \<Longrightarrow> W i = Some None \<Longrightarrow> mq_fill i buffer n mq = Inr mq' \<Longrightarrow>
     mq_run mq' (W(i \<mapsto> Some (False, mq_data mq' ! i))) R ms"
| link: "mq_run mq W R ms \<Longrightarrow> W i = Some (Some (True, b)) \<Longrightarrow> mq_link_tail i mq = Inr mq' \<Longrightarrow>
     mq_run mq' (W(i := None)) R (ms @ [b])"
| link_urgent: "mq_run mq W R ms \<Longrightarrow> W i = Some (Some (False, b)) \<Longrightarrow> mq_link_head i mq = Inr mq' \<Longrightarrow>
     mq_run mq' (W(i := None)) R (b # ms)"
| unlink: "mq_run mq W R ms \<Longrightarrow> mq_entry mq \<noteq> 0 \<Longrightarrow> mq_unlink_head mq = Inr (i, mq') \<Longrightarrow>
     mq_run (mq'\<lparr>mq_entry := mq_entry mq' - 1\<rparr>) W (R(i \<mapsto> hd ms)) (tl ms)"
| give: "mq_run mq W R ms \<Longrightarrow> R i = Some b \<Longrightarrow> mq_give_back i mq = Inr mq' \<Longrightarrow> mq_run mq' W (R(i := None)) ms"

text \<open>The blocks that are held are neither in the queue nor free, and hold what their holders expect.\<close>

definition mq_run_ok :: "mqueue \<Rightarrow> (nat \<rightharpoonup> (bool \<times> u8 list) option) \<Rightarrow> (nat \<rightharpoonup> u8 list) \<Rightarrow> u8 list list \<Rightarrow> bool" where
  "mq_run_ok mq W R ms \<longleftrightarrow> dom W \<inter> dom R = {} \<and>
     (\<exists>q f. mq_rep mq q f (dom W \<union> dom R) \<and> ms = messages mq q) \<and>
     (\<forall>i b. R i = Some b \<longrightarrow> mq_data mq ! i = b) \<and>
     (\<forall>i t b. W i = Some (Some (t, b)) \<longrightarrow> mq_data mq ! i = b \<and> (t \<longrightarrow> mq_next mq ! i = None))"

lemma mq_run_okI:
  assumes "mq_rep mq q f h" "dom W \<union> dom R = h" "dom W \<inter> dom R = {}" "ms = messages mq q"
    "\<And>i b. R i = Some b \<Longrightarrow> mq_data mq ! i = b"
    "\<And>i t b. W i = Some (Some (t, b)) \<Longrightarrow> mq_data mq ! i = b \<and> (t \<longrightarrow> mq_next mq ! i = None)"
  shows "mq_run_ok mq W R ms"
  using assms unfolding mq_run_ok_def by blast

lemma mq_run_okE:
  assumes "mq_run_ok mq W R ms"
  obtains q f where "mq_rep mq q f (dom W \<union> dom R)" "ms = messages mq q" "dom W \<inter> dom R = {}"
    "\<And>i b. R i = Some b \<Longrightarrow> mq_data mq ! i = b"
    "\<And>i t b. W i = Some (Some (t, b)) \<Longrightarrow> mq_data mq ! i = b \<and> (t \<longrightarrow> mq_next mq ! i = None)"
  using assms unfolding mq_run_ok_def by blast

lemma run_take:
  assumes ok: "mq_run_ok mq W R ms" and r: "mq_take_free mq = Inr (Some (i, mq'))"
  shows "mq_run_ok mq' (W(i \<mapsto> None)) R ms"
  using ok
proof (rule mq_run_okE)
  fix q f
  assume a: "mq_rep mq q f (dom W \<union> dom R)" "ms = messages mq q" "dom W \<inter> dom R = {}"
    "\<And>i b. R i = Some b \<Longrightarrow> mq_data mq ! i = b"
    "\<And>i t b. W i = Some (Some (t, b)) \<Longrightarrow> mq_data mq ! i = b \<and> (t \<longrightarrow> mq_next mq ! i = None)"
  obtain f' where f: "f = i # f'" "mq' = mq\<lparr>msg_queue_free := mq_next mq ! i\<rparr>"
    using r mq_take_free_ok [OF a(1)] by (cases f) auto
  then have "mq_rep mq' q f' (insert i (dom W \<union> dom R))" using mq_take_rep a(1) by simp
  moreover have "i \<notin> dom R" using mq_repD(14) [OF a(1)] f by auto
  ultimately show ?thesis using a(2-5) f(2)
    by (intro mq_run_okI [of mq' q f']) (auto simp: messages_def split: if_splits)
qed

lemma run_copy:
  assumes ok: "mq_run_ok mq W R ms" and i: "W i = Some None" and nx: "nx = mq_next mq \<or> nx = (mq_next mq)[i := None]"
    and r: "mq_fill i buffer n (mq\<lparr>mq_next := nx\<rparr>) = Inr mq'" and t: "t \<Longrightarrow> nx = (mq_next mq)[i := None]"
  shows "mq_run_ok mq' (W(i \<mapsto> Some (t, mq_data mq' ! i))) R ms"
  using ok
proof (rule mq_run_okE)
  fix q f
  assume a: "mq_rep mq q f (dom W \<union> dom R)" "ms = messages mq q" "dom W \<inter> dom R = {}"
    "\<And>i b. R i = Some b \<Longrightarrow> mq_data mq ! i = b"
    "\<And>i t b. W i = Some (Some (t, b)) \<Longrightarrow> mq_data mq ! i = b \<and> (t \<longrightarrow> mq_next mq ! i = None)"
  let ?h = "dom W \<union> dom R"
  have ih: "i \<in> ?h" "i \<notin> dom R" using i a(3) by auto
  have rep1: "mq_rep (mq\<lparr>mq_next := nx\<rparr>) q f ?h"
    using nx mq_null_rep [OF a(1) ih(1), of None] a(1) by auto
  note fl = mq_fill_rep [OF rep1 ih(1) r]
  have "i < length (mq_next mq)" using mq_repD(12) [OF a(1) ih(1)] by simp
  then have n: "j \<noteq> i \<Longrightarrow> nx ! j = mq_next mq ! j" "t \<Longrightarrow> nx ! i = None" for j using nx t by auto
  have m: "messages mq' q = messages mq q" using fl(2) by (simp add: messages_def)
  show ?thesis
  proof (rule mq_run_okI [OF fl(1)])
    show "dom (W(i \<mapsto> Some (t, mq_data mq' ! i))) \<union> dom R = ?h" "dom (W(i \<mapsto> Some (t, mq_data mq' ! i))) \<inter> dom R = {}"
      using i ih a(3) by auto
    show "ms = messages mq' q" using a(2) m by simp
    show "mq_data mq' ! j = b" if "R j = Some b" for j b
      using a(4) [OF that] fl(4) [of j] ih(2) that by (cases "j = i") auto
    show "mq_data mq' ! j = b \<and> (u \<longrightarrow> mq_next mq' ! j = None)"
      if "(W(i \<mapsto> Some (t, mq_data mq' ! i))) j = Some (Some (u, b))" for j u b
      using that a(5) [of j u b] fl(3) fl(4) [of j] n by (cases "j = i") auto
  qed
qed

lemma run_link:
  assumes ok: "mq_run_ok mq W R ms" and i: "W i = Some (Some (t, b))"
    and r: "(if t then mq_link_tail i mq else mq_link_head i mq) = Inr mq'"
  shows "mq_run_ok mq' (W(i := None)) R (if t then ms @ [b] else b # ms)"
  using ok
proof (rule mq_run_okE)
  fix q f
  assume a: "mq_rep mq q f (dom W \<union> dom R)" "ms = messages mq q" "dom W \<inter> dom R = {}"
    "\<And>i b. R i = Some b \<Longrightarrow> mq_data mq ! i = b"
    "\<And>i t b. W i = Some (Some (t, b)) \<Longrightarrow> mq_data mq ! i = b \<and> (t \<longrightarrow> mq_next mq ! i = None)"
  let ?h = "dom W \<union> dom R" and ?q = "if t then q @ [i] else i # q"
  have ih: "i \<in> ?h" "i \<notin> dom R" using i a(3) by auto
  have "\<exists>mq'. (if t then mq_link_tail i mq else mq_link_head i mq) = Inr mq' \<and> mq_rep mq' ?q f (?h - {i}) \<and>
      mq_data mq' = mq_data mq \<and> (\<forall>j \<in> ?h - {i}. mq_next mq' ! j = mq_next mq ! j)"
    using mq_link_tail_rep [OF a(1) ih(1)] mq_link_head_rep [OF a(1) ih(1)] a(5) [OF i] by auto
  then have l: "mq_rep mq' ?q f (?h - {i})" "mq_data mq' = mq_data mq" "\<forall>j \<in> ?h - {i}. mq_next mq' ! j = mq_next mq ! j"
    using r by auto
  show ?thesis
  proof (rule mq_run_okI [OF l(1)])
    show "dom (W(i := None)) \<union> dom R = ?h - {i}" "dom (W(i := None)) \<inter> dom R = {}" using ih a(3) by auto
    show "(if t then ms @ [b] else b # ms) = messages mq' ?q"
      using a(2) a(5) [OF i] by (simp add: messages_def l(2))
    show "mq_data mq' ! j = c" if "R j = Some c" for j c using a(4) [OF that] by (simp add: l(2))
    show "mq_data mq' ! j = c \<and> (u \<longrightarrow> mq_next mq' ! j = None)" if "(W(i := None)) j = Some (Some (u, c))" for j u c
    proof -
      have j: "j \<noteq> i" "W j = Some (Some (u, c))" using that by (auto split: if_splits)
      then have "mq_next mq' ! j = mq_next mq ! j" using l(3) by (simp add: domI)
      then show ?thesis using a(5) [OF j(2)] l(2) by simp
    qed
  qed
qed

lemma run_unlink:
  assumes ok: "mq_run_ok mq W R ms" and ne: "mq_entry mq \<noteq> 0" and r: "mq_unlink_head mq = Inr (i, mq')"
  shows "mq_run_ok (mq'\<lparr>mq_entry := mq_entry mq' - 1\<rparr>) W (R(i \<mapsto> hd ms)) (tl ms)"
  using ok
proof (rule mq_run_okE)
  fix q f
  assume a: "mq_rep mq q f (dom W \<union> dom R)" "ms = messages mq q" "dom W \<inter> dom R = {}"
    "\<And>i b. R i = Some b \<Longrightarrow> mq_data mq ! i = b"
    "\<And>i t b. W i = Some (Some (t, b)) \<Longrightarrow> mq_data mq ! i = b \<and> (t \<longrightarrow> mq_next mq ! i = None)"
  obtain k q' where q: "q = k # q'" using ne mq_entry_zero [OF a(1)] by (cases q) auto
  have u: "k = i" "mq_rep (mq'\<lparr>mq_entry := mq_entry mq' - 1\<rparr>) q' f (insert i (dom W \<union> dom R))"
    "mq_data mq' = mq_data mq" "mq_next mq' = mq_next mq"
    using mq_unlink_head_rep [of mq k q' f] a(1) r q by auto
  have out: "i \<notin> dom W" "i \<notin> dom R" using mq_repD(14) [OF a(1)] q u(1) by auto
  have ms: "ms = mq_data mq ! i # messages mq q'" using a(2) q u(1) by (simp add: messages_def)
  show ?thesis
    using a(3-5) out u(3,4) ms
    by (intro mq_run_okI [OF u(2)]) (auto simp: messages_def split: if_splits)
qed

lemma run_give:
  assumes ok: "mq_run_ok mq W R ms" and i: "R i = Some b" and r: "mq_give_back i mq = Inr mq'"
  shows "mq_run_ok mq' W (R(i := None)) ms"
  using ok
proof (rule mq_run_okE)
  fix q f
  assume a: "mq_rep mq q f (dom W \<union> dom R)" "ms = messages mq q" "dom W \<inter> dom R = {}"
    "\<And>i b. R i = Some b \<Longrightarrow> mq_data mq ! i = b"
    "\<And>i t b. W i = Some (Some (t, b)) \<Longrightarrow> mq_data mq ! i = b \<and> (t \<longrightarrow> mq_next mq ! i = None)"
  let ?h = "dom W \<union> dom R"
  have ih: "i \<in> ?h" "i \<notin> dom W" using i a(3) by auto
  have g: "mq_rep mq' q (i # f) (?h - {i})" "mq_data mq' = mq_data mq" "\<forall>j \<in> ?h - {i}. mq_next mq' ! j = mq_next mq ! j"
    using mq_give_back_rep [OF a(1) ih(1)] r by auto
  have W: "mq_next mq' ! j = None" if "W j = Some (Some (True, c))" for j c
  proof -
    have "j \<noteq> i" using ih(2) that by auto
    then have "mq_next mq' ! j = mq_next mq ! j" using g(3) that by (simp add: domI)
    then show ?thesis using a(5) [OF that] by simp
  qed
  show ?thesis
    using a(2-5) ih W by (intro mq_run_okI [OF g(1)]) (auto simp: g(2) messages_def split: if_splits)
qed

lemma mq_run_ok: "mq_run mq W R ms \<Longrightarrow> mq_run_ok mq W R ms"
proof (induction rule: mq_run.induct)
  case (start mq f)
  then show ?case by (intro mq_run_okI [of mq "[]" f "{}"]) (simp_all add: messages_def)
next
  case (copy mq W R ms i nx buffer n mq')
  then have "nx = (mq_next mq)[i := None]" by (simp add: wr_def split: if_splits)
  then show ?case using run_copy [OF copy.IH copy.hyps(2) _ copy.hyps(4), of True] by blast
next
  case (copy_urgent mq W R ms i buffer n mq')
  have "mq_fill i buffer n (mq\<lparr>mq_next := mq_next mq\<rparr>) = Inr mq'" using copy_urgent.hyps(3) by simp
  then show ?case using run_copy [OF copy_urgent.IH copy_urgent.hyps(2), of "mq_next mq" buffer n mq' False] by blast
next
  case (link mq W R ms i b mq')
  then show ?case using run_link [OF link.IH, of i True b mq'] by (simp only: if_True)
next
  case (link_urgent mq W R ms i b mq')
  then show ?case using run_link [OF link_urgent.IH, of i False b mq'] by (simp only: if_False)
qed (blast intro: run_take run_unlink run_give)+

section \<open>Properties\<close>

text \<open>C12: A message that is sent is put to the end of the queue, an urgent one to its front, in the first
  free block, and the first receiver wakes; a message that is too long, and any message when no
  block is free, is refused and changes nothing.
\<close>

theorem mq_send_refines:
  assumes inv: "kernel_inv m s" and c: "cur s \<noteq> None" and rep: "mq_rep mq q f {}"
    and n: "n \<noteq> 0" "unat n \<le> length buffer"
  shows "if unat n > unat (msg_size mq)
    then rt_mq_send mq buffer n s = Inr (- RT_ERROR, mq, s) \<and> rt_mq_urgent mq buffer n s = Inr (- RT_ERROR, mq, s)
    else case f of
      [] \<Rightarrow> rt_mq_send mq buffer n s = Inr (- RT_EFULL, mq, s) \<and> rt_mq_urgent mq buffer n s = Inr (- RT_EFULL, mq, s)
    | i # f' \<Rightarrow>
        (\<exists>mq' s'. rt_mq_send mq buffer n s = Inr (RT_EOK, mq', s') \<and> kernel_inv m s' \<and> woken_receiver mq s s' \<and>
           mq_rep mq' (q @ [i]) f' {} \<and> messages mq' (q @ [i]) = messages mq q @ [filled buffer (unat n) (mq_data mq ! i)]) \<and>
        (\<exists>mq' s'. rt_mq_urgent mq buffer n s = Inr (RT_EOK, mq', s') \<and> kernel_inv m s' \<and> woken_receiver mq s s' \<and>
           mq_rep mq' (i # q) f' {} \<and> messages mq' (i # q) = filled buffer (unat n) (mq_data mq ! i) # messages mq q)"
proof (cases "unat n > unat (msg_size mq)")
  case True
  then show ?thesis using n by (simp add: rt_mq_send_def rt_mq_urgent_def)
next
  case False
  show ?thesis
  proof (cases f)
    case Nil
    then show ?thesis using False n mq_take_free_ok [OF rep] by (simp add: rt_mq_send_def rt_mq_urgent_def)
  next
    case (Cons i f')
    then have r: "mq_rep mq q (i # f') {}" using rep by simp
    have le: "unat n \<le> unat (msg_size mq)" using False by simp
    show ?thesis
      using False Cons mq_send_ok [OF inv c r n le] mq_urgent_ok [OF inv c r n le] by (simp only: if_False list.case)
  qed
qed

text \<open>Two blocks of four bytes, linked by the initialisation.\<close>

definition example_queue :: mqueue where
  "example_queue = \<lparr>mq_id = 1, mq_data = [[0, 0, 0, 0], [0, 0, 0, 0]], mq_next = [None, Some 0], msg_size = 4, max_msgs = 2,
     mq_entry = 0, msg_queue_head = None, msg_queue_tail = None, msg_queue_free = Some 1, mq_flag = 0\<rparr>"

lemma example_queue_ok:
  "rt_mq_init 1 [[0, 0, 0, 0], [0, 0, 0, 0]] [None, None] 3 16 0 s = Inr (RT_EOK, example_queue, rt_ipc_object_init 1 s)"
  "mq_rep example_queue [] [1, 0] {}" "msg_size example_queue = 4" "mq_id example_queue = 1"
  "mq_data example_queue ! 1 = [0, 0, 0, 0]"
proof -
  have l: "mq_link_free 0 2 [None, None] None = Inr ([None, Some 0], Some 1)"
    by (simp add: mq_link_free.simps numeral_2_eq_2 wr_def)
  show "rt_mq_init 1 [[0, 0, 0, 0], [0, 0, 0, 0]] [None, None] 3 16 0 s = Inr (RT_EOK, example_queue, rt_ipc_object_init 1 s)"
    by (simp add: rt_mq_init_def RT_ALIGN_def l example_queue_def)
  have "length (([[0, 0, 0, 0], [0, 0, 0, 0]] :: u8 list list) ! i) = 4" if "i < 2" for i
    using that by (cases i) auto
  then show "mq_rep example_queue [] [1, 0] {}" by (auto simp: mq_rep_def example_queue_def)
qed (simp_all add: example_queue_def)

theorem mq_send_refines_witness:
  "\<exists>mq' s'. rt_mq_send example_queue [7, 8] 2 (example_wait 10 [2]) = Inr (RT_EOK, mq', s') \<and>
     messages mq' [1] = [[7, 8, 0, 0]] \<and> runnable s' 2"
  using mq_send_refines [OF example_wait_ok [of 10 "[2]" 1] _ example_queue_ok(2), of 2 "[7, 8]"]
  by (auto simp: example_wait_simps example_queue_ok(3-5) woken_receiver_def messages_def splice_at_def simp del: One_nat_def)

text \<open>A receiver takes the first message, as much of it as fits its buffer, and the block is free again;
  when there is none it returns at once or waits behind the other receivers.
\<close>

theorem mq_recv_takes_first:
  assumes inv: "kernel_inv 1 s" and rep: "mq_rep mq q f {}" and c: "cur s = Some c" "stat_of s c = RT_THREAD_RUNNING"
    and nest: "rt_interrupt_nest s = 0" and time: "time < 0x7fffffff" and n: "n \<noteq> 0"
  shows "\<exists>r got mq' s'. rt_mq_recv mq n time s = Inr (r, got, mq', s') \<and> kernel_inv 1 s' \<and>
    (case q of
       [] \<Rightarrow> mq' = mq \<and> got = None \<and> (if time = 0 then r = Returned (- RT_ETIMEOUT)
         else r = Blocked \<and> mq_receivers mq s' = queued (mq_flag mq) (prio s) c (mq_receivers mq s))
     | i # q' \<Rightarrow> r = Returned RT_EOK \<and> s' = s \<and> mq_rep mq' q' (i # f) {} \<and>
         messages mq q = mq_data mq ! i # messages mq' q' \<and> got = Some (take (unat n) (mq_data mq ! i)))"
proof (cases "q = [] \<and> time = 0")
  case True
  then show ?thesis using n inv mq_entry_zero [OF rep] by (simp add: rt_mq_recv_def)
next
  case False
  then have "rt_mq_recv mq n time s = mq_recv_try mq n time s"
    using n mq_entry_zero [OF rep] by (auto simp: rt_mq_recv_def)
  then show ?thesis using mq_recv_try_ok [OF inv rep c nest time, of n] False by (cases q) auto
qed

theorem mq_recv_takes_first_witness:
  "\<exists>mq' s'. rt_mq_recv example_queue 4 5 (example_wait 10 [2]) = Inr (Blocked, None, mq', s') \<and> mq_receivers mq' s' = [2, 0]"
  using mq_recv_takes_first [OF example_wait_ok [of 10 "[2]" 1] example_queue_ok(2), of 0 5 4]
  by (auto simp: example_wait_simps example_queue_ok(4) queued_def RT_IPC_FLAG_FIFO_def example_queue_def simp del: One_nat_def)

text \<open>C13: However the pieces of sending and receiving calls are interleaved: the queue holds the messages that were
  linked and not yet taken, in order; no block is in two hands; and what a receiver copies out of
  the block it holds is the message that was the first of the queue when it took it.
\<close>

theorem message_queue_interleaved:
  assumes "mq_run mq W R ms"
  shows "dom W \<inter> dom R = {} \<and> (\<exists>q f. mq_rep mq q f (dom W \<union> dom R) \<and> ms = messages mq q) \<and>
    (\<forall>i b. R i = Some b \<longrightarrow> mq_data mq ! i = b)"
  using mq_run_ok [OF assms] by (auto simp: mq_run_ok_def)

text \<open>A sender is interrupted, before it has copied its message, by one that sends an urgent message.\<close>

lemma example_run:
  "\<exists>mq W R. mq_run mq W R [[9, 0, 0, 0], [7, 0, 0, 0]]"
proof -
  let ?mq = "\<lambda>d nx e h t fr. \<lparr>mq_id = 1, mq_data = d, mq_next = nx, msg_size = 4, max_msgs = 2, mq_entry = e,
     msg_queue_head = h, msg_queue_tail = t, msg_queue_free = fr, mq_flag = 0\<rparr> :: mqueue"
  have r0: "mq_run example_queue Map.empty Map.empty []" by (rule mq_run.start [OF example_queue_ok(2)])
  have r1: "mq_run (?mq [[0, 0, 0, 0], [0, 0, 0, 0]] [None, Some 0] 0 None None (Some 0)) [1 \<mapsto> None] Map.empty []"
    by (rule mq_run.take [OF r0]) (simp add: mq_take_free_def example_queue_def)
  have r2: "mq_run (?mq [[0, 0, 0, 0], [0, 0, 0, 0]] [None, Some 0] 0 None None None) [1 \<mapsto> None, 0 \<mapsto> None] Map.empty []"
    by (rule mq_run.take [OF r1]) (simp add: mq_take_free_def)
  have r3: "mq_run (?mq [[9, 0, 0, 0], [0, 0, 0, 0]] [None, Some 0] 0 None None None)
      [1 \<mapsto> None, 0 \<mapsto> None, 0 \<mapsto> Some (False, [9, 0, 0, 0])] Map.empty []"
    using mq_run.copy_urgent [OF r2, of 0 "[9]" 1] by (simp add: mq_fill_def splice_at_def)
  have r4: "mq_run (?mq [[9, 0, 0, 0], [0, 0, 0, 0]] [None, Some 0] 1 (Some 0) (Some 0) None)
      ([1 \<mapsto> None, 0 \<mapsto> None, 0 \<mapsto> Some (False, [9, 0, 0, 0])](0 := None)) Map.empty [[9, 0, 0, 0]]"
    by (rule mq_run.link_urgent [OF r3]) (simp_all add: mq_link_head_def)
  have r5: "mq_run (?mq [[9, 0, 0, 0], [7, 0, 0, 0]] [None, None] 1 (Some 0) (Some 0) None)
      ([1 \<mapsto> None, 0 \<mapsto> None, 0 \<mapsto> Some (False, [9, 0, 0, 0])](0 := None, 1 \<mapsto> Some (True, [7, 0, 0, 0]))) Map.empty [[9, 0, 0, 0]]"
    using mq_run.copy [OF r4, of 1 "[None, None]" "[7]" 1
        "?mq [[9, 0, 0, 0], [7, 0, 0, 0]] [None, None] 1 (Some 0) (Some 0) None"] by (simp add: mq_fill_def splice_at_def)
  have r6: "mq_run (?mq [[9, 0, 0, 0], [7, 0, 0, 0]] [Some 1, None] 2 (Some 0) (Some 1) None)
      ([1 \<mapsto> None, 0 \<mapsto> None, 0 \<mapsto> Some (False, [9, 0, 0, 0])](0 := None, 1 \<mapsto> Some (True, [7, 0, 0, 0]), 1 := None))
      Map.empty ([[9, 0, 0, 0]] @ [[7, 0, 0, 0]])"
    by (rule mq_run.link [OF r5]) (simp_all add: mq_link_tail_def)
  then show ?thesis by auto
qed

theorem message_queue_interleaved_witness:
  "\<exists>mq W R q f. mq_run mq W R [[9, 0, 0, 0], [7, 0, 0, 0]] \<and> mq_rep mq q f (dom W \<union> dom R) \<and>
     messages mq q = [[9, 0, 0, 0], [7, 0, 0, 0]]"
proof -
  obtain mq W R where r: "mq_run mq W R [[9, 0, 0, 0], [7, 0, 0, 0]]" using example_run by blast
  show ?thesis using message_queue_interleaved [OF r] r by metis
qed

end
