(* ===== verification/Heap.thy ===== *)
theory Heap
  imports Semaphore
begin

text \<open>
  The heap of the kernel, \<^verbatim>\<open>rt-thread/src/mem.c\<close>: the bytes of the heap and the headers in them,
  \<open>rt_malloc\<close>, \<open>rt_realloc\<close>, \<open>rt_calloc\<close>, \<open>rt_free\<close>.

  \<^item> The heap is an array of bytes. A header is 12 of these bytes, little endian; a block is its
    header and the bytes up to the next header, whose offset the header holds.
  \<^item> \<open>heap_ptr\<close> is an address; the pointers \<open>lfree\<close> and \<open>heap_end\<close> into the heap are kept as
    offsets. The pointers that the client gets are addresses.
  \<^item> All accesses check the bounds of the array, so a result that is no fault says that the
    allocator has touched the heap only.
  \<^item> A call that finds the semaphore taken ends in \<open>Waits\<close>; what it does when it has got the
    semaphore is the definition with the ending \<open>_locked\<close>.
\<close>

section \<open>Bytes and headers\<close>

definition le16 :: "u16 \<Rightarrow> u8 list" where
  "le16 w = [ucast w, ucast (drop_bit 8 w)]"

definition le32 :: "u32 \<Rightarrow> u8 list" where
  "le32 w = [ucast w, ucast (drop_bit 8 w), ucast (drop_bit 16 w), ucast (drop_bit 24 w)]"

definition of_le16 :: "u8 list \<Rightarrow> u16" where
  "of_le16 bs = ucast (bs ! 0) OR push_bit 8 (ucast (bs ! 1))"

definition of_le32 :: "u8 list \<Rightarrow> u32" where
  "of_le32 bs = ucast (bs ! 0) OR push_bit 8 (ucast (bs ! 1)) OR push_bit 16 (ucast (bs ! 2)) OR push_bit 24 (ucast (bs ! 3))"

record heap_mem =
  magic :: u16
  used :: u16
  mem_next :: u32
  mem_prev :: u32

definition HEAP_MAGIC :: u16 where "HEAP_MAGIC = 0x1ea0"
definition MIN_SIZE_ALIGNED :: u32 where "MIN_SIZE_ALIGNED = 12"
definition SIZEOF_STRUCT_MEM :: u32 where "SIZEOF_STRUCT_MEM = 12"

definition encode :: "heap_mem \<Rightarrow> u8 list" where
  "encode m = le16 (magic m) @ le16 (used m) @ le32 (mem_next m) @ le32 (mem_prev m)"

definition decode :: "u8 list \<Rightarrow> heap_mem" where
  "decode bs = \<lparr>magic = of_le16 bs, used = of_le16 (drop 2 bs), mem_next = of_le32 (drop 4 bs), mem_prev = of_le32 (drop 8 bs)\<rparr>"

record heap =
  heap_ptr :: u32
  heap_bytes :: "u8 list"
  heap_end :: u32
  lfree :: u32
  heap_sem :: semaphore
  mem_size_aligned :: u32
  used_mem :: u32
  max_mem :: u32

definition header_at :: "u8 list \<Rightarrow> u32 \<Rightarrow> heap_mem" where
  "header_at bs p = decode (take 12 (drop (unat p) bs))"

definition load :: "heap \<Rightarrow> u32 \<Rightarrow> fault + heap_mem" where
  "load h p = (if unat p + 12 \<le> length (heap_bytes h) then Inr (header_at (heap_bytes h) p) else Inl Oob_Read)"

definition put_header :: "u32 \<Rightarrow> heap_mem \<Rightarrow> u8 list \<Rightarrow> u8 list" where
  "put_header p m bs = splice_at (unat p) (encode m) bs"

definition store :: "u32 \<Rightarrow> heap_mem \<Rightarrow> heap \<Rightarrow> fault + heap" where
  "store p m h = (if unat p + 12 \<le> length (heap_bytes h) then Inr (h\<lparr>heap_bytes := put_header p m (heap_bytes h)\<rparr>) else Inl Oob_Write)"

definition modify :: "u32 \<Rightarrow> (heap_mem \<Rightarrow> heap_mem) \<Rightarrow> heap \<Rightarrow> fault + heap" where
  "modify p f h = rbind (load h p) (\<lambda>m. store p (f m) h)"

section \<open>Operations\<close>

text \<open>The block at \<open>p\<close> takes in the block at \<open>n\<close> behind it, whose header is \<open>nmem\<close>, if that is free.\<close>

definition plug_forward :: "u32 \<Rightarrow> u32 \<Rightarrow> heap_mem \<Rightarrow> heap \<Rightarrow> fault + heap" where
  "plug_forward p n nmem h =
     (if p \<noteq> n \<and> used nmem = 0 \<and> n \<noteq> heap_end h then
        let h = (if lfree h = n then h\<lparr>lfree := p\<rparr> else h)
        in rbind (modify p (\<lambda>m. m\<lparr>mem_next := mem_next nmem\<rparr>) h) (modify (mem_next nmem) (\<lambda>m. m\<lparr>mem_prev := p\<rparr>))
      else Inr h)"

text \<open>The block before \<open>p\<close> takes it in, if that is free.\<close>

definition plug_backward :: "u32 \<Rightarrow> heap \<Rightarrow> fault + heap" where
  "plug_backward p h =
     rbind (load h p) (\<lambda>mem.
     let q = mem_prev mem
     in rbind (load h q) (\<lambda>pmem.
        if q \<noteq> p \<and> used pmem = 0 then
          let h = (if lfree h = p then h\<lparr>lfree := q\<rparr> else h)
          in rbind (modify q (\<lambda>m. m\<lparr>mem_next := mem_next mem\<rparr>) h) (modify (mem_next mem) (\<lambda>m. m\<lparr>mem_prev := q\<rparr>))
        else Inr h))"

definition plug_holes :: "u32 \<Rightarrow> heap \<Rightarrow> fault + heap" where
  "plug_holes p h =
     (if \<not> p < heap_end h then Inl Assert_Fail
      else rbind (load h p) (\<lambda>mem.
      if used mem \<noteq> 0 then Inl Assert_Fail
      else rbind (load h (mem_next mem)) (\<lambda>nmem.
           rbind (plug_forward p (mem_next mem) nmem h) (plug_backward p))))"

text \<open>
  \<open>bs\<close> are the bytes from the aligned begin to the aligned end. The counters are the static
  variables, 0 at the start; the function leaves them alone.
\<close>

definition rt_system_heap_init :: "nat \<Rightarrow> u32 \<Rightarrow> u32 \<Rightarrow> u8 list \<Rightarrow> kernel \<Rightarrow> fault + heap option \<times> kernel" where
  "rt_system_heap_init sem_no begin_addr end_addr bs s =
     (let begin_align = align4 begin_addr;
          end_align = align_down4 end_addr
      in if \<not> not_in_interrupt s then Inl Assert_Fail
      else if end_align > 2 * SIZEOF_STRUCT_MEM \<and> end_align - 2 * SIZEOF_STRUCT_MEM \<ge> begin_align then
        let sz = end_align - begin_align - 2 * SIZEOF_STRUCT_MEM;
            e = sz + SIZEOF_STRUCT_MEM;
            (_, sem, s) = rt_sem_init sem_no 1 RT_IPC_FLAG_FIFO s;
            h = \<lparr>heap_ptr = begin_align, heap_bytes = bs, heap_end = e, lfree = 0, heap_sem = sem, mem_size_aligned = sz,
                 used_mem = 0, max_mem = 0\<rparr>
        in rbind (store 0 \<lparr>magic = HEAP_MAGIC, used = 0, mem_next = e, mem_prev = 0\<rparr> h) (\<lambda>h.
           rbind (store e \<lparr>magic = HEAP_MAGIC, used = 1, mem_next = e, mem_prev = e\<rparr> h) (\<lambda>h.
           Inr (Some h, s)))
      else Inr (None, s))"

text \<open>
  The walk along the headers for a free block that is large enough. It only reads, so a walk of
  more steps than the heap has bytes has come to the same header twice and never ends.
\<close>

fun malloc_search :: "nat \<Rightarrow> heap \<Rightarrow> u32 \<Rightarrow> u32 \<Rightarrow> fault + u32 option" where
  "malloc_search 0 h sz p = Inl Endless_Loop"
| "malloc_search (Suc k) h sz p =
     (if p < mem_size_aligned h - sz then
        rbind (load h p) (\<lambda>mem.
        if used mem = 0 \<and> mem_next mem - (p + SIZEOF_STRUCT_MEM) \<ge> sz then Inr (Some p)
        else malloc_search k h sz (mem_next mem))
      else Inr None)"

text \<open>The walk of \<open>lfree\<close> to the next free block.\<close>

fun lfree_walk :: "nat \<Rightarrow> heap \<Rightarrow> u32 \<Rightarrow> fault + u32" where
  "lfree_walk 0 h p = Inl Endless_Loop"
| "lfree_walk (Suc k) h p =
     rbind (load h p) (\<lambda>mem.
     if used mem \<noteq> 0 \<and> p \<noteq> heap_end h then lfree_walk k h (mem_next mem)
     else if p = heap_end h \<or> used mem = 0 then Inr p else Inl Assert_Fail)"

text \<open>
  The block at \<open>p\<close>, which ends at \<open>n\<close>, is split: \<open>f\<close> changes its header, and the rest from \<open>p2\<close> on
  becomes a free block. The header at the end of the heap is not changed. The code has these lines
  twice, in \<open>rt_malloc\<close> and in \<open>rt_realloc\<close>.
\<close>

definition split_off :: "u32 \<Rightarrow> u32 \<Rightarrow> u32 \<Rightarrow> (heap_mem \<Rightarrow> heap_mem) \<Rightarrow> heap \<Rightarrow> fault + heap" where
  "split_off p p2 n f h =
     rbind (store p2 \<lparr>magic = HEAP_MAGIC, used = 0, mem_next = n, mem_prev = p\<rparr> h) (\<lambda>h.
     rbind (modify p f h) (\<lambda>h.
     if n \<noteq> mem_size_aligned h + SIZEOF_STRUCT_MEM then modify n (\<lambda>m. m\<lparr>mem_prev := p2\<rparr>) h else Inr h))"

definition count_used :: "u32 \<Rightarrow> heap \<Rightarrow> heap" where
  "count_used n h =
     (let u = used_mem h + n in h\<lparr>used_mem := u, max_mem := (if max_mem h < u then u else max_mem h)\<rparr>)"

text \<open>The free block at \<open>p\<close> is taken for \<open>sz\<close> bytes, and its rest is split off if it is large enough.\<close>

definition malloc_cut :: "u32 \<Rightarrow> u32 \<Rightarrow> heap \<Rightarrow> fault + heap" where
  "malloc_cut p sz h =
     rbind (load h p) (\<lambda>mem.
     rbind (if mem_next mem - (p + SIZEOF_STRUCT_MEM) \<ge> sz + SIZEOF_STRUCT_MEM + MIN_SIZE_ALIGNED then
              let p2 = p + SIZEOF_STRUCT_MEM + sz
              in rbind (split_off p p2 (mem_next mem) (\<lambda>m. m\<lparr>mem_next := p2, used := 1\<rparr>) h) (\<lambda>h.
                 Inr (count_used (sz + SIZEOF_STRUCT_MEM) h))
            else
              rbind (modify p (\<lambda>m. m\<lparr>used := 1\<rparr>) h) (\<lambda>h. Inr (count_used (mem_next mem - p) h)))
           (modify p (\<lambda>m. m\<lparr>magic := HEAP_MAGIC\<rparr>)))"

definition malloc_take :: "u32 \<Rightarrow> u32 \<Rightarrow> heap \<Rightarrow> fault + heap" where
  "malloc_take p sz h =
     rbind (malloc_cut p sz h) (\<lambda>h.
     if p = lfree h then
       rbind (lfree_walk (length (heap_bytes h)) h (lfree h)) (\<lambda>q. Inr (h\<lparr>lfree := q\<rparr>))
     else Inr h)"

text \<open>What a call comes to: a pointer, or null, or the thread waits for the semaphore.\<close>

datatype heap_result = Ptr u32 | Null | Waits

definition heap_unlock :: "heap \<Rightarrow> kernel \<Rightarrow> fault + heap \<times> kernel" where
  "heap_unlock h s = rbind (rt_sem_release (heap_sem h) s) (\<lambda>(_, sem, s). Inr (h\<lparr>heap_sem := sem\<rparr>, s))"

text \<open>
  \<open>rt_sem_take (&heap_sem, RT_WAITING_FOREVER)\<close>, and \<open>f\<close> with the semaphore. Its result is not checked.
\<close>

definition heap_locked ::
  "heap \<Rightarrow> kernel \<Rightarrow> (heap \<Rightarrow> kernel \<Rightarrow> fault + heap_result \<times> heap \<times> kernel) \<Rightarrow> fault + heap_result \<times> heap \<times> kernel" where
  "heap_locked h s f =
     rbind (rt_sem_take (heap_sem h) (- 1) s) (\<lambda>(r, sem, s).
     let h = h\<lparr>heap_sem := sem\<rparr>
     in (case r of Blocked \<Rightarrow> Inr (Waits, h, s) | _ \<Rightarrow> f h s))"

definition rt_malloc_locked :: "u32 \<Rightarrow> heap \<Rightarrow> kernel \<Rightarrow> fault + heap_result \<times> heap \<times> kernel" where
  "rt_malloc_locked sz h s =
     rbind (malloc_search (Suc (length (heap_bytes h))) h sz (lfree h)) (\<lambda>found.
     case found of
       None \<Rightarrow> rbind (heap_unlock h s) (\<lambda>(h, s). Inr (Null, h, s))
     | Some p \<Rightarrow>
         rbind (malloc_take p sz h) (\<lambda>h.
         rbind (heap_unlock h s) (\<lambda>(h, s).
         let mem = heap_ptr h + p
         in if \<not> mem + SIZEOF_STRUCT_MEM + sz \<le> heap_ptr h + heap_end h then Inl Assert_Fail
            else if (mem + SIZEOF_STRUCT_MEM) mod 4 \<noteq> 0 then Inl Assert_Fail
            else if mem AND 3 \<noteq> 0 then Inl Assert_Fail
            else Inr (Ptr (mem + SIZEOF_STRUCT_MEM), h, s))))"

definition rt_malloc :: "u32 \<Rightarrow> heap \<Rightarrow> kernel \<Rightarrow> fault + heap_result \<times> heap \<times> kernel" where
  "rt_malloc sz h s =
     (if sz = 0 then Inr (Null, h, s)
      else if \<not> not_in_interrupt s then Inl Assert_Fail
      else
        let sz = align4 sz
        in if sz > mem_size_aligned h then Inr (Null, h, s)
           else
             let sz = (if sz < MIN_SIZE_ALIGNED then MIN_SIZE_ALIGNED else sz)
             in heap_locked h s (rt_malloc_locked sz))"

text \<open>Whether the pointer \<open>a\<close> points into the heap.\<close>

definition in_heap :: "heap \<Rightarrow> u32 \<Rightarrow> bool" where
  "in_heap h a \<longleftrightarrow> heap_ptr h \<le> a \<and> a < heap_ptr h + heap_end h"

definition rt_free_locked :: "u32 \<Rightarrow> heap \<Rightarrow> kernel \<Rightarrow> fault + heap_result \<times> heap \<times> kernel" where
  "rt_free_locked a h s =
     (let p = a - SIZEOF_STRUCT_MEM - heap_ptr h
      in rbind (load h p) (\<lambda>mem.
      if used mem = 0 then Inl Assert_Fail
      else if magic mem \<noteq> HEAP_MAGIC then Inl Assert_Fail
      else
        rbind (modify p (\<lambda>m. m\<lparr>used := 0, magic := HEAP_MAGIC\<rparr>) h) (\<lambda>h.
        let h = (if p < lfree h then h\<lparr>lfree := p\<rparr> else h);
            h = h\<lparr>used_mem := used_mem h - (mem_next mem - p)\<rparr>
        in rbind (plug_holes p h) (\<lambda>h.
           rbind (heap_unlock h s) (\<lambda>(h, s). Inr (Null, h, s))))))"

definition rt_free :: "u32 \<Rightarrow> heap \<Rightarrow> kernel \<Rightarrow> fault + heap_result \<times> heap \<times> kernel" where
  "rt_free a h s =
     (if a = 0 then Inr (Null, h, s)
      else if \<not> not_in_interrupt s then Inl Assert_Fail
      else if a AND 3 \<noteq> 0 then Inl Assert_Fail
      else if \<not> in_heap h a then Inl Assert_Fail
      else heap_locked h s (rt_free_locked a))"

text \<open>The part of \<open>rt_realloc\<close> under the semaphore; \<open>None\<close> means that the block has to be moved.\<close>

definition realloc_in_place :: "u32 \<Rightarrow> u32 \<Rightarrow> heap \<Rightarrow> fault + bool \<times> u32 \<times> heap" where
  "realloc_in_place a newsize h =
     (let p = a - SIZEOF_STRUCT_MEM - heap_ptr h
      in rbind (load h p) (\<lambda>mem.
      let sz = mem_next mem - p - SIZEOF_STRUCT_MEM
      in if sz = newsize then Inr (True, sz, h)
         else if newsize + SIZEOF_STRUCT_MEM + 12 < sz then
           let h = h\<lparr>used_mem := used_mem h - (sz - newsize)\<rparr>;
               p2 = p + SIZEOF_STRUCT_MEM + newsize
           in rbind (split_off p p2 (mem_next mem) (\<lambda>m. m\<lparr>mem_next := p2\<rparr>) h) (\<lambda>h.
              rbind (plug_holes p2 h) (\<lambda>h. Inr (True, sz, h)))
         else Inr (False, sz, h)))"

text \<open>\<open>rt_memcpy\<close> and \<open>rt_memset\<close> on bytes of the heap, from the first byte on.\<close>

definition heap_read :: "heap \<Rightarrow> u32 \<Rightarrow> nat \<Rightarrow> fault + u8 list" where
  "heap_read h a n =
     (let i = unat (a - heap_ptr h)
      in if i + n \<le> length (heap_bytes h) then Inr (take n (drop i (heap_bytes h))) else Inl Oob_Read)"

definition heap_write :: "u32 \<Rightarrow> u8 list \<Rightarrow> heap \<Rightarrow> fault + heap" where
  "heap_write a xs h =
     (let i = unat (a - heap_ptr h)
      in if i + length xs \<le> length (heap_bytes h) then Inr (h\<lparr>heap_bytes := splice_at i xs (heap_bytes h)\<rparr>) else Inl Oob_Write)"

definition realloc_move :: "u32 \<Rightarrow> u32 \<Rightarrow> u32 \<Rightarrow> heap \<Rightarrow> kernel \<Rightarrow> fault + heap_result \<times> heap \<times> kernel" where
  "realloc_move a sz newsize h s =
     rbind (rt_malloc newsize h s) (\<lambda>(r, h, s).
     case r of
       Ptr b \<Rightarrow>
         rbind (heap_read h a (unat (if sz < newsize then sz else newsize))) (\<lambda>xs.
         rbind (heap_write b xs h) (\<lambda>h.
         rbind (rt_free a h s) (\<lambda>(r, h, s).
         case r of Waits \<Rightarrow> Inr (Waits, h, s) | _ \<Rightarrow> Inr (Ptr b, h, s))))
     | _ \<Rightarrow> Inr (r, h, s))"

definition rt_realloc_locked :: "u32 \<Rightarrow> u32 \<Rightarrow> heap \<Rightarrow> kernel \<Rightarrow> fault + heap_result \<times> heap \<times> kernel" where
  "rt_realloc_locked a newsize h s =
     (if \<not> in_heap h a then rbind (heap_unlock h s) (\<lambda>(h, s). Inr (Ptr a, h, s))
      else
        rbind (realloc_in_place a newsize h) (\<lambda>(fits, sz, h).
        rbind (heap_unlock h s) (\<lambda>(h, s).
        if fits then Inr (Ptr a, h, s) else realloc_move a sz newsize h s)))"

definition rt_realloc :: "u32 \<Rightarrow> u32 \<Rightarrow> heap \<Rightarrow> kernel \<Rightarrow> fault + heap_result \<times> heap \<times> kernel" where
  "rt_realloc a newsize h s =
     (if \<not> not_in_interrupt s then Inl Assert_Fail
      else
        let newsize = align4 newsize
        in if newsize > mem_size_aligned h then Inr (Null, h, s)
           else if newsize = 0 then rt_free a h s
           else if a = 0 then rt_malloc newsize h s
           else heap_locked h s (rt_realloc_locked a newsize))"

definition rt_calloc :: "u32 \<Rightarrow> u32 \<Rightarrow> heap \<Rightarrow> kernel \<Rightarrow> fault + heap_result \<times> heap \<times> kernel" where
  "rt_calloc count sz h s =
     rbind (rt_malloc (count * sz) h s) (\<lambda>(r, h, s).
     case r of
       Ptr p \<Rightarrow> rbind (heap_write p (replicate (unat (count * sz)) 0) h) (\<lambda>h. Inr (Ptr p, h, s))
     | _ \<Rightarrow> Inr (r, h, s))"

definition rt_memory_info :: "heap \<Rightarrow> u32 \<times> u32 \<times> u32" where
  "rt_memory_info h = (mem_size_aligned h, used_mem h, max_mem h)"

section \<open>Headers in the bytes\<close>

lemma of_le16_le16 [simp]: "of_le16 (le16 w @ bs) = w"
  by (rule bit_word_eqI) (auto simp: of_le16_def le16_def bit_simps)

lemma of_le32_le32 [simp]: "of_le32 (le32 w @ bs) = w" "of_le32 (le32 w) = w"
proof -
  show *: "of_le32 (le32 w @ bs) = w" for bs
  proof (rule bit_word_eqI)
    fix n assume n: "n < LENGTH(32)"
    show "bit (of_le32 (le32 w @ bs)) n = bit w n"
    proof -
      consider "n < 8" | k where "n = 8 + k" "k < 8" | k where "n = 16 + k" "k < 8" | k where "n = 24 + k" "k < 8"
      proof -
        have "n = 8 + (n - 8) \<and> n - 8 < 8" if "\<not> n < 8" "n < 16" using that by simp
        moreover have "n = 16 + (n - 16) \<and> n - 16 < 8" if "\<not> n < 16" "n < 24" using that by simp
        moreover have "n = 24 + (n - 24) \<and> n - 24 < 8" if "\<not> n < 24" using that n by simp
        ultimately show ?thesis using that by blast
      qed
      then show ?thesis by cases (auto simp: of_le32_def le32_def bit_simps)
    qed
  qed
  show "of_le32 (le32 w) = w" using * [of "[]"] by simp
qed

lemma length_encode [simp]: "length (encode m) = 12"
  by (simp add: encode_def le16_def le32_def)

lemma decode_encode [simp]: "decode (encode m) = m"
proof -
  have "drop 2 (encode m) = le16 (used m) @ le32 (mem_next m) @ le32 (mem_prev m)"
    "drop 4 (encode m) = le32 (mem_next m) @ le32 (mem_prev m)" "drop 8 (encode m) = le32 (mem_prev m)"
    by (simp_all add: encode_def le16_def le32_def)
  then show ?thesis by (simp add: decode_def) (simp add: encode_def)
qed

lemma length_put_header [simp]: "unat p + 12 \<le> length bs \<Longrightarrow> length (put_header p m bs) = length bs"
  by (simp add: put_header_def)

lemma header_put_same [simp]:
  assumes "unat p + 12 \<le> length bs"
  shows "header_at (put_header p m bs) p = m"
  using assms by (simp add: header_at_def put_header_def splice_at_def)

lemma nth_put_header:
  assumes "unat p + 12 \<le> length bs" "k < length bs" "k < unat p \<or> unat p + 12 \<le> k"
  shows "put_header p m bs ! k = bs ! k"
  using assms by (auto simp: put_header_def nth_splice_at)

text \<open>A header depends on its 12 bytes only.\<close>

lemma header_at_cong:
  assumes "length bs = length bs'" "\<And>k. unat p \<le> k \<Longrightarrow> k < unat p + 12 \<Longrightarrow> k < length bs \<Longrightarrow> bs ! k = bs' ! k"
  shows "header_at bs p = header_at bs' p"
proof -
  have "take 12 (drop (unat p) bs) = take 12 (drop (unat p) bs')"
    using assms by (intro nth_equalityI) auto
  then show ?thesis by (simp add: header_at_def)
qed

lemma header_put_other:
  assumes "unat p + 12 \<le> length bs" "unat p + 12 \<le> unat q \<or> unat q + 12 \<le> unat p"
  shows "header_at (put_header p m bs) q = header_at bs q"
proof (rule header_at_cong)
  show "put_header p m bs ! k = bs ! k" if "unat q \<le> k" "k < unat q + 12" "k < length (put_header p m bs)" for k
    using that assms by (intro nth_put_header) auto
qed (use assms in simp)

lemma load_in: "unat p + 12 \<le> length (heap_bytes h) \<Longrightarrow> load h p = Inr (header_at (heap_bytes h) p)"
  by (simp add: load_def)

lemma store_in:
  "unat p + 12 \<le> length (heap_bytes h) \<Longrightarrow> store p m h = Inr (h\<lparr>heap_bytes := put_header p m (heap_bytes h)\<rparr>)"
  by (simp add: store_def)

lemma modify_in:
  "unat p + 12 \<le> length (heap_bytes h) \<Longrightarrow>
   modify p f h = Inr (h\<lparr>heap_bytes := put_header p (f (header_at (heap_bytes h) p)) (heap_bytes h)\<rparr>)"
  by (simp add: modify_def load_in store_in)

section \<open>The chain of blocks\<close>

text \<open>
  A block is given by its end and whether it is used; its start is the end of the block before it. It
  has at least one word of data; \<open>rt_malloc\<close> makes no block with less than 12 bytes, but \<open>rt_realloc\<close> does.
  \<open>chain bs pr p L\<close> says that the blocks \<open>L\<close> start at \<open>p\<close> and that the block before them is \<open>pr\<close>.
\<close>

type_synonym layout = "(u32 \<times> bool) list"

definition block_header :: "u32 \<Rightarrow> u32 \<times> bool \<Rightarrow> heap_mem" where
  "block_header pr b = \<lparr>magic = HEAP_MAGIC, used = (if snd b then 1 else 0), mem_next = fst b, mem_prev = pr\<rparr>"

lemma block_header_simps [simp]:
  "magic (block_header pr b) = HEAP_MAGIC" "used (block_header pr (n, u)) = (if u then 1 else 0)"
  "mem_next (block_header pr b) = fst b" "mem_prev (block_header pr b) = pr"
  "mem_prev_update (\<lambda>_. q) (block_header pr b) = block_header q b"
  "mem_next_update (\<lambda>_. q) (block_header pr (n, u)) = block_header pr (q, u)"
  "magic_update (\<lambda>_. HEAP_MAGIC) (block_header pr b) = block_header pr b"
  "used_update (\<lambda>_. 1) (block_header pr (n, u)) = block_header pr (n, True)"
  "used_update (\<lambda>_. 0) (block_header pr (n, u)) = block_header pr (n, False)"
  by (simp_all add: block_header_def)

fun chain :: "u8 list \<Rightarrow> u32 \<Rightarrow> u32 \<Rightarrow> layout \<Rightarrow> bool" where
  "chain bs pr p [] \<longleftrightarrow> True"
| "chain bs pr p (b # L) \<longleftrightarrow>
     unat p + 16 \<le> unat (fst b) \<and> 4 dvd unat (fst b) \<and> unat p + 12 \<le> length bs \<and> header_at bs p = block_header pr b \<and>
     chain bs p (fst b) L"

text \<open>The end of the last block and the start of the last block.\<close>

fun ends :: "u32 \<Rightarrow> layout \<Rightarrow> u32" where
  "ends p [] = p"
| "ends p (b # L) = ends (fst b) L"

fun last_start :: "u32 \<Rightarrow> u32 \<Rightarrow> layout \<Rightarrow> u32" where
  "last_start pr p [] = pr"
| "last_start pr p (b # L) = last_start p (fst b) L"

lemma ends_append [simp]: "ends p (L @ M) = ends (ends p L) M"
  by (induction L arbitrary: p) auto

lemma last_start_append [simp]: "last_start pr p (L @ M) = last_start (last_start pr p L) (ends p L) M"
  by (induction L arbitrary: pr p) auto

lemma chain_append [simp]:
  "chain bs pr p (L @ M) \<longleftrightarrow> chain bs pr p L \<and> chain bs (last_start pr p L) (ends p L) M"
  by (induction L arbitrary: pr p) auto

lemma chain_mono: "chain bs pr p L \<Longrightarrow> unat p \<le> unat (ends p L)"
  by (induction L arbitrary: pr p) force+

lemma chain_frame:
  assumes "chain bs pr p L" "length bs' = length bs"
    and "\<And>q. unat p \<le> unat q \<Longrightarrow> unat q + 16 \<le> unat (ends p L) \<Longrightarrow> header_at bs' q = header_at bs q"
  shows "chain bs' pr p L"
  using assms
proof (induction L arbitrary: pr p)
  case (Cons b L)
  have le: "unat (fst b) \<le> unat (ends (fst b) L)" using chain_mono Cons.prems(1) by auto
  have "chain bs' p (fst b) L"
    by (rule Cons.IH) (use Cons.prems in auto)
  then show ?case using Cons.prems(1,2) Cons.prems(3) [of p] le by auto
qed simp

text \<open>A header that is written outside the chain does not disturb it.\<close>

lemma chain_put:
  assumes "chain bs pr p L" "unat q + 12 \<le> length bs" "unat q + 12 \<le> unat p \<or> unat (ends p L) \<le> unat q"
  shows "chain (put_header q m bs) pr p L"
  by (rule chain_frame [OF assms(1)]) (use assms in \<open>auto intro!: header_put_other\<close>)

text \<open>The blocks that are used and the blocks that are free, as intervals of offsets.\<close>

fun blocks :: "bool \<Rightarrow> u32 \<Rightarrow> layout \<Rightarrow> (u32 \<times> u32) set" where
  "blocks u p [] = {}"
| "blocks u p (b # L) = (if snd b = u then {(p, fst b)} else {}) \<union> blocks u (fst b) L"

abbreviation "allocated \<equiv> blocks True 0"
abbreviation "free \<equiv> blocks False 0"

lemma blocks_append [simp]: "blocks u p (L @ M) = blocks u p L \<union> blocks u (ends p L) M"
  by (induction L arbitrary: p) auto

fun free_starts :: "u32 \<Rightarrow> layout \<Rightarrow> u32 set" where
  "free_starts p [] = {}"
| "free_starts p (b # L) = (if snd b then {} else {p}) \<union> free_starts (fst b) L"

lemma free_starts_append [simp]: "free_starts p (L @ M) = free_starts p L \<union> free_starts (ends p L) M"
  by (induction L arbitrary: p) auto

lemma free_starts_iff: "x \<in> free_starts p L \<longleftrightarrow> (\<exists>n. (x, n) \<in> blocks False p L)"
  by (induction L arbitrary: p) auto

lemma blocks_split:
  assumes "(q, n) \<in> blocks u p L"
  obtains L1 L2 where "L = L1 @ (n, u) # L2" "ends p L1 = q"
proof -
  have "\<exists>L1 L2. L = L1 @ (n, u) # L2 \<and> ends p L1 = q"
    using assms
  proof (induction L arbitrary: p)
    case (Cons b L)
    then consider "(q, n) = (p, fst b)" "snd b = u" | "(q, n) \<in> blocks u (fst b) L" by (auto split: if_splits)
    then show ?case
    proof cases
      case 1
      then have "b # L = [] @ (n, u) # L \<and> ends p [] = q" by (cases b) auto
      then show ?thesis by blast
    next
      case 2
      then obtain L1 L2 where "L = L1 @ (n, u) # L2 \<and> ends (fst b) L1 = q" using Cons.IH by blast
      then have "b # L = (b # L1) @ (n, u) # L2 \<and> ends p (b # L1) = q" by simp
      then show ?thesis by blast
    qed
  qed simp
  then show ?thesis using that by blast
qed

lemma blocks_range:
  assumes "chain bs pr p L" "(q, n) \<in> blocks u p L"
  shows "unat p \<le> unat q" "unat q + 16 \<le> unat n" "unat n \<le> unat (ends p L)"
proof -
  obtain L1 L2 where L: "L = L1 @ (n, u) # L2" "ends p L1 = q" using blocks_split [OF assms(2)] .
  then have "chain bs pr p L1" "unat q + 16 \<le> unat n" "chain bs q n L2" using assms(1) by auto
  then show "unat p \<le> unat q" "unat q + 16 \<le> unat n" "unat n \<le> unat (ends p L)"
    using chain_mono [of bs pr p L1] chain_mono [of bs q n L2] L by auto
qed

text \<open>No two blocks overlap.\<close>

lemma blocks_disjoint:
  assumes "chain bs pr p L" "(q, n) \<in> blocks u p L" "(q', n') \<in> blocks u' p L" "(q, n, u) \<noteq> (q', n', u')"
  shows "unat n \<le> unat q' \<or> unat n' \<le> unat q"
proof -
  obtain L1 L2 where L: "L = L1 @ (n, u) # L2" "ends p L1 = q" using blocks_split [OF assms(2)] .
  have c: "chain bs pr p L1" "chain bs q n L2" using assms(1) L by auto
  have "(q', n') \<in> blocks u' p L1 \<or> (q', n', u') = (q, n, u) \<or> (q', n') \<in> blocks u' n L2"
    using assms(3) L by (auto split: if_splits)
  then show ?thesis using blocks_range [OF c(1), of q' n' u'] blocks_range [OF c(2), of q' n' u'] assms(4) L(2) by auto
qed

text \<open>No two free blocks are next to each other.\<close>

fun no_adjacent :: "layout \<Rightarrow> bool" where
  "no_adjacent (b # c # L) \<longleftrightarrow> (snd b \<or> snd c) \<and> no_adjacent (c # L)"
| "no_adjacent L \<longleftrightarrow> True"

lemma no_adjacent_Cons: "no_adjacent (b # L) \<longleftrightarrow> no_adjacent L \<and> (L = [] \<or> snd b \<or> snd (hd L))"
  by (cases L) auto

lemma no_adjacent_append:
  "no_adjacent (L @ M) \<longleftrightarrow> no_adjacent L \<and> no_adjacent M \<and> (L = [] \<or> M = [] \<or> snd (last L) \<or> snd (hd M))"
  by (induction L) (auto simp: no_adjacent_Cons)

text \<open>The number of bytes in used blocks, headers included.\<close>

fun used_bytes :: "u32 \<Rightarrow> layout \<Rightarrow> u32" where
  "used_bytes p [] = 0"
| "used_bytes p (b # L) = (if snd b then fst b - p else 0) + used_bytes (fst b) L"

lemma used_bytes_append [simp]: "used_bytes p (L @ M) = used_bytes p L + used_bytes (ends p L) M"
  by (induction L arbitrary: p) auto

text \<open>The blocks \<open>L\<close> from \<open>p\<close> to the end \<open>e\<close> of the heap, where a header stands that is always used.\<close>

definition tail :: "u8 list \<Rightarrow> u32 \<Rightarrow> u32 \<Rightarrow> u32 \<Rightarrow> layout \<Rightarrow> bool" where
  "tail bs e pr p L \<longleftrightarrow> chain bs pr p L \<and> ends p L = e \<and> unat e + 12 \<le> length bs \<and>
     used (header_at bs e) = 1 \<and> mem_next (header_at bs e) = e"

lemma tail_append: "tail bs e pr p (L @ M) \<longleftrightarrow> chain bs pr p L \<and> tail bs e (last_start pr p L) (ends p L) M"
  by (auto simp: tail_def)

lemma tail_Nil [simp]:
  "tail bs e pr p [] \<longleftrightarrow> p = e \<and> unat e + 12 \<le> length bs \<and> used (header_at bs e) = 1 \<and> mem_next (header_at bs e) = e"
  by (auto simp: tail_def)

lemma tail_Cons [simp]:
  "tail bs e pr p (b # L) \<longleftrightarrow> unat p + 16 \<le> unat (fst b) \<and> 4 dvd unat (fst b) \<and> unat p + 12 \<le> length bs \<and>
     header_at bs p = block_header pr b \<and> tail bs e p (fst b) L"
  by (auto simp: tail_def)

lemma tail_range: "tail bs e pr p L \<Longrightarrow> unat p \<le> unat e \<and> unat p + 12 \<le> length bs"
  using chain_mono by (fastforce simp: tail_def)

lemma tail_put:
  assumes "tail bs e pr p L" "unat q + 12 \<le> unat p"
  shows "tail (put_header q m bs) e pr p L"
proof -
  have q: "unat q + 12 \<le> length bs" "unat p \<le> unat e" using tail_range [OF assms(1)] assms(2) by auto
  have "header_at (put_header q m bs) e = header_at bs e" by (rule header_put_other) (use q assms(2) in auto)
  then show ?thesis using assms chain_put [of bs pr p L q m] q by (simp add: tail_def)
qed

text \<open>The header at the start of a tail gets another predecessor; this may be the header at the end.\<close>

lemma tail_set_prev:
  assumes "tail bs e pr p L"
  shows "tail (put_header p (header_at bs p\<lparr>mem_prev := q\<rparr>) bs) e q p L"
proof (cases L)
  case (Cons b M)
  then show ?thesis using assms tail_put [of bs e p "fst b" M p] by auto
qed (use assms in auto)

section \<open>The state of the heap\<close>

text \<open>
  \<open>heap_chain h L\<close>: the blocks \<open>L\<close> fill the heap. \<open>heap_inv h L\<close>: moreover no two free blocks are next
  to each other, \<open>lfree\<close> is a free block or the end, and \<open>used_mem\<close> is the number of used bytes.
  \<open>lfree_lowest\<close>: \<open>lfree\<close> is the lowest free block.
\<close>

definition heap_chain :: "heap \<Rightarrow> layout \<Rightarrow> bool" where
  "heap_chain h L \<longleftrightarrow> tail (heap_bytes h) (heap_end h) 0 0 L \<and> L \<noteq> [] \<and> mem_size_aligned h + 12 = heap_end h \<and>
     length (heap_bytes h) = unat (heap_end h) + 12 \<and> unat (heap_ptr h) + unat (heap_end h) + 12 < 2 ^ 32 \<and>
     4 dvd unat (heap_ptr h) \<and> 12 \<le> mem_size_aligned h"

definition lfree_ok :: "heap \<Rightarrow> layout \<Rightarrow> bool" where
  "lfree_ok h L \<longleftrightarrow> lfree h = heap_end h \<or> lfree h \<in> free_starts 0 L"

definition heap_inv :: "heap \<Rightarrow> layout \<Rightarrow> bool" where
  "heap_inv h L \<longleftrightarrow> heap_chain h L \<and> no_adjacent L \<and> lfree_ok h L \<and> used_mem h = used_bytes 0 L"

definition lfree_lowest :: "heap \<Rightarrow> layout \<Rightarrow> bool" where
  "lfree_lowest h L \<longleftrightarrow> (\<forall>p \<in> free_starts 0 L. lfree h \<le> p)"

text \<open>The parts of the heap that no operation changes.\<close>

definition same_heap :: "heap \<Rightarrow> heap \<Rightarrow> bool" where
  "same_heap h h' \<longleftrightarrow> heap_ptr h' = heap_ptr h \<and> heap_end h' = heap_end h \<and> mem_size_aligned h' = mem_size_aligned h \<and>
     heap_sem h' = heap_sem h \<and> length (heap_bytes h') = length (heap_bytes h)"

text \<open>The bytes of the blocks \<open>A\<close>, without their headers, are those they were.\<close>

definition data_kept :: "(u32 \<times> u32) set \<Rightarrow> heap \<Rightarrow> heap \<Rightarrow> bool" where
  "data_kept A h h' \<longleftrightarrow>
     (\<forall>(a, b) \<in> A. \<forall>k. unat a + 12 \<le> k \<longrightarrow> k < unat b \<longrightarrow> heap_bytes h' ! k = heap_bytes h ! k)"

end
