(* ===== verification/Heap_Blocks.thy ===== *)
theory Heap_Blocks
  imports Heap
begin

text \<open>
  What the operations of the heap do to the chain of its blocks: splitting, marking and merging
  blocks, the two walks along the headers, and \<open>plug_holes\<close>.
\<close>

lemma data_keptI:
  "(\<And>a b k. (a, b) \<in> A \<Longrightarrow> unat a + 12 \<le> k \<Longrightarrow> k < unat b \<Longrightarrow> heap_bytes h' ! k = heap_bytes h ! k) \<Longrightarrow> data_kept A h h'"
  by (auto simp: data_kept_def)

lemma data_keptD:
  "data_kept A h h' \<Longrightarrow> (a, b) \<in> A \<Longrightarrow> unat a + 12 \<le> k \<Longrightarrow> k < unat b \<Longrightarrow> heap_bytes h' ! k = heap_bytes h ! k"
  by (auto simp: data_kept_def)

lemma data_kept_refl [simp]: "data_kept A h h"
  by (simp add: data_kept_def)

lemma data_kept_trans: "data_kept A h h1 \<Longrightarrow> data_kept A h1 h2 \<Longrightarrow> data_kept A h h2"
  by (fastforce simp: data_kept_def)

lemma data_kept_mono: "data_kept B h h' \<Longrightarrow> A \<subseteq> B \<Longrightarrow> data_kept A h h'"
  by (fastforce simp: data_kept_def)

lemma data_kept_bytes: "data_kept A h h1 \<Longrightarrow> heap_bytes h2 = heap_bytes h1 \<Longrightarrow> data_kept A h h2"
  by (simp add: data_kept_def)

lemma same_heap_refl [simp]: "same_heap h h"
  by (simp add: same_heap_def)

lemma same_heap_trans: "same_heap h h1 \<Longrightarrow> same_heap h1 h2 \<Longrightarrow> same_heap h h2"
  by (simp add: same_heap_def)

lemma heap_chainD:
  assumes "heap_chain h L"
  shows "tail (heap_bytes h) (heap_end h) 0 0 L" "mem_size_aligned h + 12 = heap_end h"
    "length (heap_bytes h) = unat (heap_end h) + 12" "unat (heap_ptr h) + unat (heap_end h) + 12 < 2 ^ 32"
    "L \<noteq> []" "4 dvd unat (heap_ptr h)" "chain (heap_bytes h) 0 0 L" "ends 0 L = heap_end h"
  using assms by (auto simp: heap_chain_def tail_def)

text \<open>A block, its header and what is behind it.\<close>

lemma heap_chain_at:
  assumes "heap_chain h (L1 @ b # L2)" "p = ends 0 L1"
  shows "header_at (heap_bytes h) p = block_header (last_start 0 0 L1) b" "unat p + 16 \<le> unat (fst b)"
    "unat p + 12 \<le> length (heap_bytes h)" "unat (fst b) \<le> unat (heap_end h)" "4 dvd unat (fst b)"
    "chain (heap_bytes h) 0 0 L1" "tail (heap_bytes h) (heap_end h) p (fst b) L2"
    "unat (fst b) + 12 \<le> length (heap_bytes h)"
  using heap_chainD(1) [OF assms(1)] tail_range [of "heap_bytes h" "heap_end h" p "fst b" L2]
  by (auto simp: tail_append assms(2))

lemma heap_chainI:
  assumes "heap_chain h L" "chain bs 0 0 L1" "tail bs (heap_end h) (last_start 0 0 L1) (ends 0 L1) (b # L2)"
    "length bs = length (heap_bytes h)"
  shows "heap_chain (h\<lparr>heap_bytes := bs\<rparr>) (L1 @ b # L2)"
  using assms by (simp add: heap_chain_def tail_append)

lemma heap_chain_cong:
  "heap_bytes h' = heap_bytes h \<Longrightarrow> heap_ptr h' = heap_ptr h \<Longrightarrow> heap_end h' = heap_end h \<Longrightarrow>
   mem_size_aligned h' = mem_size_aligned h \<Longrightarrow> heap_chain h' L = heap_chain h L"
  by (simp add: heap_chain_def)

text \<open>A header that is written outside the bytes of the blocks \<open>A\<close>.\<close>

lemma data_kept_put:
  assumes "unat q + 12 \<le> length (heap_bytes h)"
    and "\<And>a b. (a, b) \<in> A \<Longrightarrow> unat q \<le> unat a \<or> unat b \<le> unat q"
    and "\<And>a b. (a, b) \<in> A \<Longrightarrow> unat b \<le> length (heap_bytes h)"
  shows "data_kept A h (h\<lparr>heap_bytes := put_header q m (heap_bytes h)\<rparr>)"
proof (rule data_keptI)
  fix a b k
  assume "(a, b) \<in> A" "unat a + 12 \<le> k" "k < unat b"
  then have "k < unat q \<or> unat q + 12 \<le> k" "k < length (heap_bytes h)" using assms(2,3) [of a b] by auto
  then show "heap_bytes (h\<lparr>heap_bytes := put_header q m (heap_bytes h)\<rparr>) ! k = heap_bytes h ! k"
    using nth_put_header [OF assms(1)] by simp
qed

text \<open>The start of a block and the end of the heap are outside.\<close>

lemma start_outside:
  assumes "heap_chain h L" "L = L1 @ L2" "q = ends 0 L1" "(a, b) \<in> blocks u 0 L"
  shows "unat q \<le> unat a \<or> unat b \<le> unat q" "unat b \<le> length (heap_bytes h)"
proof -
  note c = heap_chainD(7) [OF assms(1)]
  have "chain (heap_bytes h) 0 0 L1" "chain (heap_bytes h) (last_start 0 0 L1) q L2" using c assms(2,3) by auto
  then show "unat q \<le> unat a \<or> unat b \<le> unat q"
    using assms(2-4) blocks_range [of "heap_bytes h" 0 0 L1 a b u]
      blocks_range [of "heap_bytes h" "last_start 0 0 L1" q L2 a b u] by auto
  show "unat b \<le> length (heap_bytes h)"
    using blocks_range(3) [OF c assms(4)] heap_chainD(3,8) [OF assms(1)] by simp
qed

section \<open>Changes of the chain\<close>

text \<open>A header is marked.\<close>

lemma mark_step:
  assumes ch: "heap_chain h (L1 @ b # L2)" and p: "p = ends 0 L1" and b: "fst b' = fst b"
    and f: "f (block_header (last_start 0 0 L1) b) = block_header (last_start 0 0 L1) b'"
  shows "\<exists>h'. modify p f h = Inr h' \<and> heap_chain h' (L1 @ b' # L2) \<and> (\<forall>u. data_kept (blocks u 0 (L1 @ b # L2)) h h') \<and>
    h' = h\<lparr>heap_bytes := heap_bytes h'\<rparr> \<and> same_heap h h'"
proof -
  note a = heap_chain_at [OF ch p]
  let ?bs = "put_header p (f (header_at (heap_bytes h) p)) (heap_bytes h)"
  have run: "modify p f h = Inr (h\<lparr>heap_bytes := ?bs\<rparr>)" using a(3) by (rule modify_in)
  have "chain ?bs 0 0 L1" by (rule chain_put [OF a(6,3)]) (simp add: p)
  moreover have "tail ?bs (heap_end h) p (fst b') L2" unfolding b by (rule tail_put [OF a(7)]) (use a(2) in simp)
  ultimately have "heap_chain (h\<lparr>heap_bytes := ?bs\<rparr>) (L1 @ b' # L2)"
    using a(2,3,5) b f a(1) by (intro heap_chainI [OF ch]) (auto simp: p)
  moreover have "data_kept (blocks u 0 (L1 @ b # L2)) h (h\<lparr>heap_bytes := ?bs\<rparr>)" for u
    by (rule data_kept_put [OF a(3)]) (use start_outside [OF ch refl p] in blast)+
  ultimately show ?thesis using run a(3) by (auto simp: same_heap_def)
qed

text \<open>Two free blocks become one; this is what both halves of \<open>plug_holes\<close> do.\<close>

lemma merge_step:
  assumes ch: "heap_chain h (L1 @ (n, False) # (m, False) # L2)" and p: "p = ends 0 L1"
  shows "\<exists>h'. rbind (modify p (\<lambda>x. x\<lparr>mem_next := m\<rparr>) h) (modify m (\<lambda>x. x\<lparr>mem_prev := p\<rparr>)) = Inr h' \<and>
    heap_chain h' (L1 @ (m, False) # L2) \<and> data_kept (allocated (L1 @ (m, False) # L2)) h h' \<and>
    h' = h\<lparr>heap_bytes := heap_bytes h'\<rparr> \<and> same_heap h h'"
proof -
  let ?L = "L1 @ (n, False) # (m, False) # L2"
  note a = heap_chain_at [OF ch p, simplified]
  have ch': "heap_chain h ((L1 @ [(n, False)]) @ (m, False) # L2)" using ch by simp
  note b = heap_chain_at [OF ch' refl, simplified]
  let ?bs = "put_header p (block_header (last_start 0 0 L1) (m, False)) (heap_bytes h)"
  let ?h = "h\<lparr>heap_bytes := ?bs\<rparr>"
  have run: "modify p (\<lambda>x. x\<lparr>mem_next := m\<rparr>) h = Inr ?h" using a(1,3) by (simp add: modify_in)
  have t: "tail ?bs (heap_end h) n m L2" by (rule tail_put [OF b(7)]) (use a(2) b(2) in simp)
  let ?bs' = "put_header m (header_at ?bs m\<lparr>mem_prev := p\<rparr>) ?bs"
  let ?h' = "h\<lparr>heap_bytes := ?bs'\<rparr>"
  have m: "unat m + 12 \<le> length (heap_bytes h)" "unat m + 12 \<le> length ?bs" using b(8) a(3) by simp_all
  have run': "modify m (\<lambda>x. x\<lparr>mem_prev := p\<rparr>) ?h = Inr ?h'" using m a(3) by (simp add: modify_in)
  have "chain ?bs 0 0 L1" by (rule chain_put [OF a(6,3)]) (simp add: p)
  then have "chain ?bs' 0 0 L1" by (rule chain_put) (use m a(2) b(2) p in auto)
  moreover have "header_at ?bs' p = block_header (last_start 0 0 L1) (m, False)"
    using m a(2,3) b(2) by (simp add: header_put_other)
  moreover have "tail ?bs' (heap_end h) p m L2" by (rule tail_set_prev [OF t])
  ultimately have chain': "heap_chain ?h' (L1 @ (m, False) # L2)"
    using a(2,3) b(2,5) m by (intro heap_chainI [OF ch]) (auto simp: p)
  have alloc: "(x, y) \<in> allocated ?L" if "(x, y) \<in> allocated (L1 @ (m, False) # L2)" for x y using that by simp
  have "data_kept (allocated (L1 @ (m, False) # L2)) h ?h"
    by (rule data_kept_put [OF a(3)]) (use start_outside [OF ch refl p alloc] in blast)+
  moreover have "L1 @ (n, False) # (m, False) # L2 = (L1 @ [(n, False), (m, False)]) @ L2" "m = ends 0 (L1 @ [(n, False), (m, False)])"
    by simp_all
  note o = start_outside [OF ch this alloc]
  have "data_kept (allocated (L1 @ (m, False) # L2)) ?h ?h'"
    using data_kept_put [of m ?h "allocated (L1 @ (m, False) # L2)" "header_at ?bs m\<lparr>mem_prev := p\<rparr>"] o m a(3) by simp
  ultimately have "data_kept (allocated (L1 @ (m, False) # L2)) h ?h'" by (rule data_kept_trans)
  then show ?thesis using run run' chain' m a(3) by (auto simp: same_heap_def)
qed

lemma split_step:
  assumes ch: "heap_chain h (L1 @ (n, u) # L2)" and p: "p = ends 0 L1"
    and p2: "unat p + 16 \<le> unat p2" "unat p2 + 16 \<le> unat n" "4 dvd unat p2"
    and f: "f (block_header (last_start 0 0 L1) (n, u)) = block_header (last_start 0 0 L1) (p2, True)"
  shows "\<exists>h'. split_off p p2 n f h = Inr h' \<and> heap_chain h' (L1 @ (p2, True) # (n, False) # L2) \<and>
    data_kept (blocks True 0 L1 \<union> {(p, p2)} \<union> blocks True n L2) h h' \<and> h' = h\<lparr>heap_bytes := heap_bytes h'\<rparr> \<and> same_heap h h'"
proof -
  let ?A = "blocks True 0 L1 \<union> {(p, p2)} \<union> blocks True n L2"
  note a = heap_chain_at [OF ch p, simplified]
  let ?b1 = "put_header p2 (block_header p (n, False)) (heap_bytes h)"
  let ?b2 = "put_header p (block_header (last_start 0 0 L1) (p2, True)) ?b1"
  have l2: "unat p2 + 12 \<le> length (heap_bytes h)" using a(8) p2(2) by simp
  have s1: "store p2 \<lparr>magic = HEAP_MAGIC, used = 0, mem_next = n, mem_prev = p\<rparr> h = Inr (h\<lparr>heap_bytes := ?b1\<rparr>)"
    using l2 by (simp add: store_in block_header_def)
  have hp: "header_at ?b1 p = block_header (last_start 0 0 L1) (n, u)"
    using header_put_other [OF l2, of p "block_header p (n, False)"] p2(1) a(1) by simp
  have s2: "modify p f (h\<lparr>heap_bytes := ?b1\<rparr>) = Inr (h\<lparr>heap_bytes := ?b2\<rparr>)"
    using a(3) l2 hp f by (simp add: modify_in)
  have len: "length ?b1 = length (heap_bytes h)" "length ?b2 = length (heap_bytes h)" using l2 a(3) by simp_all
  have c1: "chain ?b2 0 0 L1"
    by (rule chain_put [OF chain_put [OF a(6) l2]]) (use a(3) len p p2(1) in auto)
  have h1: "header_at ?b2 p = block_header (last_start 0 0 L1) (p2, True)" using len a(3) by simp
  have h2: "header_at ?b2 p2 = block_header p (n, False)"
    using header_put_other [of p ?b1 p2] len a(3) p2(1) l2 by simp
  have t: "tail ?b2 (heap_end h) p n L2"
    by (rule tail_put [OF tail_put [OF a(7)]]) (use p2 in auto)
  have d2: "data_kept ?A h (h\<lparr>heap_bytes := ?b2\<rparr>)"
  proof (rule data_kept_trans [of _ _ "h\<lparr>heap_bytes := ?b1\<rparr>"])
    have r: "unat x \<le> unat y \<and> unat y \<le> length (heap_bytes h) \<and> (unat y \<le> unat p \<or> unat n \<le> unat x \<or> x = p \<and> y = p2)"
      if m: "(x, y) \<in> ?A" for x y
    proof -
      consider "(x, y) \<in> blocks True 0 L1" | "x = p" "y = p2" | "(x, y) \<in> blocks True n L2" using m by auto
      then show ?thesis
      proof cases
        case 1
        then show ?thesis using blocks_range [OF a(6), of x y True] a(3) p by auto
      next
        case 3
        have "chain (heap_bytes h) p n L2" "unat (ends n L2) + 12 \<le> length (heap_bytes h)" using a(7) by (auto simp: tail_def)
        then show ?thesis using 3 blocks_range [of "heap_bytes h" p n L2 x y True] by auto
      qed (use p2 l2 in auto)
    qed
    show "data_kept ?A h (h\<lparr>heap_bytes := ?b1\<rparr>)"
    proof (rule data_kept_put [OF l2])
      fix x y assume m: "(x, y) \<in> ?A"
      show "unat y \<le> length (heap_bytes h)" "unat p2 \<le> unat x \<or> unat y \<le> unat p2" using r [OF m] p2(1,2) by auto
    qed
    have "data_kept ?A (h\<lparr>heap_bytes := ?b1\<rparr>) (h\<lparr>heap_bytes := ?b1\<rparr>\<lparr>heap_bytes :=
        put_header p (block_header (last_start 0 0 L1) (p2, True)) (heap_bytes (h\<lparr>heap_bytes := ?b1\<rparr>))\<rparr>)"
    proof (rule data_kept_put)
      fix x y assume m: "(x, y) \<in> ?A"
      show "unat y \<le> length (heap_bytes (h\<lparr>heap_bytes := ?b1\<rparr>))" "unat p \<le> unat x \<or> unat y \<le> unat p"
        using r [OF m] p2(1,2) len by auto
    qed (use a(3) len in simp)
    then show "data_kept ?A (h\<lparr>heap_bytes := ?b1\<rparr>) (h\<lparr>heap_bytes := ?b2\<rparr>)" by simp
  qed
  show ?thesis
  proof (cases "n = heap_end h")
    case True
    then have "mem_size_aligned h + SIZEOF_STRUCT_MEM = n" using heap_chainD(2) [OF ch] by (simp add: SIZEOF_STRUCT_MEM_def)
    then have "split_off p p2 n f h = Inr (h\<lparr>heap_bytes := ?b2\<rparr>)" by (simp add: split_off_def s1 s2)
    moreover have "L2 = []"
    proof (cases L2)
      case (Cons b M)
      then show ?thesis using a(7) tail_range [of "heap_bytes h" "heap_end h" n "fst b" M] True by auto
    qed simp
    then have "heap_chain (h\<lparr>heap_bytes := ?b2\<rparr>) (L1 @ (p2, True) # (n, False) # L2)"
      using a(2,3,5) l2 c1 h1 h2 t p p2 len by (intro heap_chainI [OF ch]) auto
    ultimately show ?thesis using d2 len by (auto simp: same_heap_def)
  next
    case False
    let ?b3 = "put_header n (header_at ?b2 n\<lparr>mem_prev := p2\<rparr>) ?b2"
    have "mem_size_aligned h + SIZEOF_STRUCT_MEM \<noteq> n" using False heap_chainD(2) [OF ch] by (simp add: SIZEOF_STRUCT_MEM_def)
    then have run: "split_off p p2 n f h = Inr (h\<lparr>heap_bytes := ?b3\<rparr>)"
      using a(8) len by (simp add: split_off_def s1 s2 modify_in eq_commute)
    have l3: "unat n + 12 \<le> length ?b2" "length ?b3 = length (heap_bytes h)" using a(8) len by simp_all
    have "chain ?b3 0 0 L1" by (rule chain_put [OF c1 l3(1)]) (use p p2 in auto)
    moreover have "header_at ?b3 p = block_header (last_start 0 0 L1) (p2, True)"
      using header_put_other [OF l3(1), of p] h1 p2 by simp
    moreover have "header_at ?b3 p2 = block_header p (n, False)"
      using header_put_other [OF l3(1), of p2] h2 p2 by simp
    moreover have "tail ?b3 (heap_end h) p2 n L2" by (rule tail_set_prev [OF t])
    ultimately have "heap_chain (h\<lparr>heap_bytes := ?b3\<rparr>) (L1 @ (p2, True) # (n, False) # L2)"
      using a(2,3,5) l2 p p2 l3 by (intro heap_chainI [OF ch]) auto
    moreover have "data_kept ?A (h\<lparr>heap_bytes := ?b2\<rparr>) (h\<lparr>heap_bytes := ?b2\<rparr>\<lparr>heap_bytes :=
        put_header n (header_at ?b2 n\<lparr>mem_prev := p2\<rparr>) (heap_bytes (h\<lparr>heap_bytes := ?b2\<rparr>))\<rparr>)"
    proof (rule data_kept_put)
      have t2: "chain (heap_bytes h) p n L2" "unat (ends n L2) + 12 \<le> length (heap_bytes h)" using a(7) by (auto simp: tail_def)
      fix x y assume m: "(x, y) \<in> ?A"
      show "unat n \<le> unat x \<or> unat y \<le> unat n" "unat y \<le> length (heap_bytes (h\<lparr>heap_bytes := ?b2\<rparr>))"
        using m blocks_range [OF a(6), of x y True] blocks_range [OF t2(1), of x y True] t2(2) a(2,3) l2 len p p2 by auto
    qed (use l3 in simp)
    then have "data_kept ?A h (h\<lparr>heap_bytes := ?b3\<rparr>)" using data_kept_trans [OF d2] by simp
    ultimately show ?thesis using run l3 by (auto simp: same_heap_def)
  qed
qed

section \<open>The walks along the headers\<close>

fun first_free :: "u32 \<Rightarrow> layout \<Rightarrow> u32" where
  "first_free p [] = p"
| "first_free p (b # L) = (if snd b then first_free (fst b) L else p)"

lemma chain_length: "chain bs pr p L \<Longrightarrow> unat p + 16 * length L \<le> unat (ends p L)"
  by (induction L arbitrary: pr p) force+

lemma lfree_walk_ok:
  assumes "tail (heap_bytes h) (heap_end h) pr p L" "length L < k"
  shows "lfree_walk k h p = Inr (first_free p L)"
  using assms
proof (induction k arbitrary: pr p L)
  case (Suc k)
  have ld: "load h p = Inr (header_at (heap_bytes h) p)" by (rule load_in) (use tail_range [OF Suc.prems(1)] in simp)
  show ?case
  proof (cases L)
    case Nil
    then show ?thesis using Suc.prems ld by simp
  next
    case (Cons b M)
    then have t: "tail (heap_bytes h) (heap_end h) p (fst b) M" "header_at (heap_bytes h) p = block_header pr b"
        "unat p + 16 \<le> unat (fst b)" using Suc.prems(1) by auto
    then have "p \<noteq> heap_end h" using tail_range [OF t(1)] by auto
    then show ?thesis using ld t Suc.IH [OF t(1)] Suc.prems(2) Cons by (cases b) auto
  qed
qed simp

lemma free_starts_range:
  assumes "chain bs pr p L" "x \<in> free_starts p L"
  shows "p \<le> x" "unat x + 16 \<le> unat (ends p L)"
proof -
  obtain n where "(x, n) \<in> blocks False p L" using assms(2) by (auto simp: free_starts_iff)
  then show "p \<le> x" "unat x + 16 \<le> unat (ends p L)"
    using blocks_range [OF assms(1)] by (fastforce simp: word_le_nat_alt)+
qed

lemma first_free_cases:
  "chain bs pr p L \<Longrightarrow> first_free p L = ends p L \<and> free_starts p L = {} \<or>
   first_free p L \<in> free_starts p L \<and> (\<forall>q \<in> free_starts p L. first_free p L \<le> q)"
proof (induction L arbitrary: pr p)
  case (Cons b L)
  show ?case
  proof (cases "snd b")
    case False
    then show ?thesis using free_starts_range(1) [OF Cons.prems] by auto
  next
    case True
    then show ?thesis using Cons.IH [of p "fst b"] Cons.prems by simp
  qed
qed simp

fun search_layout :: "u32 \<Rightarrow> u32 \<Rightarrow> u32 \<Rightarrow> layout \<Rightarrow> u32 option" where
  "search_layout lim sz p [] = None"
| "search_layout lim sz p (b # L) =
     (if p < lim then if \<not> snd b \<and> sz \<le> fst b - (p + 12) then Some p else search_layout lim sz (fst b) L else None)"

lemma malloc_search_ok:
  assumes "tail (heap_bytes h) (heap_end h) pr p L" "length L < k"
    and "mem_size_aligned h + 12 = heap_end h" "sz \<le> mem_size_aligned h" "12 \<le> heap_end h"
  shows "malloc_search k h sz p = Inr (search_layout (mem_size_aligned h - sz) sz p L)"
  using assms(1,2)
proof (induction k arbitrary: pr p L)
  case (Suc k)
  have ld: "load h p = Inr (header_at (heap_bytes h) p)" by (rule load_in) (use tail_range [OF Suc.prems(1)] in simp)
  show ?case
  proof (cases L)
    case Nil
    have "mem_size_aligned h = heap_end h - 12" using assms(3) by (metis add_diff_cancel_right')
    then have "unat (mem_size_aligned h) \<le> unat (heap_end h)" using assms(5) by (simp add: unat_sub word_le_nat_alt)
    moreover have "unat (mem_size_aligned h - sz) \<le> unat (mem_size_aligned h)" using assms(4) by (simp add: unat_sub)
    ultimately have "\<not> p < mem_size_aligned h - sz" using Nil Suc.prems(1) by (simp add: word_less_nat_alt)
    then show ?thesis using Nil by simp
  next
    case (Cons b M)
    then have t: "tail (heap_bytes h) (heap_end h) p (fst b) M" "header_at (heap_bytes h) p = block_header pr b"
      using Suc.prems(1) by auto
    then show ?thesis
      using ld Suc.IH [OF t(1)] Suc.prems(2) Cons by (cases b) (auto simp: SIZEOF_STRUCT_MEM_def)
  qed
qed simp

text \<open>The walk finds the first block that fits; what it passes over, and what it does not reach, is known.\<close>

lemma search_layout_Some:
  "chain bs pr p L \<Longrightarrow> search_layout lim sz p L = Some q \<Longrightarrow>
   (\<exists>n. (q, n) \<in> blocks False p L \<and> sz \<le> n - (q + 12)) \<and> q < lim \<and>
   (\<forall>(x, y) \<in> blocks False p L. unat x < unat q \<longrightarrow> y - (x + 12) < sz)"
proof (induction L arbitrary: pr p)
  case (Cons b L)
  show ?case
  proof (cases "\<not> snd b \<and> sz \<le> fst b - (p + 12)")
    case True
    then have q: "q = p" "p < lim" using Cons.prems(2) by (auto split: if_splits)
    have "unat p \<le> unat x" if "(x, y) \<in> blocks False p (b # L)" for x y
      using blocks_range(1) [OF Cons.prems(1) that] .
    then show ?thesis using True q by auto (meson not_less)
  next
    case False
    then have "search_layout lim sz (fst b) L = Some q" using Cons.prems(2) by (auto split: if_splits)
    then show ?thesis using Cons.IH [of p "fst b"] Cons.prems(1) False by auto
  qed
qed simp

lemma search_layout_None:
  "chain bs pr p L \<Longrightarrow> search_layout lim sz p L = None \<Longrightarrow> (x, y) \<in> blocks False p L \<Longrightarrow> x < lim \<Longrightarrow> y - (x + 12) < sz"
proof (induction L arbitrary: pr p)
  case (Cons b L)
  have "unat p \<le> unat x" using blocks_range(1) [OF Cons.prems(1,3)] .
  then have "p < lim" using Cons.prems(4) by (simp add: word_less_nat_alt)
  then have "search_layout lim sz (fst b) L = None" "snd b \<or> fst b - (p + 12) < sz"
    using Cons.prems(2) by (auto split: if_splits)
  then show ?case using Cons.IH [of p "fst b"] Cons.prems by (auto split: if_splits)
qed simp

section \<open>Merging with the neighbours\<close>

text \<open>The state after a merge of the block at \<open>p\<close> with the free block at \<open>n\<close> behind it, which ends at \<open>m\<close>.\<close>

definition merged :: "heap \<Rightarrow> heap \<Rightarrow> layout \<Rightarrow> layout \<Rightarrow> bool" where
  "merged h h' L L' \<longleftrightarrow> heap_chain h' L' \<and> allocated L' = allocated L \<and> used_bytes 0 L' = used_bytes 0 L \<and>
     data_kept (allocated L) h h' \<and> same_heap h h' \<and> used_mem h' = used_mem h \<and> max_mem h' = max_mem h \<and>
     (lfree_ok h L \<longrightarrow> lfree_ok h' L') \<and> (lfree_lowest h L \<longrightarrow> lfree_lowest h' L')"

lemma merged_refl: "heap_chain h L \<Longrightarrow> merged h h L L"
  by (simp add: merged_def)

lemma merged_trans: "merged h h1 L L1 \<Longrightarrow> merged h1 h2 L1 L2 \<Longrightarrow> merged h h2 L L2"
  using data_kept_trans same_heap_trans unfolding merged_def by metis

lemma merge_ok:
  assumes ch: "heap_chain h (L1 @ (n, False) # (m, False) # L2)" and p: "p = ends 0 L1"
  shows "\<exists>h'. (let h = (if lfree h = n then h\<lparr>lfree := p\<rparr> else h)
      in rbind (modify p (\<lambda>x. x\<lparr>mem_next := m\<rparr>) h) (modify m (\<lambda>x. x\<lparr>mem_prev := p\<rparr>))) = Inr h' \<and>
    merged h h' (L1 @ (n, False) # (m, False) # L2) (L1 @ (m, False) # L2)"
proof -
  let ?h = "if lfree h = n then h\<lparr>lfree := p\<rparr> else h"
  have ch': "heap_chain ?h (L1 @ (n, False) # (m, False) # L2)" using ch by (simp add: heap_chain_def)
  obtain h' where h': "rbind (modify p (\<lambda>x. x\<lparr>mem_next := m\<rparr>) ?h) (modify m (\<lambda>x. x\<lparr>mem_prev := p\<rparr>)) = Inr h'"
      "heap_chain h' (L1 @ (m, False) # L2)" "data_kept (allocated (L1 @ (m, False) # L2)) ?h h'"
      "h' = ?h\<lparr>heap_bytes := heap_bytes h'\<rparr>" "same_heap ?h h'"
    using merge_step [OF ch' p] by blast
  have f: "lfree h' = (if lfree h = n then p else lfree h)" "heap_end h' = heap_end h" "used_mem h' = used_mem h"
      "max_mem h' = max_mem h"
    using arg_cong [OF h'(4), of lfree] arg_cong [OF h'(4), of heap_end] arg_cong [OF h'(4), of used_mem]
      arg_cong [OF h'(4), of max_mem] by simp_all
  have "p < n" using heap_chain_at(2) [OF ch p] by (simp add: word_less_nat_alt)
  then have le: "lfree h' \<le> lfree h" using f(1) by auto
  have "allocated (L1 @ (m, False) # L2) = allocated (L1 @ (n, False) # (m, False) # L2)" by simp
  moreover have "data_kept (allocated (L1 @ (n, False) # (m, False) # L2)) h h'"
    using h'(3) by (cases "lfree h = n") (simp_all add: data_kept_def)
  moreover have "same_heap h h'" using h'(5) by (auto simp: same_heap_def)
  moreover have "lfree_ok h' (L1 @ (m, False) # L2)" if "lfree_ok h (L1 @ (n, False) # (m, False) # L2)"
    using that f p by (auto simp: lfree_ok_def)
  moreover have "lfree_lowest h' (L1 @ (m, False) # L2)" if "lfree_lowest h (L1 @ (n, False) # (m, False) # L2)"
    using that le p by (auto simp: lfree_lowest_def intro: order_trans)
  ultimately show ?thesis using h'(1,2) f by (auto simp: merged_def Let_def)
qed

definition merge_next :: "u32 \<Rightarrow> layout \<Rightarrow> layout" where
  "merge_next n L = (case L of (m, False) # M \<Rightarrow> (m, False) # M | _ \<Rightarrow> (n, False) # L)"

definition merge_layout :: "layout \<Rightarrow> u32 \<Rightarrow> layout \<Rightarrow> layout" where
  "merge_layout L1 n L2 = (if L1 \<noteq> [] \<and> \<not> snd (last L1) then butlast L1 else L1) @ merge_next n L2"

lemma merge_layout_no_adjacent:
  assumes "no_adjacent L1" "no_adjacent L2"
  shows "no_adjacent (merge_layout L1 n L2)"
proof -
  have n: "no_adjacent (merge_next n L2)"
    using assms(2) by (auto simp: merge_next_def no_adjacent_Cons split: list.splits bool.splits prod.splits)
  show ?thesis
  proof (cases "L1 \<noteq> [] \<and> \<not> snd (last L1)")
    case True
    then have "L1 = butlast L1 @ [last L1]" by simp
    then have "no_adjacent (butlast L1)" "butlast L1 = [] \<or> snd (last (butlast L1))"
      using assms(1) True no_adjacent_append [of "butlast L1" "[last L1]"] by auto
    then show ?thesis using True n unfolding merge_layout_def no_adjacent_append by auto
  qed (use n assms(1) in \<open>auto simp: merge_layout_def no_adjacent_append\<close>)
qed

lemma plug_holes_ok:
  assumes ch: "heap_chain h (L1 @ (n, False) # L2)" and p: "p = ends 0 L1"
  shows "\<exists>h'. plug_holes p h = Inr h' \<and> merged h h' (L1 @ (n, False) # L2) (merge_layout L1 n L2)"
proof -
  let ?L = "L1 @ (n, False) # L2"
  note a = heap_chain_at [OF ch p, simplified]
  have pn: "p < n" "p < heap_end h" "p \<noteq> n" using a(2,4) by (auto simp: word_less_nat_alt)
  have ld: "load h p = Inr (block_header (last_start 0 0 L1) (n, False))" "load h n = Inr (header_at (heap_bytes h) n)"
    using a(1,3,8) by (simp_all add: load_in)
  obtain h1 n1 M where h1: "plug_forward p n (header_at (heap_bytes h) n) h = Inr h1" "merge_next n L2 = (n1, False) # M"
      "merged h h1 ?L (L1 @ (n1, False) # M)"
  proof (cases "\<exists>m M. L2 = (m, False) # M")
    case True
    then obtain m M where L2: "L2 = (m, False) # M" by blast
    have nb: "header_at (heap_bytes h) n = block_header p (m, False)" "n \<noteq> heap_end h"
      using a(7) L2 tail_range [of "heap_bytes h" "heap_end h" n m M] by auto
    obtain h' where "(let h = (if lfree h = n then h\<lparr>lfree := p\<rparr> else h)
      in rbind (modify p (\<lambda>x. x\<lparr>mem_next := m\<rparr>) h) (modify m (\<lambda>x. x\<lparr>mem_prev := p\<rparr>))) = Inr h'"
      "merged h h' ?L (L1 @ (m, False) # M)"
      using merge_ok [of h L1 n m M p] ch p L2 by blast
    then show ?thesis using that [of h' m M] nb pn L2 by (simp add: merge_next_def plug_forward_def)
  next
    case False
    have "used (header_at (heap_bytes h) n) \<noteq> 0 \<or> n = heap_end h"
    proof (cases L2)
      case (Cons b M)
      then show ?thesis using a(7) False by (cases b) auto
    qed (use a(7) in simp)
    moreover have "merge_next n L2 = (n, False) # L2" using False by (auto simp: merge_next_def split: list.splits bool.splits)
    ultimately show ?thesis using that [of h n L2] merged_refl [OF ch] by (auto simp: plug_forward_def)
  qed
  have ch1: "heap_chain h1 (L1 @ (n1, False) # M)" using h1(3) by (simp add: merged_def)
  note b = heap_chain_at [OF ch1 p, simplified]
  have ld1: "load h1 p = Inr (block_header (last_start 0 0 L1) (n1, False))" using b(1,3) by (simp add: load_in)
  let ?q = "last_start 0 0 L1"
  have eq: "plug_holes p h = rbind (load h1 ?q) (\<lambda>pmem.
           if ?q \<noteq> p \<and> used pmem = 0 then
             let h = (if lfree h1 = p then h1\<lparr>lfree := ?q\<rparr> else h1)
             in rbind (modify ?q (\<lambda>m. m\<lparr>mem_next := n1\<rparr>) h) (modify n1 (\<lambda>m. m\<lparr>mem_prev := ?q\<rparr>))
           else Inr h1)"
    using pn ld h1(1) ld1 by (simp add: plug_holes_def plug_backward_def Let_def cong: if_cong)
  show ?thesis
  proof (cases L1 rule: rev_cases)
    case Nil
    then show ?thesis using eq h1(2,3) p ld1 by (simp add: merge_layout_def)
  next
    case (snoc L0 c)
    have q: "?q = ends 0 L0" "fst c = p" using snoc p by auto
    have c: "heap_chain h1 (L0 @ c # (n1, False) # M)" using ch1 snoc by simp
    note d = heap_chain_at [OF c q(1)]
    have ldq: "load h1 ?q = Inr (block_header (last_start 0 0 L0) c)" using d(1,3) by (simp add: load_in)
    have ne: "?q \<noteq> p" using d(2) q(2) by auto
    show ?thesis
    proof (cases "snd c")
      case True
      then show ?thesis using eq h1(2,3) ldq ne snoc by (cases c) (simp add: merge_layout_def)
    next
      case False
      then have cc: "c = (p, False)" using q(2) by (cases c) simp
      obtain h' where h': "(let h = (if lfree h1 = p then h1\<lparr>lfree := ?q\<rparr> else h1)
          in rbind (modify ?q (\<lambda>x. x\<lparr>mem_next := n1\<rparr>) h) (modify n1 (\<lambda>x. x\<lparr>mem_prev := ?q\<rparr>))) = Inr h'"
          "merged h1 h' (L0 @ (p, False) # (n1, False) # M) (L0 @ (n1, False) # M)"
        using merge_ok [of h1 L0 p n1 M ?q] c cc q(1) by blast
      have "merged h h' ?L (L0 @ (n1, False) # M)" using merged_trans [OF h1(3)] h'(2) snoc cc by simp
      moreover have "merge_layout L1 n L2 = L0 @ (n1, False) # M" using snoc cc h1(2) by (simp add: merge_layout_def)
      ultimately show ?thesis using eq h'(1) ldq ne cc by simp
    qed
  qed
qed

end
