(* ===== verification/Heap_Properties.thy ===== *)
theory Heap_Properties
  imports Heap_Blocks
begin

text \<open>
  The operations of the heap on its layout, and their properties: allocated blocks do not overlap and
  keep their bytes, the walk finds the first block that fits, and a release undoes an allocation.
\<close>

section \<open>Sizes and alignment\<close>

lemma and_not_3: "(x :: u32) AND NOT 3 = push_bit 2 (drop_bit 2 x)"
proof (rule bit_word_eqI)
  fix n assume n: "n < LENGTH(32)"
  have "(3 :: u32) = mask 2" by (simp add: mask_eq_exp_minus_1)
  then have "bit (3 :: u32) n = (n < 2)" using n by (simp only: bit_mask_iff) simp
  moreover have "2 + (n - 2) = n" if "\<not> n < 2" using that by simp
  ultimately show "bit (x AND NOT 3) n = bit (push_bit 2 (drop_bit 2 x)) n" using n by (auto simp: bit_simps)
qed

lemma unat_and_not_3: "unat ((x :: u32) AND NOT 3) = unat x div 4 * 4"
proof -
  have "unat x div 4 * 4 < 2 ^ 32" using unsigned_less [of x, where ?'a = nat] by simp
  then have "unat (x div 4 * 4) = unat x div 4 * 4" by (simp add: unat_word_ariths unat_div)
  moreover have "push_bit 2 (drop_bit 2 x) = x div 4 * 4" by (simp add: push_bit_eq_mult drop_bit_eq_div)
  ultimately show ?thesis unfolding and_not_3 by simp
qed

lemma unat_align4: "unat n + 3 < 2 ^ 32 \<Longrightarrow> unat (align4 n) = (unat n + 3) div 4 * 4"
  unfolding align4_def unat_and_not_3 by (simp add: unat_word_ariths)

lemma align4_wraps:
  assumes "0xfffffffc < n"
  shows "align4 n = 0"
proof -
  have "0xfffffffd \<le> unat n" using assms by (simp add: word_less_nat_alt)
  moreover have "unat n < 2 ^ 32" using unsigned_less [of n] by simp
  ultimately have "(unat n + 3) mod 2 ^ 32 = unat n + 3 - 2 ^ 32" by (simp add: mod_if)
  then have "unat (n + 3) = unat n + 3 - 2 ^ 32" by (simp add: unat_word_ariths)
  then have "unat (align4 n) = 0" unfolding align4_def unat_and_not_3 using \<open>unat n < 2 ^ 32\<close> by simp
  then show ?thesis by (simp add: unat_eq_0)
qed

lemma aligned_word:
  assumes "4 dvd unat (x :: u32)"
  shows "x mod 4 = 0" "x AND 3 = 0"
proof -
  show m: "x mod 4 = 0" using assms by (simp add: word_arith_nat_mod mod_eq_0_iff_dvd)
  have "(3 :: u32) = mask 2" by (simp add: mask_eq_exp_minus_1)
  then have "x AND 3 = take_bit 2 x" by (simp only: take_bit_eq_mask)
  also have "\<dots> = x mod 4" by (simp add: take_bit_eq_mod)
  finally show "x AND 3 = 0" using m by simp
qed

lemma unat_add_small: "unat (a :: u32) + unat b < 2 ^ 32 \<Longrightarrow> unat (a + b) = unat a + unat b"
  by (simp add: unat_word_ariths)

lemma room_of:
  assumes "unat p + 16 \<le> unat (n :: u32)"
  shows "unat (n - (p + 12)) = unat n - unat p - 12" "unat (n - p - 12) = unat n - unat p - 12" "unat (n - p) = unat n - unat p"
proof -
  have "unat n < 2 ^ 32" using unsigned_less [of n] by simp
  then have p: "unat (p + 12) = unat p + 12" using assms by (simp add: unat_word_ariths)
  then show r: "unat (n - (p + 12)) = unat n - unat p - 12" using assms by (simp add: unat_sub word_le_nat_alt)
  show "unat (n - p - 12) = unat n - unat p - 12" using r by (simp only: diff_diff_eq)
  show "unat (n - p) = unat n - unat p" using assms by (simp add: unat_sub word_le_nat_alt)
qed

lemma ends_aligned: "chain bs pr p L \<Longrightarrow> 4 dvd unat p \<Longrightarrow> 4 dvd unat (ends p L)"
  by (induction L arbitrary: pr p) auto

section \<open>Taking a block\<close>

text \<open>The layout when the free block between \<open>L1\<close> and \<open>L2\<close>, from \<open>p\<close> to \<open>n\<close>, is taken for \<open>sz\<close> bytes.\<close>

definition take_layout :: "layout \<Rightarrow> u32 \<Rightarrow> u32 \<Rightarrow> u32 \<Rightarrow> layout \<Rightarrow> layout" where
  "take_layout L1 p n sz L2 =
     (if unat p + unat sz + 36 \<le> unat n then L1 @ (p + 12 + sz, True) # (n, False) # L2 else L1 @ (n, True) # L2)"

definition take_end :: "u32 \<Rightarrow> u32 \<Rightarrow> u32 \<Rightarrow> u32" where
  "take_end p n sz = (if unat p + unat sz + 36 \<le> unat n then p + 12 + sz else n)"

lemma lfree_update:
  assumes inv: "heap_chain h (L1 @ (r, True) # L2)" and p: "p = ends 0 L1"
    and ok: "lfree h = heap_end h \<or> lfree h = p \<or> lfree h \<in> free_starts 0 (L1 @ (r, True) # L2)"
  shows "\<exists>q. (if p = lfree h then rbind (lfree_walk (length (heap_bytes h)) h (lfree h)) (\<lambda>q. Inr (h\<lparr>lfree := q\<rparr>)) else Inr h)
      = Inr (h\<lparr>lfree := q\<rparr>) \<and> lfree_ok (h\<lparr>lfree := q\<rparr>) (L1 @ (r, True) # L2) \<and>
    ((\<forall>x \<in> free_starts 0 L1. lfree h \<le> x) \<longrightarrow> (\<forall>x \<in> free_starts p ((r, True) # L2). p = lfree h \<or> lfree h \<le> x) \<longrightarrow>
     lfree_lowest (h\<lparr>lfree := q\<rparr>) (L1 @ (r, True) # L2))"
proof (cases "p = lfree h")
  case True
  let ?S = "(r, True) # L2" and ?q = "first_free p ((r, True) # L2)"
  have t: "tail (heap_bytes h) (heap_end h) (last_start 0 0 L1) p ?S" "chain (heap_bytes h) 0 0 L1"
    using heap_chainD(1) [OF inv] p by (simp_all add: tail_append)
  have "chain (heap_bytes h) 0 0 (L1 @ ?S)" "ends 0 (L1 @ ?S) = heap_end h" using heap_chainD [OF inv] by blast+
  then have "16 * length (L1 @ ?S) \<le> unat (heap_end h)" using chain_length by fastforce
  then have "length ?S < length (heap_bytes h)" using heap_chainD(3) [OF inv] by simp
  then have walk: "lfree_walk (length (heap_bytes h)) h p = Inr ?q" by (rule lfree_walk_ok [OF t(1)])
  have c: "chain (heap_bytes h) (last_start 0 0 L1) p ?S" "ends p ?S = heap_end h" using t(1) by (auto simp: tail_def)
  note f = first_free_cases [OF c(1)]
  have "lfree_ok (h\<lparr>lfree := ?q\<rparr>) (L1 @ ?S)" using f c(2) p unfolding lfree_ok_def by auto
  moreover have "lfree_lowest (h\<lparr>lfree := ?q\<rparr>) (L1 @ ?S)" if "\<forall>x \<in> free_starts 0 L1. lfree h \<le> x"
  proof -
    have "free_starts 0 L1 = {}"
    proof (rule ccontr)
      assume "free_starts 0 L1 \<noteq> {}"
      then obtain x where x: "x \<in> free_starts 0 L1" by blast
      then have "unat x + 16 \<le> unat p" using free_starts_range(2) [OF t(2)] p by simp
      moreover have "unat p \<le> unat x" using that x True by (simp add: word_le_nat_alt)
      ultimately show False by simp
    qed
    moreover have "?q \<le> x" if "x \<in> free_starts p ?S" for x using that f by auto
    ultimately show ?thesis using p by (simp add: lfree_lowest_def)
  qed
  ultimately show ?thesis using walk True by auto
next
  case False
  then have "lfree_ok h (L1 @ (r, True) # L2)" using ok by (auto simp: lfree_ok_def)
  moreover have "h\<lparr>lfree := lfree h\<rparr> = h" by simp
  moreover have "lfree_lowest h (L1 @ (r, True) # L2)"
    if "\<forall>x \<in> free_starts 0 L1. lfree h \<le> x" "\<forall>x \<in> free_starts p ((r, True) # L2). p = lfree h \<or> lfree h \<le> x"
    using that False p by (auto simp: lfree_lowest_def)
  ultimately show ?thesis using False by metis
qed

lemma heap_invD:
  assumes "heap_inv h L"
  shows "heap_chain h L" "no_adjacent L" "lfree_ok h L" "used_mem h = used_bytes 0 L"
  using assms by (auto simp: heap_inv_def)

lemma take_end_bounds:
  assumes "unat p + 16 \<le> unat n" "12 \<le> sz" "sz \<le> n - (p + 12)"
  shows "unat p + 12 + unat sz \<le> unat (take_end p n sz)" "unat (take_end p n sz) \<le> unat n" "unat p + 16 \<le> unat (take_end p n sz)"
    "unat p + unat sz + 36 \<le> unat n \<Longrightarrow> unat (p + 12 + sz) = unat p + 12 + unat sz"
proof -
  have sz: "unat sz \<le> unat n - unat p - 12" "12 \<le> unat sz" using assms(2,3) room_of(1) [OF assms(1)] by (simp_all add: word_le_nat_alt)
  have "unat n < 2 ^ 32" using unsigned_less [of n] by simp
  then have p2: "unat (p + 12 + sz) = unat p + 12 + unat sz" if "unat p + unat sz + 36 \<le> unat n"
    using that by (simp add: unat_word_ariths)
  then show "unat p + unat sz + 36 \<le> unat n \<Longrightarrow> unat (p + 12 + sz) = unat p + 12 + unat sz" by simp
  show "unat p + 12 + unat sz \<le> unat (take_end p n sz)" "unat (take_end p n sz) \<le> unat n" "unat p + 16 \<le> unat (take_end p n sz)"
    using sz assms(1) p2 by (auto simp: take_end_def)
qed

lemma malloc_cut_ok:
  assumes ch: "heap_chain h (L1 @ (n, False) # L2)" and p: "p = ends 0 L1" and sz: "12 \<le> sz" "4 dvd unat sz" "sz \<le> n - (p + 12)"
  shows "\<exists>h1. malloc_cut p sz h = Inr h1 \<and>
    heap_chain h1 (take_layout L1 p n sz L2) \<and> data_kept (blocks True 0 L1 \<union> {(p, take_end p n sz)} \<union> blocks True n L2) h h1 \<and>
    same_heap h h1 \<and> lfree h1 = lfree h \<and> used_mem h1 = used_mem h + (take_end p n sz - p)"
proof -
  note a = heap_chain_at [OF ch p, simplified]
  note t = take_end_bounds [OF a(2) sz(1,3)]
  have room: "unat (n - (p + 12)) = unat n - unat p - 12" using room_of(1) [OF a(2)] .
  have szn: "unat sz \<le> unat n - unat p - 12" using sz(3) room by (simp add: word_le_nat_alt)
  have "unat n + 12 < 2 ^ 32" using a(4) heap_chainD(4) [OF ch] by simp
  then have "unat sz + 24 < 2 ^ 32" using szn a(2) by simp
  then have "unat (sz + 12 + 12) = unat sz + 24" by (simp add: unat_word_ariths)
  then have big: "sz + SIZEOF_STRUCT_MEM + MIN_SIZE_ALIGNED \<le> n - (p + SIZEOF_STRUCT_MEM) \<longleftrightarrow> unat p + unat sz + 36 \<le> unat n"
    using room a(2) by (auto simp: SIZEOF_STRUCT_MEM_def MIN_SIZE_ALIGNED_def word_le_nat_alt)
  have ld: "load h p = Inr (block_header (last_start 0 0 L1) (n, False))" using a(1,3) by (simp add: load_in)
  let ?A = "blocks True 0 L1 \<union> {(p, take_end p n sz)} \<union> blocks True n L2"
  have al: "4 dvd unat p" using ends_aligned [OF a(6)] p by simp
  obtain h1 where h1: "rbind (if n - (p + SIZEOF_STRUCT_MEM) \<ge> sz + SIZEOF_STRUCT_MEM + MIN_SIZE_ALIGNED then
              let p2 = p + SIZEOF_STRUCT_MEM + sz
              in rbind (split_off p p2 n (\<lambda>m. m\<lparr>mem_next := p2, used := 1\<rparr>) h) (\<lambda>h.
                 Inr (count_used (sz + SIZEOF_STRUCT_MEM) h))
            else
              rbind (modify p (\<lambda>m. m\<lparr>used := 1\<rparr>) h) (\<lambda>h. Inr (count_used (n - p) h))) (modify p (\<lambda>m. m\<lparr>magic := HEAP_MAGIC\<rparr>)) = Inr h1"
      "heap_chain h1 (take_layout L1 p n sz L2)" "data_kept ?A h h1" "same_heap h h1" "lfree h1 = lfree h"
      "used_mem h1 = used_mem h + (take_end p n sz - p)"
  proof (cases "unat p + unat sz + 36 \<le> unat n")
    case True
    let ?p2 = "p + 12 + sz"
    have p2: "unat ?p2 = unat p + 12 + unat sz" using t(4) [OF True] .
    have e: "take_end p n sz = ?p2" "take_layout L1 p n sz L2 = L1 @ (?p2, True) # (n, False) # L2"
      using True by (simp_all add: take_end_def take_layout_def)
    have "unat p + 16 \<le> unat ?p2" "unat ?p2 + 16 \<le> unat n" "4 dvd unat ?p2" using p2 True sz(1,2) al by (auto simp: word_le_nat_alt)
    then obtain h' where h': "split_off p ?p2 n (\<lambda>m. m\<lparr>mem_next := ?p2, used := 1\<rparr>) h = Inr h'"
        "heap_chain h' (L1 @ (?p2, True) # (n, False) # L2)" "data_kept ?A h h'" "h' = h\<lparr>heap_bytes := heap_bytes h'\<rparr>" "same_heap h h'"
      using split_step [OF ch p, of ?p2 "\<lambda>m. m\<lparr>mem_next := ?p2, used := 1\<rparr>"] e by (auto simp: block_header_def)
    let ?h = "count_used (sz + 12) h'"
    have f: "heap_bytes ?h = heap_bytes h'" "same_heap h' ?h" "lfree ?h = lfree h'" "used_mem ?h = used_mem h' + (sz + 12)"
      by (simp_all add: count_used_def same_heap_def Let_def)
    have ch2: "heap_chain ?h (L1 @ (?p2, True) # (n, False) # L2)"
      using h'(2) heap_chain_cong [of ?h h'] by (simp add: count_used_def Let_def)
    obtain h1 where h1: "modify p (\<lambda>m. m\<lparr>magic := HEAP_MAGIC\<rparr>) ?h = Inr h1" "heap_chain h1 (L1 @ (?p2, True) # (n, False) # L2)"
        "data_kept (blocks True 0 (L1 @ (?p2, True) # (n, False) # L2)) ?h h1" "h1 = ?h\<lparr>heap_bytes := heap_bytes h1\<rparr>" "same_heap ?h h1"
      using mark_step [OF ch2 p, of "(?p2, True)" "\<lambda>m. m\<lparr>magic := HEAP_MAGIC\<rparr>"] unfolding block_header_simps by blast
    have "blocks True 0 (L1 @ (?p2, True) # (n, False) # L2) = ?A" using e p by auto
    then have "data_kept ?A ?h h1" using h1(3) by simp
    then have "data_kept ?A h' h1" using f(1) by (simp add: data_kept_def)
    then have "data_kept ?A h h1" by (rule data_kept_trans [OF h'(3)])
    moreover have "same_heap h h1" using h'(5) f(2) h1(5) same_heap_trans by blast
    moreover have "lfree h1 = lfree h" "used_mem h1 = used_mem h + (?p2 - p)"
      using arg_cong [OF h1(4), of lfree] arg_cong [OF h'(4), of lfree] arg_cong [OF h1(4), of used_mem] arg_cong [OF h'(4), of used_mem] f
      by (simp_all add: algebra_simps)
    ultimately show ?thesis
      using that [of h1] h1(1,2) h'(1) big True e by (simp add: SIZEOF_STRUCT_MEM_def Let_def)
  next
    case False
    have e: "take_end p n sz = n" "take_layout L1 p n sz L2 = L1 @ (n, True) # L2"
      using False by (simp_all add: take_end_def take_layout_def)
    obtain h' where h': "modify p (\<lambda>m. m\<lparr>used := 1\<rparr>) h = Inr h'" "heap_chain h' (L1 @ (n, True) # L2)"
        "h' = h\<lparr>heap_bytes := heap_bytes h'\<rparr>" "same_heap h h'" "\<forall>u. data_kept (blocks u 0 (L1 @ (n, False) # L2)) h h'"
      using mark_step [OF ch p, of "(n, True)" "\<lambda>m. m\<lparr>used := 1\<rparr>"] unfolding fst_conv block_header_simps by blast
    let ?h = "count_used (n - p) h'"
    have f: "heap_bytes ?h = heap_bytes h'" "same_heap h' ?h" "lfree ?h = lfree h'" "used_mem ?h = used_mem h' + (n - p)"
      by (simp_all add: count_used_def same_heap_def Let_def)
    have ch2: "heap_chain ?h (L1 @ (n, True) # L2)"
      using h'(2) heap_chain_cong [of ?h h'] by (simp add: count_used_def Let_def)
    obtain h1 where h1: "modify p (\<lambda>m. m\<lparr>magic := HEAP_MAGIC\<rparr>) ?h = Inr h1" "heap_chain h1 (L1 @ (n, True) # L2)"
        "data_kept (blocks True 0 (L1 @ (n, True) # L2)) ?h h1" "h1 = ?h\<lparr>heap_bytes := heap_bytes h1\<rparr>" "same_heap ?h h1"
      using mark_step [OF ch2 p, of "(n, True)" "\<lambda>m. m\<lparr>magic := HEAP_MAGIC\<rparr>"] unfolding block_header_simps by blast
    have "?A \<subseteq> blocks True 0 (L1 @ (n, False) # L2) \<union> blocks False 0 (L1 @ (n, False) # L2)" using p e by auto
    then have kept: "data_kept ?A h h'" using h'(5) [rule_format, of True] h'(5) [rule_format, of False] unfolding data_kept_def by blast
    have "blocks True 0 (L1 @ (n, True) # L2) = ?A" using e p by auto
    then have "data_kept ?A ?h h1" using h1(3) by simp
    then have "data_kept ?A h' h1" using f(1) by (simp add: data_kept_def)
    then have "data_kept ?A h h1" by (rule data_kept_trans [OF kept])
    moreover have "same_heap h h1" using h'(4) f(2) h1(5) same_heap_trans by blast
    moreover have "lfree h1 = lfree h" "used_mem h1 = used_mem h + (n - p)"
      using arg_cong [OF h1(4), of lfree] arg_cong [OF h'(3), of lfree] arg_cong [OF h1(4), of used_mem] arg_cong [OF h'(3), of used_mem] f
      by simp_all
    ultimately show ?thesis
      using that [of h1] h1(1,2) h'(1) big False e by simp
  qed
  have "malloc_cut p sz h = Inr h1" unfolding malloc_cut_def ld rbind_Inr block_header_simps fst_conv by (rule h1(1))
  then show ?thesis using h1(2-) by blast
qed

lemma take_layout_facts:
  assumes p: "p = ends 0 L1"
  shows "allocated (take_layout L1 p n sz L2) = insert (p, take_end p n sz) (allocated (L1 @ (n, False) # L2))"
    "free_starts 0 (take_layout L1 p n sz L2) \<subseteq> free_starts 0 L1 \<union> {p + 12 + sz} \<union> free_starts n L2"
    "free_starts 0 (L1 @ (n, False) # L2) \<subseteq> insert p (free_starts 0 (take_layout L1 p n sz L2))"
    "no_adjacent (L1 @ (n, False) # L2) \<Longrightarrow> no_adjacent (take_layout L1 p n sz L2)"
    "used_bytes 0 (take_layout L1 p n sz L2) = used_bytes 0 (L1 @ (n, False) # L2) + (take_end p n sz - p)"
  by (auto simp: take_layout_def take_end_def p no_adjacent_append no_adjacent_Cons)

lemma malloc_take_ok:
  assumes inv: "heap_inv h (L1 @ (n, False) # L2)" and p: "p = ends 0 L1"
    and sz: "12 \<le> sz" "4 dvd unat sz" "sz \<le> n - (p + 12)"
  shows "\<exists>h'. malloc_take p sz h = Inr h' \<and> heap_inv h' (take_layout L1 p n sz L2) \<and>
    data_kept (allocated (L1 @ (n, False) # L2)) h h' \<and> data_kept {(p, take_end p n sz)} h h' \<and> same_heap h h' \<and>
    (lfree_lowest h (L1 @ (n, False) # L2) \<longrightarrow> lfree_lowest h' (take_layout L1 p n sz L2))"
proof -
  let ?L = "L1 @ (n, False) # L2" and ?L' = "take_layout L1 p n sz L2"
  note i = heap_invD [OF inv]
  note a = heap_chain_at [OF i(1) p, simplified]
  note f = take_layout_facts [OF p, where n = n and sz = sz and ?L2.0 = L2]
  obtain h1 where h1: "malloc_cut p sz h = Inr h1" "heap_chain h1 ?L'"
      "data_kept (blocks True 0 L1 \<union> {(p, take_end p n sz)} \<union> blocks True n L2) h h1"
      "same_heap h h1" "lfree h1 = lfree h" "used_mem h1 = used_mem h + (take_end p n sz - p)"
    using malloc_cut_ok [OF i(1) p sz] by blast
  have e: "heap_end h1 = heap_end h" using h1(4) by (simp add: same_heap_def)
  have ok: "lfree h1 = heap_end h1 \<or> lfree h1 = p \<or> lfree h1 \<in> free_starts 0 ?L'"
    using i(3) f(3) unfolding h1(5) e lfree_ok_def by blast
  obtain r M where L': "?L' = L1 @ (r, True) # M"
    using that by (cases "unat p + unat sz + 36 \<le> unat n") (auto simp: take_layout_def)
  have "lfree h \<le> x \<or> x = p + 12 + sz" if "lfree_lowest h ?L" "x \<in> free_starts 0 ?L'" for x
  proof -
    have "free_starts 0 L1 \<union> free_starts n L2 \<subseteq> free_starts 0 ?L" using p by auto
    then show ?thesis using that f(2) unfolding lfree_lowest_def by blast
  qed
  moreover have "lfree h \<le> p" if "lfree_lowest h ?L" using that p by (auto simp: lfree_lowest_def)
  moreover have "p \<le> p + 12 + sz"
  proof (cases "unat p + unat sz + 36 \<le> unat n")
    case True
    then show ?thesis using take_end_bounds(4) [OF a(2) sz(1,3)] by (simp add: word_le_nat_alt)
  next
    case False
    have "unat n < 2 ^ 32 - 12" "unat sz \<le> unat n - unat p - 12"
      using a(4) heap_chainD(4) [OF i(1)] sz(3) room_of(1) [OF a(2)] by (auto simp: word_le_nat_alt)
    then have "unat (p + 12 + sz) = unat p + 12 + unat sz" using a(2) by (simp add: unat_word_ariths)
    then show ?thesis by (simp add: word_le_nat_alt)
  qed
  ultimately have lower: "lfree h1 \<le> x" if "lfree_lowest h ?L" "x \<in> free_starts 0 ?L'" for x
    using that h1(5) order_trans by metis
  have low: "\<forall>x \<in> free_starts 0 L1. lfree h1 \<le> x" "\<forall>x \<in> free_starts p ((r, True) # M). p = lfree h1 \<or> lfree h1 \<le> x"
    if "lfree_lowest h ?L"
    using lower [OF that] L' p by auto
  have ch1: "heap_chain h1 (L1 @ (r, True) # M)" using h1(2) unfolding L' .
  obtain q where "(if p = lfree h1 then rbind (lfree_walk (length (heap_bytes h1)) h1 (lfree h1)) (\<lambda>q. Inr (h1\<lparr>lfree := q\<rparr>)) else Inr h1)
      = Inr (h1\<lparr>lfree := q\<rparr>) \<and> lfree_ok (h1\<lparr>lfree := q\<rparr>) ?L' \<and>
      ((\<forall>x \<in> free_starts 0 L1. lfree h1 \<le> x) \<longrightarrow> (\<forall>x \<in> free_starts p ((r, True) # M). p = lfree h1 \<or> lfree h1 \<le> x) \<longrightarrow>
        lfree_lowest (h1\<lparr>lfree := q\<rparr>) ?L')"
    using lfree_update [OF ch1 p ok [unfolded L']] unfolding L' ..
  then have q: "(if p = lfree h1 then rbind (lfree_walk (length (heap_bytes h1)) h1 (lfree h1)) (\<lambda>q. Inr (h1\<lparr>lfree := q\<rparr>)) else Inr h1)
      = Inr (h1\<lparr>lfree := q\<rparr>)" "lfree_ok (h1\<lparr>lfree := q\<rparr>) ?L'" "lfree_lowest h ?L \<Longrightarrow> lfree_lowest (h1\<lparr>lfree := q\<rparr>) ?L'"
    using low by blast+
  have "malloc_take p sz h = Inr (h1\<lparr>lfree := q\<rparr>)" using h1(1) q(1) by (simp add: malloc_take_def)
  moreover have "heap_chain (h1\<lparr>lfree := q\<rparr>) ?L'" using h1(2) heap_chain_cong [of "h1\<lparr>lfree := q\<rparr>" h1] by simp
  then have "heap_inv (h1\<lparr>lfree := q\<rparr>) ?L'" using q(2) f(4,5) i(2,4) h1(6) by (simp add: heap_inv_def)
  moreover have "data_kept (allocated ?L) h (h1\<lparr>lfree := q\<rparr>)" "data_kept {(p, take_end p n sz)} h (h1\<lparr>lfree := q\<rparr>)"
    using h1(3) p by (auto simp: data_kept_def)
  moreover have "same_heap h (h1\<lparr>lfree := q\<rparr>)" using h1(4) by (simp add: same_heap_def)
  ultimately show ?thesis using q(3) by blast
qed

section \<open>The semaphore of the heap\<close>

definition unlocked :: "heap \<Rightarrow> kernel \<Rightarrow> bool" where
  "unlocked h s \<longleftrightarrow> sem_value (heap_sem h) \<noteq> 0 \<and> sem_waiters (heap_sem h) s = []"

definition sem_held :: "heap \<Rightarrow> heap" where
  "sem_held h = h\<lparr>heap_sem := (heap_sem h)\<lparr>sem_value := sem_value (heap_sem h) - 1\<rparr>\<rparr>"

lemma sem_held_simps [simp]:
  "heap_inv (sem_held h) L = heap_inv h L" "lfree_lowest (sem_held h) L = lfree_lowest h L" "heap_bytes (sem_held h) = heap_bytes h"
  "lfree (sem_held h) = lfree h" "heap_ptr (sem_held h) = heap_ptr h" "heap_end (sem_held h) = heap_end h"
  "mem_size_aligned (sem_held h) = mem_size_aligned h" "used_mem (sem_held h) = used_mem h" "max_mem (sem_held h) = max_mem h"
  by (simp_all add: sem_held_def heap_inv_def heap_chain_def lfree_ok_def lfree_lowest_def)

lemma heap_locked_run: "unlocked h s \<Longrightarrow> heap_locked h s f = f (sem_held h) s"
  by (simp add: unlocked_def heap_locked_def rt_sem_take_def sem_held_def word_gt_0)

text \<open>The heap \<open>h'\<close>, in which the semaphore is held, after its release.\<close>

definition sem_freed :: "heap \<Rightarrow> heap \<Rightarrow> heap" where
  "sem_freed h h' = h'\<lparr>heap_sem := heap_sem h\<rparr>"

lemma sem_freed_simps [simp]:
  "heap_inv (sem_freed h h') L = heap_inv h' L" "lfree_lowest (sem_freed h h') L = lfree_lowest h' L"
  "heap_bytes (sem_freed h h') = heap_bytes h'" "lfree (sem_freed h h') = lfree h'" "heap_ptr (sem_freed h h') = heap_ptr h'"
  "heap_end (sem_freed h h') = heap_end h'" "mem_size_aligned (sem_freed h h') = mem_size_aligned h'" "used_mem (sem_freed h h') = used_mem h'"
  "max_mem (sem_freed h h') = max_mem h'" "heap_sem (sem_freed h h') = heap_sem h" "sem_freed h (sem_held h) = h"
  by (simp_all add: sem_freed_def sem_held_def heap_inv_def heap_chain_def lfree_ok_def lfree_lowest_def)

lemma heap_unlock_run:
  assumes "unlocked h s" "heap_sem h' = heap_sem (sem_held h)"
  shows "heap_unlock h' s = Inr (sem_freed h h', s)"
  using assms by (simp add: unlocked_def heap_unlock_def rt_sem_release_def sem_freed_def sem_held_def)

lemma sem_freed_facts:
  assumes "same_heap (sem_held h) h'"
  shows "same_heap h (sem_freed h h')" "data_kept A (sem_held h) h' \<Longrightarrow> data_kept A h (sem_freed h h')"
    "unlocked h s \<Longrightarrow> unlocked (sem_freed h h') s"
  using assms by (auto simp: same_heap_def data_kept_def unlocked_def)

section \<open>Addresses\<close>

text \<open>The address of the data of the block at \<open>p\<close>.\<close>

abbreviation data_addr :: "heap \<Rightarrow> u32 \<Rightarrow> u32" where
  "data_addr h p \<equiv> heap_ptr h + p + 12"

lemma data_addr_facts:
  assumes ch: "heap_chain h L" and b: "(p, n) \<in> blocks u 0 L"
  shows "unat (data_addr h p) = unat (heap_ptr h) + unat p + 12" "data_addr h p \<noteq> 0" "data_addr h p AND 3 = 0"
    "in_heap h (data_addr h p)" "data_addr h p - SIZEOF_STRUCT_MEM - heap_ptr h = p" "4 dvd unat (data_addr h p)"
    "unat p + 16 \<le> unat n" "unat n \<le> unat (heap_end h)"
proof -
  obtain L1 L2 where L: "L = L1 @ (n, u) # L2" "ends 0 L1 = p" using blocks_split [OF b] .
  note a = heap_chain_at [OF ch [unfolded L(1)] refl, simplified, unfolded L(2)]
  have big: "unat (heap_ptr h) + unat (heap_end h) + 12 < 2 ^ 32" "4 dvd unat (heap_ptr h)" using heap_chainD [OF ch] by auto
  have al: "4 dvd unat p" using ends_aligned [OF a(6)] L(2) by simp
  show n: "unat p + 16 \<le> unat n" "unat n \<le> unat (heap_end h)" using a(2,4) by simp_all
  have u: "unat (heap_ptr h + p) = unat (heap_ptr h) + unat p" using n big by (intro unat_add_small) simp
  show u12: "unat (data_addr h p) = unat (heap_ptr h) + unat p + 12"
    using u n big unat_add_small [of "heap_ptr h + p" 12] by simp
  show d: "4 dvd unat (data_addr h p)" using u12 al big(2) by simp
  then show "data_addr h p AND 3 = 0" by (rule aligned_word)
  show "data_addr h p \<noteq> 0" using u12 by auto
  have "unat (heap_ptr h + heap_end h) = unat (heap_ptr h) + unat (heap_end h)" using big by (intro unat_add_small) simp
  then show "in_heap h (data_addr h p)" using u12 n by (simp add: in_heap_def word_le_nat_alt word_less_nat_alt)
  show "data_addr h p - SIZEOF_STRUCT_MEM - heap_ptr h = p" by (simp add: SIZEOF_STRUCT_MEM_def)
qed

section \<open>Allocation\<close>

text \<open>The number of bytes that a request for \<open>sz\<close> bytes looks for.\<close>

definition alloc_size :: "u32 \<Rightarrow> u32" where
  "alloc_size sz = (if align4 sz < MIN_SIZE_ALIGNED then MIN_SIZE_ALIGNED else align4 sz)"

lemma alloc_size_facts:
  assumes "unat sz + 3 < 2 ^ 32"
  shows "12 \<le> alloc_size sz" "4 dvd unat (alloc_size sz)" "unat sz \<le> unat (alloc_size sz)"
proof -
  note u = unat_align4 [OF assms]
  then have "unat sz \<le> unat (align4 sz)" by simp
  then show "12 \<le> alloc_size sz" "unat sz \<le> unat (alloc_size sz)"
    by (auto simp: alloc_size_def MIN_SIZE_ALIGNED_def not_less word_less_nat_alt word_le_nat_alt)
  show "4 dvd unat (alloc_size sz)" using u by (auto simp: alloc_size_def MIN_SIZE_ALIGNED_def)
qed

lemma mem_size_facts:
  assumes "heap_chain h L"
  shows "unat (mem_size_aligned h) + 12 = unat (heap_end h)" "12 \<le> heap_end h" "12 \<le> mem_size_aligned h"
proof -
  note c = heap_chainD [OF assms]
  obtain b M where "L = b # M" using c(5) by (cases L) auto
  then have e: "16 \<le> unat (heap_end h)" using c(7,8) chain_mono [of "heap_bytes h" 0 "fst b" M] by auto
  have m: "mem_size_aligned h = heap_end h - 12" using c(2) by (metis add_diff_cancel_right')
  show u: "unat (mem_size_aligned h) + 12 = unat (heap_end h)" using e by (simp add: m unat_sub word_le_nat_alt)
  show "12 \<le> heap_end h" using e by (simp add: word_le_nat_alt)
  show "12 \<le> mem_size_aligned h" using assms by (simp add: heap_chain_def)
qed

text \<open>Whether the walk stops at the free block from \<open>x\<close> to \<open>y\<close>.\<close>

definition fits :: "heap \<Rightarrow> u32 \<Rightarrow> u32 \<Rightarrow> u32 \<Rightarrow> bool" where
  "fits h sz x y \<longleftrightarrow> x < mem_size_aligned h - sz \<and> sz \<le> y - (x + 12)"

lemma malloc_search_spec:
  assumes inv: "heap_inv h L" and sz: "sz \<le> mem_size_aligned h"
  shows "\<exists>r. malloc_search (Suc (length (heap_bytes h))) h sz (lfree h) = Inr r \<and>
    (case r of
       None \<Rightarrow> \<forall>(x, y) \<in> free L. lfree h \<le> x \<longrightarrow> \<not> fits h sz x y
     | Some p \<Rightarrow> lfree h \<le> p \<and> (\<exists>n. (p, n) \<in> free L \<and> fits h sz p n \<and> (\<forall>(x, y) \<in> free L. lfree h \<le> x \<longrightarrow> x < p \<longrightarrow> \<not> fits h sz x y)))"
proof -
  note i = heap_invD [OF inv]
  note c = heap_chainD [OF i(1)]
  obtain K S where L: "L = K @ S" "lfree h = ends 0 K"
  proof (cases "lfree h = heap_end h")
    case True
    then show ?thesis using that [of L "[]"] c(8) by simp
  next
    case False
    then obtain n where "(lfree h, n) \<in> free L" using i(3) by (auto simp: lfree_ok_def free_starts_iff)
    then show ?thesis using blocks_split [of "lfree h" n False 0 L] that by metis
  qed
  have t: "tail (heap_bytes h) (heap_end h) (last_start 0 0 K) (lfree h) S" "chain (heap_bytes h) 0 0 K"
    using c(1) L by (simp_all add: tail_append)
  have ch: "chain (heap_bytes h) (last_start 0 0 K) (lfree h) S" using t(1) by (simp add: tail_def)
  have "16 * length L \<le> unat (heap_end h)" using chain_length [OF c(7)] c(8) by simp
  then have len: "length S < Suc (length (heap_bytes h))" using c(3) L(1) by simp
  note m = mem_size_facts [OF i(1)]
  have run: "malloc_search (Suc (length (heap_bytes h))) h sz (lfree h)
      = Inr (search_layout (mem_size_aligned h - sz) sz (lfree h) S)"
    by (rule malloc_search_ok [OF t(1) len c(2) sz m(2)])
  have inS: "(x, y) \<in> blocks False (lfree h) S" if "(x, y) \<in> free L" "lfree h \<le> x" for x y
  proof (rule ccontr)
    assume "\<not> ?thesis"
    then have "(x, y) \<in> free K" using that(1) L by auto
    then have "unat x + 16 \<le> unat (lfree h)" using blocks_range(2,3) [OF t(2)] L(2) by fastforce
    then show False using that(2) by (simp add: word_le_nat_alt)
  qed
  show ?thesis
  proof (cases "search_layout (mem_size_aligned h - sz) sz (lfree h) S")
    case None
    have "\<not> fits h sz x y" if "(x, y) \<in> free L" "lfree h \<le> x" for x y
      using search_layout_None [OF ch None inS [OF that]] by (auto simp: fits_def)
    then show ?thesis using run None by auto
  next
    case (Some p)
    note sp = search_layout_Some [OF ch Some]
    then obtain n where n: "(p, n) \<in> blocks False (lfree h) S" "sz \<le> n - (p + 12)" by blast
    have "(p, n) \<in> free L" using n(1) L by simp
    moreover have "fits h sz p n" using n(2) sp by (simp add: fits_def)
    moreover have "\<not> fits h sz x y" if "(x, y) \<in> free L" "lfree h \<le> x" "x < p" for x y
    proof -
      have "\<forall>(x, y) \<in> blocks False (lfree h) S. unat x < unat p \<longrightarrow> y - (x + 12) < sz" using sp by blast
      then have "y - (x + 12) < sz" using inS [OF that(1,2)] that(3) by (auto simp: word_less_nat_alt)
      then show ?thesis by (simp add: fits_def not_le)
    qed
    moreover have "lfree h \<le> p" using blocks_range(1) [OF ch n(1)] by (simp add: word_le_nat_alt)
    ultimately show ?thesis using run Some by auto
  qed
qed

lemma malloc_locked_ok:
  assumes inv: "heap_inv h L" and un: "unlocked h s" and sz: "12 \<le> sz" "4 dvd unat sz" "sz \<le> mem_size_aligned h"
  shows "rt_malloc_locked sz (sem_held h) s = Inr (Null, h, s) \<and> (\<forall>(x, y) \<in> free L. lfree h \<le> x \<longrightarrow> \<not> fits h sz x y) \<or>
    (\<exists>L1 n L2 p h'. L = L1 @ (n, False) # L2 \<and> p = ends 0 L1 \<and> fits h sz p n \<and> lfree h \<le> p \<and>
      (\<forall>(x, y) \<in> free L. lfree h \<le> x \<longrightarrow> x < p \<longrightarrow> \<not> fits h sz x y) \<and>
      rt_malloc_locked sz (sem_held h) s = Inr (Ptr (heap_ptr h + p + 12), h', s) \<and> heap_inv h' (take_layout L1 p n sz L2) \<and>
      data_kept (allocated L) h h' \<and> data_kept {(p, take_end p n sz)} h h' \<and> same_heap h h' \<and> unlocked h' s \<and>
      (lfree_lowest h L \<longrightarrow> lfree_lowest h' (take_layout L1 p n sz L2)))"
proof -
  have inv': "heap_inv (sem_held h) L" using inv by simp
  note i = heap_invD [OF inv']
  obtain r where r: "malloc_search (Suc (length (heap_bytes h))) (sem_held h) sz (lfree h) = Inr r"
    "case r of None \<Rightarrow> \<forall>(x, y) \<in> free L. lfree h \<le> x \<longrightarrow> \<not> fits (sem_held h) sz x y
     | Some p \<Rightarrow> lfree h \<le> p \<and> (\<exists>n. (p, n) \<in> free L \<and> fits (sem_held h) sz p n \<and> (\<forall>(x, y) \<in> free L. lfree h \<le> x \<longrightarrow> x < p \<longrightarrow> \<not> fits (sem_held h) sz x y))"
    using malloc_search_spec [OF inv', of sz] sz(3) unfolding sem_held_simps by blast
  have fits: "fits (sem_held h) sz x y = fits h sz x y" for x y by (simp add: fits_def)
  show ?thesis
  proof (cases r)
    case None
    have "heap_unlock (sem_held h) s = Inr (h, s)" using heap_unlock_run [OF un, of "sem_held h"] by simp
    then show ?thesis using r None by (simp add: rt_malloc_locked_def fits)
  next
    case (Some p)
    then obtain n where n: "(p, n) \<in> free L" "fits h sz p n" "\<forall>(x, y) \<in> free L. lfree h \<le> x \<longrightarrow> x < p \<longrightarrow> \<not> fits h sz x y" "lfree h \<le> p"
      using r(2) by (auto simp: fits)
    obtain L1 L2 where L: "L = L1 @ (n, False) # L2" "p = ends 0 L1" using blocks_split [OF n(1)] by metis
    have room: "sz \<le> n - (p + 12)" using n(2) by (simp add: fits_def)
    obtain h1 where h1: "malloc_take p sz (sem_held h) = Inr h1" "heap_inv h1 (take_layout L1 p n sz L2)"
        "data_kept (allocated L) (sem_held h) h1" "data_kept {(p, take_end p n sz)} (sem_held h) h1" "same_heap (sem_held h) h1"
        "lfree_lowest (sem_held h) L \<longrightarrow> lfree_lowest h1 (take_layout L1 p n sz L2)"
      using malloc_take_ok [OF inv' [unfolded L(1)] L(2) sz(1,2) room] L(1) by blast
    let ?h = "sem_freed h h1"
    note fr = sem_freed_facts [OF h1(5)]
    have unl: "heap_unlock h1 s = Inr (?h, s)" using h1(5) by (intro heap_unlock_run [OF un]) (simp add: same_heap_def)
    have e: "heap_ptr h1 = heap_ptr h" "heap_end h1 = heap_end h" using h1(5) by (simp_all add: same_heap_def)
    have ch: "heap_chain h (L1 @ (n, False) # L2)" using heap_invD(1) [OF inv] L(1) by simp
    note a = heap_chain_at [OF ch L(2), simplified]
    have big: "unat (heap_ptr h) + unat (heap_end h) + 12 < 2 ^ 32" "4 dvd unat (heap_ptr h)" using heap_chainD [OF ch] by auto
    have al: "4 dvd unat p" using ends_aligned [OF a(6)] L(2) by simp
    have szn: "unat sz \<le> unat n - unat p - 12" using room room_of(1) [OF a(2)] by (simp add: word_le_nat_alt)
    have u: "unat (heap_ptr h + p) = unat (heap_ptr h) + unat p" using a(2,4) big by (intro unat_add_small) simp
    have u12: "unat (heap_ptr h + p + 12) = unat (heap_ptr h) + unat p + 12"
      using u a(2,4) big unat_add_small [of "heap_ptr h + p" 12] by simp
    have usz: "unat (heap_ptr h + p + 12 + sz) = unat (heap_ptr h) + unat p + 12 + unat sz"
      using u12 a(2,4) big szn unat_add_small [of "heap_ptr h + p + 12" sz] by simp
    have ue: "unat (heap_ptr h + heap_end h) = unat (heap_ptr h) + unat (heap_end h)" using big by (intro unat_add_small) simp
    have as1: "heap_ptr h + p + 12 + sz \<le> heap_ptr h + heap_end h" using usz ue szn a(2,4) by (simp add: word_le_nat_alt)
    have as2: "(heap_ptr h + p + 12) mod 4 = 0" by (rule aligned_word) (use u12 al big(2) in simp)
    have as3: "(heap_ptr h + p) AND 3 = 0" by (rule aligned_word) (use u al big(2) in simp)
    have "rt_malloc_locked sz (sem_held h) s = Inr (Ptr (heap_ptr h + p + 12), ?h, s)"
      using r(1) Some h1(1) unl as1 as2 as3 e by (simp add: rt_malloc_locked_def SIZEOF_STRUCT_MEM_def Let_def)
    moreover have "heap_inv ?h (take_layout L1 p n sz L2)" using h1(2) by simp
    moreover have "lfree_lowest h L \<longrightarrow> lfree_lowest ?h (take_layout L1 p n sz L2)" using h1(6) by simp
    moreover note fr(1) fr(2) [OF h1(3)] fr(2) [OF h1(4)] fr(3) [OF un]
    ultimately show ?thesis using n(2-4) L by blast
  qed
qed

lemma rt_malloc_run:
  assumes "sz \<noteq> 0" "not_in_interrupt s" "unlocked h s"
  shows "rt_malloc sz h s = (if align4 sz > mem_size_aligned h then Inr (Null, h, s) else rt_malloc_locked (alloc_size sz) (sem_held h) s)"
  using assms by (simp add: rt_malloc_def alloc_size_def Let_def heap_locked_run)

text \<open>What an allocation comes to, when the semaphore is free.\<close>

lemma rt_malloc_cases:
  assumes inv: "heap_inv h L" and un: "unlocked h s" and ctx: "not_in_interrupt s" and sz: "sz \<noteq> 0" "unat sz + 3 < 2 ^ 32"
  obtains (Null) "rt_malloc sz h s = Inr (Null, h, s)"
      "mem_size_aligned h < align4 sz \<or> (\<forall>(x, y) \<in> free L. lfree h \<le> x \<longrightarrow> \<not> fits h (alloc_size sz) x y)"
    | (Ptr) p n h' L' where "rt_malloc sz h s = Inr (Ptr (data_addr h p), h', s)" "heap_inv h' L'"
      "allocated L' = insert (p, n) (allocated L)" "unat p + 12 + unat sz \<le> unat n" "lfree h \<le> p"
      "\<forall>(x, y) \<in> allocated L. unat y \<le> unat p \<or> unat n \<le> unat x"
      "\<forall>(x, y) \<in> free L. lfree h \<le> x \<longrightarrow> x < p \<longrightarrow> \<not> fits h (alloc_size sz) x y"
      "data_kept (allocated L) h h'" "same_heap h h'" "unlocked h' s" "lfree_lowest h L \<longrightarrow> lfree_lowest h' L'"
proof -
  note i = heap_invD(1) [OF inv]
  note af = alloc_size_facts [OF sz(2)]
  have run: "rt_malloc sz h s = (if align4 sz > mem_size_aligned h then Inr (Null, h, s) else rt_malloc_locked (alloc_size sz) (sem_held h) s)"
    by (rule rt_malloc_run [OF sz(1) ctx un])
  show thesis
  proof (cases "align4 sz > mem_size_aligned h")
    case True
    then show ?thesis using run Null by simp
  next
    case False
    then have le: "alloc_size sz \<le> mem_size_aligned h"
      using mem_size_facts(3) [OF i] by (simp add: alloc_size_def MIN_SIZE_ALIGNED_def not_less)
    consider "rt_malloc_locked (alloc_size sz) (sem_held h) s = Inr (Null, h, s)" "\<forall>(x, y) \<in> free L. lfree h \<le> x \<longrightarrow> \<not> fits h (alloc_size sz) x y"
      | L1 n L2 p h' where "L = L1 @ (n, False) # L2" "p = ends 0 L1" "fits h (alloc_size sz) p n"
        "lfree h \<le> p" "\<forall>(x, y) \<in> free L. lfree h \<le> x \<longrightarrow> x < p \<longrightarrow> \<not> fits h (alloc_size sz) x y"
        "rt_malloc_locked (alloc_size sz) (sem_held h) s = Inr (Ptr (data_addr h p), h', s)"
        "heap_inv h' (take_layout L1 p n (alloc_size sz) L2)" "data_kept (allocated L) h h'" "same_heap h h'" "unlocked h' s"
        "lfree_lowest h L \<longrightarrow> lfree_lowest h' (take_layout L1 p n (alloc_size sz) L2)"
      using malloc_locked_ok [OF inv un af(1,2) le] by blast
    then show ?thesis
    proof cases
      case 1
      then show ?thesis using run False Null by simp
    next
      case 2
      let ?n = "take_end p n (alloc_size sz)" and ?L = "take_layout L1 p n (alloc_size sz) L2"
      have f: "(p, n) \<in> free L" using 2(1,2) by simp
      note ad = data_addr_facts [OF i f]
      have room: "alloc_size sz \<le> n - (p + 12)" using 2(3) by (simp add: fits_def)
      note t = take_end_bounds [OF ad(7) af(1) room]
      have disj: "\<forall>(x, y) \<in> allocated L. unat y \<le> unat p \<or> unat ?n \<le> unat x"
        using blocks_disjoint [OF heap_chainD(7) [OF i] f] t(2) by fastforce
      have al: "allocated ?L = insert (p, ?n) (allocated L)" using take_layout_facts(1) [OF 2(2)] 2(1) by simp
      have len: "unat p + 12 + unat sz \<le> unat ?n" using t(1) af(3) by simp
      have "rt_malloc sz h s = Inr (Ptr (data_addr h p), h', s)" using run False 2(6) by simp
      then show ?thesis by (rule Ptr [OF _ 2(7) al len 2(4) disj 2(5,8-11)])
    qed
  qed
qed

section \<open>Release\<close>

lemma allocated_without:
  assumes "chain bs 0 0 (L1 @ (n, True) # L2)" "p = ends 0 L1"
  shows "allocated (L1 @ (n, False) # L2) = allocated (L1 @ (n, True) # L2) - {(p, n)}"
proof -
  have c: "chain bs 0 0 L1" "chain bs p n L2" "unat p + 16 \<le> unat n" using assms by auto
  have "(p, n) \<notin> allocated L1" using blocks_range(2,3) [OF c(1), of p n True] assms(2) by auto
  moreover have "(p, n) \<notin> blocks True n L2" using blocks_range(1) [OF c(2), of p n True] c(3) by auto
  ultimately show ?thesis using assms(2) by auto
qed

lemma free_locked_ok:
  assumes inv: "heap_inv h L" and L: "L = L1 @ (n, True) # L2" and p: "p = ends 0 L1"
  shows "\<exists>h'. rt_free_locked (data_addr h p) h s = rbind (heap_unlock h' s) (\<lambda>(h, s). Inr (Null, h, s)) \<and>
    heap_inv h' (merge_layout L1 n L2) \<and> allocated (merge_layout L1 n L2) = allocated L - {(p, n)} \<and>
    data_kept (allocated L - {(p, n)}) h h' \<and> same_heap h h' \<and> max_mem h' = max_mem h \<and>
    (lfree_lowest h L \<longrightarrow> lfree_lowest h' (merge_layout L1 n L2))"
proof -
  let ?L = "L1 @ (n, False) # L2"
  note i = heap_invD [OF inv]
  have ch: "heap_chain h (L1 @ (n, True) # L2)" using i(1) L by simp
  note a = heap_chain_at [OF ch p, simplified]
  have "(p, n) \<in> allocated L" using L p by simp
  note ad = data_addr_facts [OF i(1) this]
  have ld: "load h p = Inr (block_header (last_start 0 0 L1) (n, True))" using a(1,3) by (simp add: load_in)
  obtain h1 where h1: "modify p (\<lambda>m. m\<lparr>used := 0, magic := HEAP_MAGIC\<rparr>) h = Inr h1" "heap_chain h1 ?L"
      "\<forall>u. data_kept (blocks u 0 (L1 @ (n, True) # L2)) h h1" "h1 = h\<lparr>heap_bytes := heap_bytes h1\<rparr>" "same_heap h h1"
    using mark_step [OF ch p, of "(n, False)" "\<lambda>m. m\<lparr>used := 0, magic := HEAP_MAGIC\<rparr>"] unfolding fst_conv block_header_simps by blast
  have f1: "lfree h1 = lfree h" "used_mem h1 = used_mem h" "max_mem h1 = max_mem h"
    using arg_cong [OF h1(4), of lfree] arg_cong [OF h1(4), of used_mem] arg_cong [OF h1(4), of max_mem] by simp_all
  let ?h2 = "h1\<lparr>lfree := (if p < lfree h1 then p else lfree h1), used_mem := used_mem h1 - (n - p)\<rparr>"
  have ch2: "heap_chain ?h2 ?L" using h1(2) heap_chain_cong [of ?h2 h1] by simp
  obtain h' where h': "plug_holes p ?h2 = Inr h'" "merged ?h2 h' ?L (merge_layout L1 n L2)"
    using plug_holes_ok [OF ch2 p] by blast
  have e1: "heap_end h1 = heap_end h" using h1(5) by (simp add: same_heap_def)
  have "p < heap_end h" using ad(7,8) by (simp add: word_less_nat_alt)
  then have ok2: "lfree_ok ?h2 ?L"
    using i(3) e1 f1(1) L p by (auto simp: lfree_ok_def)
  have low2: "lfree_lowest ?h2 ?L" if "lfree_lowest h L"
  proof -
    have x: "x = p \<or> lfree h \<le> x" if "x \<in> free_starts 0 ?L" for x
      using that \<open>lfree_lowest h L\<close> L p by (auto simp: lfree_lowest_def)
    have le: "(if p < lfree h then p else lfree h) \<le> x" if "x \<in> free_starts 0 ?L" for x
      using x [OF that] order_trans [of p "lfree h" x] by (cases "p < lfree h") (auto simp: not_less order_less_imp_le)
    have f2: "lfree ?h2 = (if p < lfree h then p else lfree h)" using f1(1) by simp
    show ?thesis unfolding lfree_lowest_def f2 using le by blast
  qed
  have ub: "used_mem h1 - (n - p) = used_bytes 0 ?L" using f1(2) i(4) L p by simp
  have al: "allocated (merge_layout L1 n L2) = allocated L - {(p, n)}"
    using h'(2) allocated_without [OF heap_chainD(7) [OF ch] p] L by (simp add: merged_def)
  have "no_adjacent L1" "no_adjacent L2" using i(2) L by (auto simp: no_adjacent_append no_adjacent_Cons)
  then have "heap_inv h' (merge_layout L1 n L2)"
    using h'(2) ok2 ub by (simp add: heap_inv_def merged_def merge_layout_no_adjacent)
  moreover have "data_kept (allocated L - {(p, n)}) h h'"
  proof (rule data_kept_trans)
    show "data_kept (allocated L - {(p, n)}) h ?h2"
    proof (rule data_kept_bytes)
      show "data_kept (allocated L - {(p, n)}) h h1" using h1(3) [rule_format, of True] L by (auto intro: data_kept_mono)
    qed simp
    show "data_kept (allocated L - {(p, n)}) ?h2 h'"
      using h'(2) allocated_without [OF heap_chainD(7) [OF ch] p] L by (simp add: merged_def)
  qed
  moreover have "same_heap h h'" "max_mem h' = max_mem h" using h1(5) h'(2) f1(3) by (auto simp: merged_def same_heap_def)
  moreover have "lfree_lowest h L \<longrightarrow> lfree_lowest h' (merge_layout L1 n L2)" using h'(2) low2 by (auto simp: merged_def)
  moreover have "rt_free_locked (data_addr h p) h s = rbind (heap_unlock h' s) (\<lambda>(h, s). Inr (Null, h, s))"
  proof -
    have eq: "(if p < lfree h1 then h1\<lparr>lfree := p\<rparr> else h1)
        \<lparr>used_mem := used_mem (if p < lfree h1 then h1\<lparr>lfree := p\<rparr> else h1) - (n - p)\<rparr> = ?h2"
      by (cases h1, cases "p < lfree h1") simp_all
    have plug: "plug_holes p ((if p < lfree h1 then h1\<lparr>lfree := p\<rparr> else h1)
        \<lparr>used_mem := used_mem (if p < lfree h1 then h1\<lparr>lfree := p\<rparr> else h1) - (n - p)\<rparr>) = Inr h'"
      unfolding eq by (rule h'(1))
    show ?thesis
      unfolding rt_free_locked_def ad(5) Let_def ld rbind_Inr block_header_simps fst_conv h1(1) plug by simp
  qed
  ultimately show ?thesis using al by blast
qed

text \<open>
  The release of an allocated block takes this block, and no other, out of the allocated ones, joins it
  with its free neighbours and leaves all bytes of the other blocks as they were.
\<close>

lemma rt_free_block:
  assumes inv: "heap_inv h L" and un: "unlocked h s" and ctx: "not_in_interrupt s" and b: "(p, n) \<in> allocated L"
  shows "\<exists>h' L'. rt_free (data_addr h p) h s = Inr (Null, h', s) \<and> heap_inv h' L' \<and> allocated L' = allocated L - {(p, n)} \<and>
    data_kept (allocated L - {(p, n)}) h h' \<and> same_heap h h' \<and> unlocked h' s \<and> (lfree_lowest h L \<longrightarrow> lfree_lowest h' L')"
proof -
  obtain L1 L2 where L: "L = L1 @ (n, True) # L2" "ends 0 L1 = p" using blocks_split [OF b] .
  have inv': "heap_inv (sem_held h) L" using inv by simp
  obtain h1 where h1: "rt_free_locked (data_addr (sem_held h) p) (sem_held h) s = rbind (heap_unlock h1 s) (\<lambda>(h, s). Inr (Null, h, s))"
      "heap_inv h1 (merge_layout L1 n L2)" "allocated (merge_layout L1 n L2) = allocated L - {(p, n)}"
      "data_kept (allocated L - {(p, n)}) (sem_held h) h1" "same_heap (sem_held h) h1"
      "lfree_lowest (sem_held h) L \<longrightarrow> lfree_lowest h1 (merge_layout L1 n L2)"
    using free_locked_ok [OF inv' L(1) L(2) [symmetric]] by blast
  have "heap_unlock h1 s = Inr (sem_freed h h1, s)" using h1(5) by (intro heap_unlock_run [OF un]) (simp add: same_heap_def)
  moreover note ad = data_addr_facts(2-4) [OF heap_invD(1) [OF inv] b]
  ultimately have "rt_free (data_addr h p) h s = Inr (Null, sem_freed h h1, s)"
    using ctx h1(1) by (simp add: rt_free_def heap_locked_run [OF un])
  moreover have "heap_inv (sem_freed h h1) (merge_layout L1 n L2)" "lfree_lowest h L \<longrightarrow> lfree_lowest (sem_freed h h1) (merge_layout L1 n L2)"
    using h1(2,6) by simp_all
  ultimately show ?thesis using sem_freed_facts(1) [OF h1(5)] sem_freed_facts(2) [OF h1(5,4)] sem_freed_facts(3) [OF h1(5) un] h1(3) by blast
qed

section \<open>Properties\<close>

text \<open>An example: 512 bytes between the two headers, of which the first block of 100 bytes is allocated.\<close>

definition example_free_heap :: "u8 list \<Rightarrow> heap" where
  "example_free_heap bs = \<lparr>heap_ptr = 0x20000000, heap_bytes = bs, heap_end = 524, lfree = 0,
     heap_sem = \<lparr>sem_id = 1, sem_value = 1, sem_flag = 0\<rparr>, mem_size_aligned = 512, used_mem = 0, max_mem = 0\<rparr>"

definition example_heap :: heap where
  "example_heap = example_free_heap (put_header 0 (block_header 0 (524, False)) (put_header 524 (block_header 524 (524, True)) (replicate 536 0)))"

lemma example_heap_ok: "heap_inv example_heap [(524, False)]" "lfree_lowest example_heap [(524, False)]"
  "unlocked example_heap (example_wait 10 [])" "not_in_interrupt (example_wait 10 [])"
proof -
  let ?bs = "put_header 524 (block_header 524 (524, True)) (replicate 536 0)"
  have len: "length ?bs = 536" by simp
  have h0: "header_at (heap_bytes example_heap) 0 = block_header 0 (524, False)"
    using len by (simp add: example_heap_def example_free_heap_def)
  have h1: "header_at (heap_bytes example_heap) 524 = block_header 524 (524, True)"
    using header_put_other [of 0 ?bs 524] len by (simp add: example_heap_def example_free_heap_def)
  have "length (heap_bytes example_heap) = 536" using len by (simp add: example_heap_def example_free_heap_def)
  moreover have e: "heap_end example_heap = 524" "heap_ptr example_heap = 0x20000000" "mem_size_aligned example_heap = 512"
    "lfree example_heap = 0" "used_mem example_heap = 0" "heap_sem example_heap = \<lparr>sem_id = 1, sem_value = 1, sem_flag = 0\<rparr>"
    by (simp_all add: example_heap_def example_free_heap_def)
  ultimately show "heap_inv example_heap [(524, False)]"
    using h0 h1 by (simp add: heap_inv_def heap_chain_def lfree_ok_def)
  show "lfree_lowest example_heap [(524, False)]" using e by (simp add: lfree_lowest_def)
  show "unlocked example_heap (example_wait 10 [])" using e(6) example_wait_simps(4) [of 10 "[]"] by (simp add: unlocked_def)
  show "not_in_interrupt (example_wait 10 [])"
    using example_wait_simps(3) [of 10 "[]"] by (simp add: not_in_interrupt_def rt_interrupt_get_nest_def)
qed

lemma example_malloc:
  "\<exists>p n h1 L1. rt_malloc 100 example_heap (example_wait 10 []) = Inr (Ptr (data_addr example_heap p), h1, example_wait 10 []) \<and>
     heap_inv h1 L1 \<and> (p, n) \<in> allocated L1 \<and> unlocked h1 (example_wait 10 []) \<and> lfree_lowest h1 L1 \<and> heap_ptr h1 = heap_ptr example_heap"
proof -
  have a: "alloc_size 100 = 100" "align4 100 = 100" by (simp_all add: alloc_size_def align4_def MIN_SIZE_ALIGNED_def)
  have m: "mem_size_aligned example_heap = 512" "lfree example_heap = 0" by (simp_all add: example_heap_def example_free_heap_def)
  have f: "\<not> (\<forall>(x, y) \<in> free [(524, False)]. lfree example_heap \<le> x \<longrightarrow> \<not> fits example_heap 100 x y)"
    using m by (simp add: fits_def)
  have p: "(12 :: u32) \<le> 100" "4 dvd unat (100 :: u32)" "100 \<le> mem_size_aligned example_heap" using m by simp_all
  obtain L1 n L2 p h' where l: "[(524, False)] = L1 @ (n, False) # L2" "p = ends 0 L1"
      "rt_malloc_locked 100 (sem_held example_heap) (example_wait 10 []) = Inr (Ptr (data_addr example_heap p), h', example_wait 10 [])"
      "heap_inv h' (take_layout L1 p n 100 L2)" "unlocked h' (example_wait 10 [])" "lfree_lowest h' (take_layout L1 p n 100 L2)"
      "same_heap example_heap h'"
    using malloc_locked_ok [OF example_heap_ok(1,3) p] f example_heap_ok(2) by blast
  have "rt_malloc 100 example_heap (example_wait 10 []) = Inr (Ptr (data_addr example_heap p), h', example_wait 10 [])"
    using rt_malloc_run [OF _ example_heap_ok(4,3), of 100] a m l(3) by simp
  moreover have "(p, take_end p n 100) \<in> allocated (take_layout L1 p n 100 L2)" using take_layout_facts(1) [OF l(2)] by simp
  moreover have "heap_ptr h' = heap_ptr example_heap" using l(7) by (simp add: same_heap_def)
  ultimately show ?thesis using l(4-6) by metis
qed

text \<open>C10: C0: An allocation ends with a block or with null. The block is the first free one that is large
  enough, its data are aligned, lie in the heap and overlap no other allocated block, whose bytes stay
  as they were. After null the heap is the one before, and no free block fits.
\<close>

theorem rt_malloc_first_fit:
  assumes inv: "heap_inv h L" and un: "unlocked h s" and ctx: "not_in_interrupt s" and sz: "sz \<noteq> 0" "unat sz + 3 < 2 ^ 32"
  shows "\<exists>r h'. rt_malloc sz h s = Inr (r, h', s) \<and> same_heap h h' \<and> unlocked h' s \<and>
    (case r of
       Ptr a \<Rightarrow> \<exists>L' p n. a = data_addr h p \<and> 4 dvd unat a \<and> heap_inv h' L' \<and> (lfree_lowest h L \<longrightarrow> lfree_lowest h' L') \<and>
         allocated L' = insert (p, n) (allocated L) \<and> unat p + 12 + unat sz \<le> unat n \<and> unat n \<le> unat (heap_end h) \<and>
         (\<forall>(x, y) \<in> allocated L. unat y \<le> unat p \<or> unat n \<le> unat x) \<and> data_kept (allocated L) h h' \<and>
         (\<forall>(x, y) \<in> free L. lfree h \<le> x \<longrightarrow> x < p \<longrightarrow> \<not> fits h (alloc_size sz) x y)
     | Null \<Rightarrow> h' = h \<and> (mem_size_aligned h < align4 sz \<or> (\<forall>(x, y) \<in> free L. lfree h \<le> x \<longrightarrow> \<not> fits h (alloc_size sz) x y))
     | Waits \<Rightarrow> False)"
proof (rule rt_malloc_cases [OF inv un ctx sz])
  assume "rt_malloc sz h s = Inr (Null, h, s)"
    "mem_size_aligned h < align4 sz \<or> (\<forall>(x, y) \<in> free L. lfree h \<le> x \<longrightarrow> \<not> fits h (alloc_size sz) x y)"
  then show ?thesis using un by simp
next
  fix p n h' L'
  assume a: "rt_malloc sz h s = Inr (Ptr (data_addr h p), h', s)" "heap_inv h' L'" "allocated L' = insert (p, n) (allocated L)"
    "unat p + 12 + unat sz \<le> unat n" "lfree h \<le> p" "\<forall>(x, y) \<in> allocated L. unat y \<le> unat p \<or> unat n \<le> unat x"
    "\<forall>(x, y) \<in> free L. lfree h \<le> x \<longrightarrow> x < p \<longrightarrow> \<not> fits h (alloc_size sz) x y"
    "data_kept (allocated L) h h'" "same_heap h h'" "unlocked h' s" "lfree_lowest h L \<longrightarrow> lfree_lowest h' L'"
  have b: "(p, n) \<in> allocated L'" using a(3) by simp
  have e: "data_addr h' p = data_addr h p" "heap_end h' = heap_end h" using a(9) by (simp_all add: same_heap_def)
  note ad = data_addr_facts(6,8) [OF heap_invD(1) [OF a(2)] b, unfolded e]
  show ?thesis using a ad by (intro exI [of _ "Ptr (data_addr h p)"] exI [of _ h']) (simp, blast)
qed

theorem rt_malloc_first_fit_witness:
  "\<exists>r h'. rt_malloc 100 example_heap (example_wait 10 []) = Inr (r, h', example_wait 10 []) \<and> unlocked h' (example_wait 10 [])"
  using rt_malloc_first_fit [OF example_heap_ok(1,3,4), of 100] by auto

text \<open>The lowest free block of a layout is unique.\<close>

lemma lfree_unique:
  assumes "heap_inv h L" "heap_inv h' L" "lfree_lowest h L" "lfree_lowest h' L" "heap_end h' = heap_end h"
  shows "lfree h' = lfree h"
proof -
  have end_high: "x < heap_end h" if "x \<in> free_starts 0 L" for x
  proof -
    note c = heap_chainD(7,8) [OF heap_invD(1) [OF assms(1)]]
    show ?thesis using free_starts_range(2) [OF c(1) that] c(2) by (simp add: word_less_nat_alt)
  qed
  have a: "lfree h = heap_end h \<or> lfree h \<in> free_starts 0 L" "lfree h' = heap_end h \<or> lfree h' \<in> free_starts 0 L"
    using heap_invD(3) [OF assms(1)] heap_invD(3) [OF assms(2)] assms(5) by (auto simp: lfree_ok_def)
  have l: "lfree h \<le> x" "lfree h' \<le> x" if "x \<in> free_starts 0 L" for x
    using assms(3,4) that by (auto simp: lfree_lowest_def)
  from a show ?thesis
    using l end_high by (metis leD order_antisym)
qed

text \<open>C15: C0: A release undoes the allocation: layout, lowest free block and the count of used bytes are those
  before it.
\<close>

theorem malloc_free_roundtrip:
  assumes inv: "heap_inv h L" and low: "lfree_lowest h L" and un: "unlocked h s" and ctx: "not_in_interrupt s"
    and sz: "sz \<noteq> 0" "unat sz + 3 < 2 ^ 32" and run: "rt_malloc sz h s = Inr (Ptr a, h1, s)"
  shows "\<exists>h2. rt_free a h1 s = Inr (Null, h2, s) \<and> heap_inv h2 L \<and> lfree h2 = lfree h \<and> used_mem h2 = used_mem h \<and>
    data_kept (allocated L) h h2"
proof -
  note i = heap_invD [OF inv]
  note af = alloc_size_facts [OF sz(2)]
  let ?sz = "alloc_size sz"
  have notbig: "\<not> align4 sz > mem_size_aligned h" and run': "rt_malloc_locked ?sz (sem_held h) s = Inr (Ptr a, h1, s)"
    using run rt_malloc_run [OF sz(1) ctx un] by (auto split: if_splits)
  have le: "?sz \<le> mem_size_aligned h"
    using notbig mem_size_facts(3) [OF i(1)] by (simp add: alloc_size_def MIN_SIZE_ALIGNED_def not_less)
  obtain L1 n L2 p where L: "L = L1 @ (n, False) # L2" "p = ends 0 L1" "a = data_addr h p"
      and h1: "heap_inv h1 (take_layout L1 p n ?sz L2)" "data_kept (allocated L) h h1" "same_heap h h1" "unlocked h1 s"
        "lfree_lowest h1 (take_layout L1 p n ?sz L2)"
    using malloc_locked_ok [OF inv un af(1,2) le] run' low by auto
  let ?L' = "take_layout L1 p n ?sz L2" and ?r = "take_end p n ?sz"
  obtain M where M: "?L' = L1 @ (?r, True) # M" "merge_layout L1 ?r M = L"
  proof -
    have l1: "L1 = [] \<or> snd (last L1)" using i(2) L(1) by (auto simp: no_adjacent_append)
    have l2: "L2 = [] \<or> snd (hd L2)" using i(2) L(1) by (auto simp: no_adjacent_append no_adjacent_Cons)
    then have "merge_next n L2 = (n, False) # L2" by (cases L2) (auto simp: merge_next_def split: bool.splits)
    then show ?thesis
      using that [of "if unat p + unat ?sz + 36 \<le> unat n then (n, False) # L2 else L2"] l1 L(1)
      by (auto simp: take_layout_def take_end_def merge_layout_def merge_next_def)
  qed
  have alloc: "allocated ?L' = insert (p, ?r) (allocated L)" using take_layout_facts(1) [OF L(2)] L(1) by simp
  have b: "(p, ?r) \<in> allocated ?L'" using alloc by simp
  have new: "(p, ?r) \<notin> allocated L"
  proof
    assume m: "(p, ?r) \<in> allocated L"
    have f: "(p, n) \<in> free L" using L(1,2) by simp
    show False
      using blocks_disjoint [OF heap_chainD(7) [OF i(1)] f m] blocks_range(2) [OF heap_chainD(7) [OF i(1)] f]
        blocks_range(2) [OF heap_chainD(7) [OF i(1)] m] by auto
  qed
  have hinv: "heap_inv (sem_held h1) ?L'" using h1(1) by simp
  obtain h' where h': "rt_free_locked (data_addr (sem_held h1) p) (sem_held h1) s = rbind (heap_unlock h' s) (\<lambda>(h, s). Inr (Null, h, s))"
      "heap_inv h' L" "data_kept (allocated ?L' - {(p, ?r)}) (sem_held h1) h'" "same_heap (sem_held h1) h'" "lfree_lowest h' L"
    using free_locked_ok [OF hinv M(1) L(2)] M(2) h1(5) by auto
  have e: "heap_ptr h1 = heap_ptr h" "heap_end h1 = heap_end h" using h1(3) by (simp_all add: same_heap_def)
  have unl: "heap_unlock h' s = Inr (sem_freed h1 h', s)" using h'(4) by (intro heap_unlock_run [OF h1(4)]) (simp add: same_heap_def)
  note ad = data_addr_facts(2-4) [OF heap_invD(1) [OF h1(1)] b]
  have "rt_free a h1 s = Inr (Null, sem_freed h1 h', s)"
    using ctx h'(1) ad unl L(3) e by (simp add: rt_free_def heap_locked_run [OF h1(4)])
  moreover have "lfree (sem_freed h1 h') = lfree h"
    using lfree_unique [OF inv h'(2) low h'(5)] h'(4) e by (simp add: same_heap_def)
  moreover have "used_mem (sem_freed h1 h') = used_mem h" using heap_invD(4) [OF h'(2)] i(4) by simp
  moreover have "allocated ?L' - {(p, ?r)} = allocated L" using alloc new by simp
  then have "data_kept (allocated L) h (sem_freed h1 h')" using data_kept_trans [OF h1(2)] sem_freed_facts(2) [OF h'(4,3)] by simp
  ultimately show ?thesis using h'(2) by auto
qed

theorem malloc_free_roundtrip_witness:
  "\<exists>a h1 h2. rt_malloc 100 example_heap (example_wait 10 []) = Inr (Ptr a, h1, example_wait 10 []) \<and>
     rt_free a h1 (example_wait 10 []) = Inr (Null, h2, example_wait 10 []) \<and> heap_inv h2 [(524, False)] \<and> lfree h2 = 0"
proof -
  obtain p h1 where e: "rt_malloc 100 example_heap (example_wait 10 []) = Inr (Ptr (data_addr example_heap p), h1, example_wait 10 [])"
    using example_malloc by blast
  have "lfree example_heap = 0" by (simp add: example_heap_def example_free_heap_def)
  then show ?thesis
    using malloc_free_roundtrip [OF example_heap_ok _ _ e] e by auto
qed

text \<open>C37: C0: A request for almost 4 GiB wraps around in the alignment to 0 and is then taken for one of 12 bytes;
  the caller gets a block with less than 36 bytes.
\<close>

theorem malloc_huge_is_small:
  assumes inv: "heap_inv h L" and un: "unlocked h s" and ctx: "not_in_interrupt s" and sz: "0xfffffffc < sz"
    and fit: "(x, y) \<in> free L" "lfree h \<le> x" "fits h 12 x y"
  shows "\<exists>h' L' p n. rt_malloc sz h s = Inr (Ptr (data_addr h p), h', s) \<and> heap_inv h' L' \<and>
    allocated L' = insert (p, n) (allocated L) \<and> unat n - (unat p + 12) < 36"
proof -
  note i = heap_invD(1) [OF inv]
  have a: "align4 sz = 0" "alloc_size sz = 12" using align4_wraps [OF sz] by (simp_all add: alloc_size_def MIN_SIZE_ALIGNED_def)
  have "sz \<noteq> 0" using sz by auto
  then have run: "rt_malloc sz h s = rt_malloc_locked 12 (sem_held h) s" using rt_malloc_run [OF _ ctx un] a by simp
  have le: "12 \<le> mem_size_aligned h" using mem_size_facts(3) [OF i] .
  have "(12 :: u32) \<le> 12" "4 dvd unat (12 :: u32)" by simp_all
  note m = malloc_locked_ok [OF inv un this le]
  have "\<not> (\<forall>(x, y) \<in> free L. lfree h \<le> x \<longrightarrow> \<not> fits h 12 x y)" using fit by blast
  then obtain L1 n L2 p h' where l: "L = L1 @ (n, False) # L2" "p = ends 0 L1" "fits h 12 p n"
      "rt_malloc_locked 12 (sem_held h) s = Inr (Ptr (data_addr h p), h', s)" "heap_inv h' (take_layout L1 p n 12 L2)"
    using m by blast
  have "(p, n) \<in> free L" using l(1,2) by simp
  note ad = data_addr_facts(7,8) [OF i this]
  have room: "12 \<le> n - (p + 12)" using l(3) by (simp add: fits_def)
  have "unat (take_end p n 12) - (unat p + 12) < 36"
    using take_end_bounds(4) [OF ad(1) _ room] by (auto simp: take_end_def)
  moreover have "allocated (take_layout L1 p n 12 L2) = insert (p, take_end p n 12) (allocated L)"
    using take_layout_facts(1) [OF l(2)] l(1) by simp
  ultimately show ?thesis using run l(4,5) by (metis (no_types))
qed

theorem malloc_huge_is_small_witness:
  "\<exists>h' a. rt_malloc 0xffffffff example_heap (example_wait 10 []) = Inr (Ptr a, h', example_wait 10 [])"
proof -
  have "fits example_heap 12 0 524" "lfree example_heap = 0" by (simp_all add: fits_def example_heap_def example_free_heap_def)
  then show ?thesis
    using malloc_huge_is_small [OF example_heap_ok(1,3,4), where sz = "0xffffffff" and x = 0 and y = 524] by fastforce
qed

text \<open>The initialisation writes two headers.\<close>

definition init_heap :: "nat \<Rightarrow> u32 \<Rightarrow> u32 \<Rightarrow> u8 list \<Rightarrow> heap" where
  "init_heap n b e bs = \<lparr>heap_ptr = b,
     heap_bytes = put_header (e - b - 12) (block_header (e - b - 12) (e - b - 12, True)) (put_header 0 (block_header 0 (e - b - 12, False)) bs),
     heap_end = e - b - 12, lfree = 0, heap_sem = \<lparr>sem_id = n, sem_value = 1, sem_flag = RT_IPC_FLAG_FIFO\<rparr>,
     mem_size_aligned = e - b - 24, used_mem = 0, max_mem = 0\<rparr>"

lemma heap_init_run:
  assumes ctx: "not_in_interrupt s" and b: "4 dvd unat b" "4 dvd unat e" "unat b + 24 < unat e" "unat e < 2 ^ 32 - 12"
    and bs: "length bs = unat e - unat b"
  shows "rt_system_heap_init n b e bs s = Inr (Some (init_heap n b e bs), rt_ipc_object_init n s)"
    "header_at (heap_bytes (init_heap n b e bs)) 0 = block_header 0 (e - b - 12, False)"
    "header_at (heap_bytes (init_heap n b e bs)) (e - b - 12) = block_header (e - b - 12) (e - b - 12, True)"
    "length (heap_bytes (init_heap n b e bs)) = unat e - unat b" "unat (e - b - 12) = unat e - unat b - 12"
    "unat (e - b - 24) = unat e - unat b - 24"
proof -
  have al: "align4 b = b" "align_down4 e = e"
  proof -
    have "unat b + 3 < 2 ^ 32" using b(3,4) by simp
    then have "unat (align4 b) = unat b" using unat_align4 b(1) by (auto elim!: dvdE)
    then show "align4 b = b" by (simp only: word_unat_eq_iff)
    have "unat (align_down4 e) = unat e" unfolding align_down4_def unat_and_not_3 using b(2) by auto
    then show "align_down4 e = e" by (simp only: word_unat_eq_iff)
  qed
  have eb: "unat (e - b) = unat e - unat b" "unat (e - 24) = unat e - 24" using b(3) by (simp_all add: unat_sub word_le_nat_alt)
  then show u: "unat (e - b - 24) = unat e - unat b - 24" "unat (e - b - 12) = unat e - unat b - 12"
    using b(3) unat_sub [of 24 "e - b"] unat_sub [of 12 "e - b"] by (simp_all add: word_le_nat_alt)
  have en: "e - b - 24 + 12 = e - b - 12" by simp
  have c: "24 < e" "b \<le> e - 24" using b(3) eb(2) by (auto simp: word_less_nat_alt word_le_nat_alt)
  let ?e = "e - b - 12" and ?b1 = "put_header 0 (block_header 0 (e - b - 12, False)) bs"
  have len: "length ?b1 = length bs" "12 \<le> length bs" "unat ?e + 12 = length bs" using bs b(3) u(2) by simp_all
  show "header_at (heap_bytes (init_heap n b e bs)) 0 = block_header 0 (?e, False)"
    using header_put_other [of ?e ?b1 0] len u(2) b(3) by (simp add: init_heap_def)
  show "header_at (heap_bytes (init_heap n b e bs)) ?e = block_header ?e (?e, True)" using len by (simp add: init_heap_def)
  show "length (heap_bytes (init_heap n b e bs)) = unat e - unat b" using len bs by (simp add: init_heap_def)
  show "rt_system_heap_init n b e bs s = Inr (Some (init_heap n b e bs), rt_ipc_object_init n s)"
    using ctx al c len en
    by (simp add: rt_system_heap_init_def Let_def SIZEOF_STRUCT_MEM_def store_def rt_sem_init_def block_header_def init_heap_def)
qed

lemma init_heap_ok:
  assumes ctx: "not_in_interrupt s" and b: "4 dvd unat b" "4 dvd unat e" "unat b + 36 \<le> unat e" "unat e < 2 ^ 32 - 12"
    and bs: "length bs = unat e - unat b"
  shows "heap_inv (init_heap n b e bs) [(e - b - 12, False)]"
proof -
  have b': "unat b + 24 < unat e" using b(3) by simp
  note r = heap_init_run(1-4) [OF ctx b(1,2) b' b(4) bs, where n = n] heap_init_run(5,6) [OF ctx b(1,2) b' b(4) bs]
  let ?h = "init_heap n b e bs"
  have f: "heap_end ?h = e - b - 12" "heap_ptr ?h = b" "lfree ?h = 0" "used_mem ?h = 0" "mem_size_aligned ?h = e - b - 24" "sem_value (heap_sem ?h) = 1"
    by (simp_all add: init_heap_def)
  have d: "4 dvd unat (e - b - 12)" unfolding r(5) using b(1,2) by (intro dvd_diff_nat) simp_all
  show ?thesis
    using r(2-6) d b(1,3,4) by (simp add: heap_inv_def heap_chain_def lfree_ok_def word_le_nat_alt f) arith
qed

text \<open>
  C0: A heap is initialised to one free block, which is the lowest. The smallest region for which this
  holds has 36 bytes.
\<close>

theorem rt_system_heap_init_ok:
  assumes ctx: "not_in_interrupt s" and b: "4 dvd unat b" "4 dvd unat e" "unat b + 36 \<le> unat e" "unat e < 2 ^ 32 - 12"
    and bs: "length bs = unat e - unat b"
  shows "\<exists>h. rt_system_heap_init n b e bs s = Inr (Some h, rt_ipc_object_init n s) \<and> heap_inv h [(e - b - 12, False)] \<and>
    lfree_lowest h [(e - b - 12, False)] \<and> heap_ptr h = b \<and> sem_value (heap_sem h) = 1"
proof -
  have b': "unat b + 24 < unat e" using b(3) by simp
  have "sem_value (heap_sem (init_heap n b e bs)) = 1" "heap_ptr (init_heap n b e bs) = b"
      "lfree_lowest (init_heap n b e bs) [(e - b - 12, False)]"
    by (simp_all add: init_heap_def lfree_lowest_def)
  then show ?thesis using heap_init_run(1) [OF ctx b(1,2) b' b(4) bs] init_heap_ok [OF ctx b bs] by blast
qed

theorem rt_system_heap_init_ok_witness:
  "\<exists>h. rt_system_heap_init 1 0x1000 0x2000 (replicate 4096 0) (example_wait 10 []) = Inr (Some h, rt_ipc_object_init 1 (example_wait 10 [])) \<and>
     heap_inv h [(4084, False)]"
  using rt_system_heap_init_ok [OF example_heap_ok(4), where b = "0x1000" and e = "0x2000" and bs = "replicate 4096 0" and n = 1] by auto

lemma unat_minus_12: "unat (x :: u32) < 12 \<Longrightarrow> unat (x - 12) = 2 ^ 32 - (12 - unat x)"
  by (simp add: unat_sub_if')

text \<open>The header at the end leads the walk to itself.\<close>

lemma search_stuck:
  assumes "load h e = Inr m" "used m \<noteq> 0" "mem_next m = e" "e < mem_size_aligned h - sz"
  shows "malloc_search k h sz e = Inl Endless_Loop"
  by (induction k) (use assms in simp_all)

text \<open>
  C0: On a region of 28 to 32 bytes the initialisation succeeds as well, but there is no room for the
  smallest block; the bound of the walk wraps around, and an allocation goes round in the last header
  for ever.
\<close>

theorem tiny_heap_hangs:
  assumes ctx: "not_in_interrupt s" and b: "4 dvd unat b" "4 dvd unat e" "unat b + 24 < unat e" "unat e < unat b + 36" "unat e < 2 ^ 32 - 12"
    and bs: "length bs = unat e - unat b" and sz: "0 < unat sz" "unat sz + unat b + 24 \<le> unat e"
  shows "\<exists>h. rt_system_heap_init n b e bs s = Inr (Some h, rt_ipc_object_init n s) \<and>
    rt_malloc sz h (rt_ipc_object_init n s) = Inl Endless_Loop"
proof -
  note r = heap_init_run(1-4) [OF ctx b(1-3,5) bs, where n = n] heap_init_run(5,6) [OF ctx b(1-3,5) bs]
  let ?h = "init_heap n b e bs" and ?s = "rt_ipc_object_init n s" and ?e = "e - b - 12" and ?m = "e - b - 24"
  have f: "heap_end ?h = ?e" "lfree ?h = 0" "mem_size_aligned ?h = ?m" "sem_value (heap_sem ?h) = 1" "sem_id (heap_sem ?h) = n"
    by (simp_all add: init_heap_def)
  have un: "unlocked ?h ?s" using f by (simp add: unlocked_def rt_ipc_object_init_def)
  have ctx': "not_in_interrupt ?s" using ctx by (simp add: not_in_interrupt_def rt_ipc_object_init_def rt_interrupt_get_nest_def)
  have szlt: "unat sz < 12" using sz(2) b(4) by simp
  have ne: "sz \<noteq> 0" using sz(1) by auto
  have "4 dvd unat ?m" unfolding r(6) using b(1,2) by (intro dvd_diff_nat) simp_all
  then obtain k where k: "unat ?m = 4 * k" by (auto elim: dvdE)
  have "unat (align4 sz) = (unat sz + 3) div 4 * 4" using unat_align4 [of sz] szlt by simp
  moreover have "unat sz \<le> unat ?m" using sz(2) r(6) by simp
  ultimately have le: "unat (align4 sz) \<le> unat ?m" using k by simp
  have m12: "unat ?m < 12" "unat ?m + 12 = unat ?e" using r(5,6) b(3,4) by simp_all
  then have as: "alloc_size sz = 12"
    using le by (auto simp: alloc_size_def MIN_SIZE_ALIGNED_def word_less_nat_alt)
  have big: "unat (?m - 12) = 2 ^ 32 - (12 - unat ?m)" using m12(1) by (rule unat_minus_12)
  then have lt: "0 < ?m - 12" "?e < ?m - 12" using m12 by (auto simp: word_less_nat_alt)
  have l0: "load (sem_held ?h) 0 = Inr (block_header 0 (?e, False))" "load (sem_held ?h) ?e = Inr (block_header ?e (?e, True))"
    using r(2-5) b(3) by (simp_all add: load_def)
  have "\<not> 12 \<le> ?e - (0 + SIZEOF_STRUCT_MEM)"
  proof -
    have eq: "?e - (0 + SIZEOF_STRUCT_MEM) = ?m" by (simp add: SIZEOF_STRUCT_MEM_def)
    have "\<not> 12 \<le> ?m" using m12(1) unfolding word_le_nat_alt by simp
    then show ?thesis unfolding eq .
  qed
  then have "malloc_search (Suc k) (sem_held ?h) 12 0 = malloc_search k (sem_held ?h) 12 ?e" for k
    using l0(1) lt(1) f(3) by simp
  moreover have "malloc_search k (sem_held ?h) 12 ?e = Inl Endless_Loop" for k
    by (rule search_stuck [OF l0(2)]) (use lt(2) f(3) in simp_all)
  ultimately have "rt_malloc_locked 12 (sem_held ?h) ?s = Inl Endless_Loop" using f(2) by (simp add: rt_malloc_locked_def del: malloc_search.simps)
  moreover have "\<not> align4 sz > mem_size_aligned ?h" using le f(3) by (simp add: word_less_nat_alt)
  ultimately have "rt_malloc sz ?h ?s = Inl Endless_Loop" using rt_malloc_run [OF ne ctx' un] as by simp
  then show ?thesis using r(1) by blast
qed

theorem tiny_heap_hangs_witness:
  "\<exists>h. rt_system_heap_init 1 0x1000 0x1020 (replicate 32 0) (example_wait 10 []) = Inr (Some h, rt_ipc_object_init 1 (example_wait 10 [])) \<and>
     rt_malloc 4 h (rt_ipc_object_init 1 (example_wait 10 [])) = Inl Endless_Loop"
  using tiny_heap_hangs [OF example_heap_ok(4), where b = "0x1000" and e = "0x1020" and bs = "replicate 32 0" and n = 1 and sz = 4] by auto

end
