(* ===== verification/Heap_Realloc.thy ===== *)
theory Heap_Realloc
  imports Heap_Properties
begin

text \<open>
  Writes of the client into its blocks, \<open>rt_calloc\<close> and \<open>rt_realloc\<close>.
\<close>

section \<open>Writes into a block\<close>

lemma chain_same_headers:
  assumes "chain bs pr p L" "length bs' = length bs"
    and "\<And>u q n. (q, n) \<in> blocks u p L \<Longrightarrow> header_at bs' q = header_at bs q"
  shows "chain bs' pr p L"
  using assms
proof (induction L arbitrary: pr p)
  case (Cons b L)
  have "chain bs' p (fst b) L"
  proof (rule Cons.IH)
    show "header_at bs' q = header_at bs q" if "(q, n) \<in> blocks u (fst b) L" for u q n
      using Cons.prems(3) [of q n u] that by simp
  qed (use Cons.prems in auto)
  then show ?case using Cons.prems(1,2) Cons.prems(3) [of p "fst b" "snd b"] by auto
qed simp

text \<open>A write into the data of an allocated block leaves the heap and all other blocks alone.\<close>

lemma heap_write_ok:
  assumes inv: "heap_inv h L" and b: "(p, n) \<in> allocated L" and len: "unat off + length xs + unat p + 12 \<le> unat n"
  shows "\<exists>h'. heap_write (data_addr h p + off) xs h = Inr h' \<and> heap_inv h' L \<and> (lfree_lowest h L \<longrightarrow> lfree_lowest h' L) \<and>
    same_heap h h' \<and> data_kept (allocated L - {(p, n)}) h h' \<and>
    (\<forall>k < length (heap_bytes h). heap_bytes h' ! k =
      (if unat p + 12 + unat off \<le> k \<and> k < unat p + 12 + unat off + length xs then xs ! (k - (unat p + 12 + unat off)) else heap_bytes h ! k)) \<and>
    h' = h\<lparr>heap_bytes := heap_bytes h'\<rparr>"
proof -
  note i = heap_invD [OF inv]
  note c = heap_chainD [OF i(1)]
  note ad = data_addr_facts [OF i(1) b]
  let ?k = "unat p + 12 + unat off"
  let ?bs = "splice_at ?k xs (heap_bytes h)"
  have eq: "data_addr h p + off - heap_ptr h = p + 12 + off" by simp
  have "unat (p + 12) = unat p + 12" using ad(7,8) c(4) by (intro unat_add_small [of p 12, simplified]) simp
  then have "unat (p + 12 + off) = ?k" using len ad(8) c(4) unat_add_small [of "p + 12" off] by simp
  then have idx: "unat (data_addr h p + off - heap_ptr h) = ?k" unfolding eq .
  have fit: "?k + length xs \<le> length (heap_bytes h)" using len ad(8) c(3) by simp
  have run: "heap_write (data_addr h p + off) xs h = Inr (h\<lparr>heap_bytes := ?bs\<rparr>)"
    using fit unfolding heap_write_def idx by simp
  have nth: "?bs ! k = (if ?k \<le> k \<and> k < ?k + length xs then xs ! (k - ?k) else heap_bytes h ! k)" if "k < length (heap_bytes h)" for k
    using nth_splice_at [OF fit that] .
  have len': "length ?bs = length (heap_bytes h)" using fit by simp
  have outside: "unat n \<le> unat q \<or> unat q \<le> unat p" if "(q, m) \<in> blocks u 0 L" for q m u
  proof (cases "(p, n, True) = (q, m, u)")
    case False
    then show ?thesis using blocks_disjoint [OF c(7) b that] blocks_range(2) [OF c(7) that] by fastforce
  qed simp
  have hd: "header_at ?bs q = header_at (heap_bytes h) q" if "unat n \<le> unat q \<or> unat q \<le> unat p" for q
  proof (rule header_at_cong [OF len'])
    fix k assume "unat q \<le> k" "k < unat q + 12" "k < length ?bs"
    then show "?bs ! k = heap_bytes h ! k" using nth [of k] that len len' by auto
  qed
  have "chain ?bs 0 0 L" by (rule chain_same_headers [OF c(7) len']) (use hd outside in blast)
  moreover have "header_at ?bs (heap_end h) = header_at (heap_bytes h) (heap_end h)" using hd ad(8) by simp
  ultimately have "heap_chain (h\<lparr>heap_bytes := ?bs\<rparr>) L" using i(1) len' by (simp add: heap_chain_def tail_def)
  then have "heap_inv (h\<lparr>heap_bytes := ?bs\<rparr>) L" using i by (simp add: heap_inv_def lfree_ok_def)
  moreover have "data_kept (allocated L - {(p, n)}) h (h\<lparr>heap_bytes := ?bs\<rparr>)"
  proof (rule data_keptI)
    fix x y k assume "(x, y) \<in> allocated L - {(p, n)}" and le: "unat x + 12 \<le> k" "k < unat y"
    then have xy: "(x, y) \<in> allocated L" "(x, y) \<noteq> (p, n)" by simp_all
    have "unat n \<le> unat x \<or> unat y \<le> unat p" using blocks_disjoint [OF c(7) b xy(1)] xy(2) by auto
    moreover have "k < length (heap_bytes h)" using data_addr_facts(8) [OF i(1) xy(1)] c(3) le(2) by simp
    ultimately show "heap_bytes (h\<lparr>heap_bytes := ?bs\<rparr>) ! k = heap_bytes h ! k" using nth [of k] le len by auto
  qed
  ultimately show ?thesis using run nth len' by (auto simp: lfree_lowest_def same_heap_def)
qed

text \<open>\<open>rt_calloc\<close> without overflow hands out a block whose bytes are zero.\<close>

theorem rt_calloc_zeroed:
  assumes inv: "heap_inv h L" and un: "unlocked h s" and ctx: "not_in_interrupt s"
    and sz: "0 < unat cnt * unat sz" "unat cnt * unat sz + 3 < 2 ^ 32"
  shows "\<exists>r h'. rt_calloc cnt sz h s = Inr (r, h', s) \<and>
    (case r of
       Ptr a \<Rightarrow> \<exists>L' p n. a = data_addr h p \<and> heap_inv h' L' \<and> allocated L' = insert (p, n) (allocated L) \<and>
         unat p + 12 + unat cnt * unat sz \<le> unat n \<and> data_kept (allocated L) h h' \<and>
         (\<forall>k < unat cnt * unat sz. heap_bytes h' ! (unat p + 12 + k) = 0)
     | Null \<Rightarrow> h' = h
     | Waits \<Rightarrow> False)"
proof -
  have u: "unat (cnt * sz) = unat cnt * unat sz" using sz(2) by (simp add: unat_word_ariths)
  then have ne: "cnt * sz \<noteq> 0" "unat (cnt * sz) + 3 < 2 ^ 32" using sz by auto
  show ?thesis
  proof (rule rt_malloc_cases [OF inv un ctx ne])
    assume "rt_malloc (cnt * sz) h s = Inr (Null, h, s)"
    then show ?thesis by (simp add: rt_calloc_def)
  next
    fix p n h1 L1
    assume a: "rt_malloc (cnt * sz) h s = Inr (Ptr (data_addr h p), h1, s)" "heap_inv h1 L1" "allocated L1 = insert (p, n) (allocated L)"
      "unat p + 12 + unat (cnt * sz) \<le> unat n" "\<forall>(x, y) \<in> allocated L. unat y \<le> unat p \<or> unat n \<le> unat x"
      "data_kept (allocated L) h h1" "same_heap h h1"
    have b: "(p, n) \<in> allocated L1" using a(3) by simp
    have e: "heap_ptr h1 = heap_ptr h" using a(7) by (simp add: same_heap_def)
    let ?xs = "replicate (unat (cnt * sz)) 0 :: u8 list"
    obtain h' where h': "heap_write (data_addr h p) ?xs h1 = Inr h'" "heap_inv h' L1" "data_kept (allocated L1 - {(p, n)}) h1 h'"
      "\<forall>k < length (heap_bytes h1). heap_bytes h' ! k =
        (if unat p + 12 \<le> k \<and> k < unat p + 12 + length ?xs then ?xs ! (k - (unat p + 12)) else heap_bytes h1 ! k)"
      using heap_write_ok [OF a(2) b, of 0 ?xs] a(4) e by auto
    have "n \<noteq> p" "(p, n) \<notin> allocated L"
      using a(5) data_addr_facts(7) [OF heap_invD(1) [OF a(2)] b] by auto
    then have "allocated L1 - {(p, n)} = allocated L" using a(3) by simp
    then have kept: "data_kept (allocated L) h h'" using data_kept_trans [OF a(6)] h'(3) by simp
    note ad = data_addr_facts(8) [OF heap_invD(1) [OF a(2)] b] heap_chainD(3) [OF heap_invD(1) [OF a(2)]]
    have "heap_bytes h' ! (unat p + 12 + k) = 0" if "k < unat cnt * unat sz" for k
      using h'(4) [rule_format, of "unat p + 12 + k"] that u a(4) ad by simp
    moreover have "rt_calloc cnt sz h s = Inr (Ptr (data_addr h p), h', s)" using a(1) h'(1) by (simp add: rt_calloc_def)
    ultimately show ?thesis using h'(2) a(3,4) kept u by (intro exI [of _ "Ptr (data_addr h p)"] exI [of _ h']) auto
  qed
qed

theorem rt_calloc_zeroed_witness:
  "\<exists>r h'. rt_calloc 25 4 example_heap (example_wait 10 []) = Inr (r, h', example_wait 10 [])"
  using rt_calloc_zeroed [OF example_heap_ok(1,3,4), of 25 4] by auto

section \<open>Reallocation in place\<close>

lemma realloc_same:
  assumes inv: "heap_inv h L" and b: "(p, n) \<in> allocated L"
  shows "realloc_in_place (data_addr h p) ns h =
    (let sz = n - p - SIZEOF_STRUCT_MEM
     in if sz = ns then Inr (True, sz, h)
        else if ns + SIZEOF_STRUCT_MEM + 12 < sz then
          rbind (split_off p (p + SIZEOF_STRUCT_MEM + ns) n (\<lambda>m. m\<lparr>mem_next := p + SIZEOF_STRUCT_MEM + ns\<rparr>)
              (h\<lparr>used_mem := used_mem h - (sz - ns)\<rparr>)) (\<lambda>h.
          rbind (plug_holes (p + SIZEOF_STRUCT_MEM + ns) h) (\<lambda>h. Inr (True, sz, h)))
        else Inr (False, sz, h))"
proof -
  note ad = data_addr_facts(5) [OF heap_invD(1) [OF inv] b]
  obtain L1 L2 where L: "L = L1 @ (n, True) # L2" "ends 0 L1 = p" using blocks_split [OF b] .
  note a = heap_chain_at [OF heap_invD(1) [OF inv, unfolded L(1)] refl, simplified, unfolded L(2)]
  have "load h p = Inr (block_header (last_start 0 0 L1) (n, True))" using a(1,3) by (simp add: load_in)
  then show ?thesis by (simp add: realloc_in_place_def ad Let_def)
qed

text \<open>Without a free neighbour \<open>plug_holes\<close> does nothing.\<close>

lemma plug_holes_idle:
  assumes ch: "heap_chain h (L1 @ (n, False) # L2)" and p: "p = ends 0 L1" and used: "L1 = [] \<or> snd (last L1)" "L2 = [] \<or> snd (hd L2)"
  shows "plug_holes p h = Inr h"
proof -
  note a = heap_chain_at [OF ch p, simplified]
  have pn: "p < heap_end h" using a(2,4) by (auto simp: word_less_nat_alt)
  have ld: "load h p = Inr (block_header (last_start 0 0 L1) (n, False))" "load h n = Inr (header_at (heap_bytes h) n)"
    using a(1,3,8) by (simp_all add: load_in)
  have "used (header_at (heap_bytes h) n) \<noteq> 0"
  proof (cases L2)
    case (Cons b M)
    then show ?thesis using a(7) used(2) by (cases b) auto
  qed (use a(7) in simp)
  then have f: "plug_forward p n (header_at (heap_bytes h) n) h = Inr h" by (simp add: plug_forward_def)
  have "plug_backward p h = Inr h"
  proof (cases L1 rule: rev_cases)
    case Nil
    then show ?thesis using p ld by (simp add: plug_backward_def)
  next
    case (snoc L0 c)
    then have c: "heap_chain h (L0 @ c # (n, False) # L2)" "last_start 0 0 L1 = ends 0 L0" using ch by auto
    note d = heap_chain_at [OF c(1) refl]
    have "load h (ends 0 L0) = Inr (block_header (last_start 0 0 L0) c)" using d(1,3) by (simp add: load_in)
    then show ?thesis using ld(1) c(2) used(1) snoc by (cases c) (simp add: plug_backward_def)
  qed
  then show ?thesis using pn ld f by (simp add: plug_holes_def)
qed

lemma realloc_shrink:
  assumes inv: "heap_inv h (L1 @ (n, True) # L2)" and p: "p = ends 0 L1"
    and ns: "4 dvd unat ns" "0 < unat ns" "unat ns + 24 < unat n - unat p - 12"
  shows "\<exists>h'. realloc_in_place (data_addr h p) ns h = Inr (True, n - p - 12, h') \<and>
    heap_inv h' (merge_layout (L1 @ [(p + 12 + ns, True)]) n L2) \<and> same_heap h h' \<and> unat (p + 12 + ns) = unat p + 12 + unat ns \<and>
    allocated (merge_layout (L1 @ [(p + 12 + ns, True)]) n L2) = insert (p, p + 12 + ns) (allocated (L1 @ (n, True) # L2) - {(p, n)}) \<and>
    data_kept (insert (p, p + 12 + ns) (allocated (L1 @ (n, True) # L2) - {(p, n)})) h h' \<and>
    (L2 = [] \<or> snd (hd L2) \<longrightarrow> lfree h' = lfree h)"
proof -
  let ?L = "L1 @ (n, True) # L2" and ?p2 = "p + 12 + ns"
  let ?L' = "merge_layout (L1 @ [(?p2, True)]) n L2" and ?A = "insert (p, ?p2) (allocated ?L - {(p, n)})"
  note i = heap_invD [OF inv]
  have b: "(p, n) \<in> allocated ?L" using p by simp
  note a = heap_chain_at [OF i(1) p, simplified]
  have n32: "unat n < 2 ^ 32" using unsigned_less [of n] by simp
  then have p2: "unat ?p2 = unat p + 12 + unat ns" using ns(3) by (simp add: unat_word_ariths)
  have al: "4 dvd unat p" using ends_aligned [OF a(6)] p by simp
  have sp: "unat p + 16 \<le> unat ?p2" "unat ?p2 + 16 \<le> unat n" "4 dvd unat ?p2"
    using p2 ns al by (auto elim!: dvdE)
  let ?h0 = "h\<lparr>used_mem := used_mem h - (n - p - SIZEOF_STRUCT_MEM - ns)\<rparr>"
  have ch0: "heap_chain ?h0 ?L" using i(1) heap_chain_cong [of ?h0 h] by simp
  obtain h1 where h1: "split_off p ?p2 n (\<lambda>m. m\<lparr>mem_next := ?p2\<rparr>) ?h0 = Inr h1" "heap_chain h1 (L1 @ (?p2, True) # (n, False) # L2)"
      "data_kept (blocks True 0 L1 \<union> {(p, ?p2)} \<union> blocks True n L2) ?h0 h1" "h1 = ?h0\<lparr>heap_bytes := heap_bytes h1\<rparr>" "same_heap ?h0 h1"
    using split_step [OF ch0 p sp, of "\<lambda>m. m\<lparr>mem_next := ?p2\<rparr>"] unfolding block_header_simps by blast
  have f1: "lfree h1 = lfree h" "used_mem h1 = used_mem h - (n - p - 12 - ns)" "heap_end h1 = heap_end h"
    using arg_cong [OF h1(4), of lfree] arg_cong [OF h1(4), of used_mem] arg_cong [OF h1(4), of heap_end]
    by (simp_all add: SIZEOF_STRUCT_MEM_def)
  have ch1: "heap_chain h1 ((L1 @ [(?p2, True)]) @ (n, False) # L2)" and e1: "?p2 = ends 0 (L1 @ [(?p2, True)])" using h1(2) by simp_all
  obtain h' where h': "plug_holes ?p2 h1 = Inr h'" "merged h1 h' ((L1 @ [(?p2, True)]) @ (n, False) # L2) ?L'"
    using plug_holes_ok [OF ch1 e1] by blast
  have alloc: "allocated ((L1 @ [(?p2, True)]) @ (n, False) # L2) = ?A"
    using allocated_without [OF heap_chainD(7) [OF i(1)] p] p by auto
  have A: "?A = blocks True 0 L1 \<union> {(p, ?p2)} \<union> blocks True n L2"
    using allocated_without [OF heap_chainD(7) [OF i(1)] p] p by auto
  have "lfree_ok h1 ((L1 @ [(?p2, True)]) @ (n, False) # L2)" using i(3) f1 p by (auto simp: lfree_ok_def)
  moreover have "used_mem h1 = used_bytes 0 ((L1 @ [(?p2, True)]) @ (n, False) # L2)"
    using f1(2) i(4) p by (simp add: algebra_simps)
  moreover have "no_adjacent (L1 @ [(?p2, True)])" "no_adjacent L2" using i(2) by (auto simp: no_adjacent_append no_adjacent_Cons)
  ultimately have "heap_inv h' ?L'" using h'(2) merge_layout_no_adjacent by (auto simp: heap_inv_def merged_def)
  moreover have "data_kept ?A h h1" using h1(3) unfolding A [symmetric] by (simp add: data_kept_def)
  then have "data_kept ?A h h'" using h'(2) alloc data_kept_trans by (auto simp: merged_def)
  moreover have "same_heap h h'" using h1(5) h'(2) by (simp add: merged_def same_heap_def)
  moreover have "lfree h' = lfree h" if "L2 = [] \<or> snd (hd L2)"
    using plug_holes_idle [OF ch1 e1 _ that] h'(1) f1(1) by simp
  moreover have "realloc_in_place (data_addr h p) ns h = Inr (True, n - p - 12, h')"
  proof -
    have "unat n \<ge> unat p + 16" using a(2) by simp
    note r = room_of(2) [OF this]
    have "n - p - 12 \<noteq> ns" using r ns(3) by auto
    moreover have "unat (ns + 12 + 12) = unat ns + 24" using ns(3) n32 by (simp add: unat_word_ariths)
    then have "ns + 12 + 12 < n - p - 12" using r ns(3) by (simp add: word_less_nat_alt del: diff_diff_eq)
    ultimately show ?thesis
      using h1(1) h'(1) realloc_same [OF inv b, of ns] by (simp add: SIZEOF_STRUCT_MEM_def Let_def del: diff_diff_eq)
  qed
  moreover have "allocated ?L' = ?A" using h'(2) alloc by (simp add: merged_def)
  ultimately show ?thesis using p2 by blast
qed

section \<open>Reallocation\<close>

lemma heap_read_block:
  assumes ch: "heap_chain h L" and b: "(p, n) \<in> blocks u 0 L" and k: "unat p + 12 + k \<le> unat n"
  shows "heap_read h (data_addr h p) k = Inr (take k (drop (unat p + 12) (heap_bytes h)))"
proof -
  note ad = data_addr_facts(7,8) [OF ch b]
  have eq: "data_addr h p - heap_ptr h = p + 12" by simp
  have "unat (p + 12) = unat p + 12" using ad heap_chainD(4) [OF ch] unat_add_small [of p 12] by simp
  then show ?thesis using k ad(2) heap_chainD(3) [OF ch] unfolding heap_read_def eq by simp
qed

text \<open>
  After a reallocation to \<open>ns\<close> bytes the first bytes of the block are those it had. The block has moved, has shrunk
  in its place, or stays as it is; other blocks are not touched. After null nothing has changed.
\<close>

lemma rt_realloc_block:
  assumes inv: "heap_inv h L" and un: "unlocked h s" and ctx: "not_in_interrupt s" and b: "(p, n) \<in> allocated L"
    and ns: "ns \<noteq> 0" "unat ns + 3 < 2 ^ 32"
  shows "(\<exists>h'. rt_realloc (data_addr h p) ns h s = Inr (Null, h', s) \<and> h' = h) \<or>
    (\<exists>q m h' L'. rt_realloc (data_addr h p) ns h s = Inr (Ptr (data_addr h q), h', s) \<and> heap_inv h' L' \<and>
      allocated L' = insert (q, m) (allocated L - {(p, n)}) \<and> unat q + 12 + unat ns \<le> unat m \<and>
      (\<forall>(x, y) \<in> allocated L - {(p, n)}. unat y \<le> unat q \<or> unat m \<le> unat x) \<and>
      data_kept (allocated L - {(p, n)}) h h' \<and> same_heap h h' \<and> unlocked h' s \<and>
      (\<forall>k < min (unat ns) (unat n - unat p - 12). heap_bytes h' ! (unat q + 12 + k) = heap_bytes h ! (unat p + 12 + k)))"
proof -
  note i = heap_invD(1) [OF inv]
  note ad = data_addr_facts [OF i b]
  let ?a = "data_addr h p" and ?N = "align4 ns" and ?sz = "n - p - 12"
  have N: "unat ?N = (unat ns + 3) div 4 * 4" using unat_align4 [OF ns(2)] .
  have "unat ns \<noteq> 0" using ns(1) by (simp add: unat_eq_0)
  then have Nns: "unat ns \<le> unat ?N" "4 dvd unat ?N" "0 < unat ?N" using N by auto
  have N0: "?N \<noteq> 0" using Nns(3) by auto
  have szu: "unat ?sz = unat n - unat p - 12" using room_of(2) [OF ad(7)] .
  have run: "rt_realloc ?a ns h s = (if ?N > mem_size_aligned h then Inr (Null, h, s) else rt_realloc_locked ?a ?N (sem_held h) s)"
    using ctx N0 ad(2) by (simp add: rt_realloc_def Let_def heap_locked_run [OF un])
  show ?thesis
  proof (cases "?N > mem_size_aligned h")
    case True
    then show ?thesis using run by simp
  next
    case False
    have in': "in_heap (sem_held h) ?a" using ad(4) by (simp add: in_heap_def)
    have step: "rt_realloc_locked ?a ?N (sem_held h) s = rbind (realloc_in_place ?a ?N (sem_held h)) (\<lambda>(fits, sz, h).
        rbind (heap_unlock h s) (\<lambda>(h, s). if fits then Inr (Ptr ?a, h, s) else realloc_move ?a sz ?N h s))"
      using in' by (simp add: rt_realloc_locked_def)
    have inv': "heap_inv (sem_held h) L" using inv by simp
    note same = realloc_same [OF inv' b, of ?N, unfolded SIZEOF_STRUCT_MEM_def Let_def, simplified sem_held_simps]
    have unl: "heap_unlock (sem_held h) s = Inr (h, s)" using heap_unlock_run [OF un, of "sem_held h"] by simp
    have disj: "\<forall>(x, y) \<in> allocated L - {(p, n)}. unat y \<le> unat p \<or> unat n \<le> unat x"
      using blocks_disjoint [OF heap_chainD(7) [OF i] b] by fastforce
    consider "?sz = ?N" | "?sz \<noteq> ?N" "?N + 12 + 12 < ?sz" | "?sz \<noteq> ?N" "\<not> ?N + 12 + 12 < ?sz" by blast
    then show ?thesis
    proof cases
      case 1
      then have "rt_realloc ?a ns h s = Inr (Ptr ?a, h, s)" using run False step same unl by simp
      moreover have "allocated L = insert (p, n) (allocated L - {(p, n)})" using b by blast
      moreover have "unat p + 12 + unat ns \<le> unat n" using 1 szu Nns(1) ad(7) by simp
      ultimately show ?thesis using inv un disj by (intro disjI2 exI [of _ p] exI [of _ n] exI [of _ h] exI [of _ L]) simp
    next
      case 2
      have small: "unat ?N + 24 < unat n - unat p - 12"
      proof -
        have "unat ?N \<le> unat (mem_size_aligned h)" using False by (simp add: word_less_nat_alt)
        then have "unat (?N + 12 + 12) = unat ?N + 24"
          using mem_size_facts(1) [OF i] heap_chainD(4) [OF i] by (simp add: unat_word_ariths)
        then show ?thesis using 2(2) szu by (simp add: word_less_nat_alt del: diff_diff_eq)
      qed
      obtain L1 L2 where L: "L = L1 @ (n, True) # L2" "p = ends 0 L1" using blocks_split [OF b] by metis
      obtain h1 where h1: "realloc_in_place (data_addr (sem_held h) p) ?N (sem_held h) = Inr (True, ?sz, h1)"
          "heap_inv h1 (merge_layout (L1 @ [(p + 12 + ?N, True)]) n L2)" "same_heap (sem_held h) h1"
          "unat (p + 12 + ?N) = unat p + 12 + unat ?N"
          "allocated (merge_layout (L1 @ [(p + 12 + ?N, True)]) n L2) = insert (p, p + 12 + ?N) (allocated L - {(p, n)})"
          "data_kept (insert (p, p + 12 + ?N) (allocated L - {(p, n)})) (sem_held h) h1"
        using realloc_shrink [OF inv' [unfolded L(1)] L(2) Nns(2,3) small] L(1) by blast
      let ?h = "sem_freed h h1"
      note fr = sem_freed_facts [OF h1(3)]
      have "heap_unlock h1 s = Inr (?h, s)" using h1(3) by (intro heap_unlock_run [OF un]) (simp add: same_heap_def)
      then have "rt_realloc ?a ns h s = Inr (Ptr ?a, ?h, s)" using run False step h1(1) by simp
      moreover have k: "data_kept (insert (p, p + 12 + ?N) (allocated L - {(p, n)})) h ?h" using fr(2) h1(6) by blast
      then have "heap_bytes ?h ! (unat p + 12 + k) = heap_bytes h ! (unat p + 12 + k)" if "k < unat ns" for k
        using that Nns(1) h1(4) by (simp add: data_kept_def)
      moreover have "\<forall>(x, y) \<in> allocated L - {(p, n)}. unat y \<le> unat p \<or> unat (p + 12 + ?N) \<le> unat x"
      proof -
        have "unat (p + 12 + ?N) \<le> unat n" using h1(4) small by simp
        then have "case xy of (x, y) \<Rightarrow> unat y \<le> unat p \<or> unat (p + 12 + ?N) \<le> unat x" if "xy \<in> allocated L - {(p, n)}" for xy
          using bspec [OF disj that] by (cases xy) auto
        then show ?thesis by blast
      qed
      moreover have "data_kept (allocated L - {(p, n)}) h ?h" using k by (rule data_kept_mono) blast
      ultimately show ?thesis
        using h1(2,4,5) fr(1) fr(3) [OF un] Nns(1)
        by (intro disjI2 exI [of _ p] exI [of _ "p + 12 + ?N"] exI [of _ ?h] exI [of _ "merge_layout (L1 @ [(p + 12 + ?N, True)]) n L2"]) simp
    next
      case 3
      have "realloc_in_place ?a ?N (sem_held h) = Inr (False, ?sz, sem_held h)" using same 3 by simp
      then have mv: "rt_realloc ?a ns h s = realloc_move ?a ?sz ?N h s" using run False step unl by simp
      have sN: "?N \<noteq> 0" "unat ?N + 3 < 2 ^ 32"
        using N0 False mem_size_facts(1) [OF i] heap_chainD(4) [OF i] by (simp_all add: word_less_nat_alt)
      show ?thesis
      proof (rule rt_malloc_cases [OF inv un ctx sN])
        assume "rt_malloc ?N h s = Inr (Null, h, s)"
        then show ?thesis using mv by (simp add: realloc_move_def)
      next
        fix q m h1 L1
        assume m: "rt_malloc ?N h s = Inr (Ptr (data_addr h q), h1, s)" "heap_inv h1 L1" "allocated L1 = insert (q, m) (allocated L)"
          "unat q + 12 + unat ?N \<le> unat m" "\<forall>(x, y) \<in> allocated L. unat y \<le> unat q \<or> unat m \<le> unat x"
          "data_kept (allocated L) h h1" "same_heap h h1" "unlocked h1 s"
        note i1 = heap_invD(1) [OF m(2)]
        have e: "heap_ptr h1 = heap_ptr h" using m(7) by (simp add: same_heap_def)
        have bq: "(q, m) \<in> allocated L1" "(p, n) \<in> allocated L1" using m(3) b by simp_all
        have disj: "unat n \<le> unat q \<or> unat m \<le> unat p" using m(5) b by blast
        let ?w = "if ?sz < ?N then ?sz else ?N"
        have w: "unat ?w = min (unat ?N) (unat n - unat p - 12)" using szu by (auto simp: word_less_nat_alt min_def simp del: diff_diff_eq)
        let ?xs = "take (unat ?w) (drop (unat p + 12) (heap_bytes h1))"
        have rdp: "heap_read h1 ?a (unat ?w) = Inr ?xs"
          using heap_read_block [OF i1 bq(2), of "unat ?w"] w ad(7) e by simp
        have len: "length ?xs = unat ?w"
          using w ad(7) data_addr_facts(8) [OF i1 bq(2)] heap_chainD(3) [OF i1] by simp
        have fit: "unat (0 :: u32) + length ?xs + unat q + 12 \<le> unat m"
        proof -
          have "unat ?w \<le> unat ?N" unfolding w by simp
          then show ?thesis unfolding len using m(4) by simp
        qed
        obtain h2 where h2: "heap_write (data_addr h1 q + 0) ?xs h1 = Inr h2" "heap_inv h2 L1" "same_heap h1 h2"
            "data_kept (allocated L1 - {(q, m)}) h1 h2"
            "\<forall>k < length (heap_bytes h1). heap_bytes h2 ! k = (if unat q + 12 + unat (0 :: u32) \<le> k \<and> k < unat q + 12 + unat (0 :: u32) + length ?xs
              then ?xs ! (k - (unat q + 12 + unat (0 :: u32))) else heap_bytes h1 ! k)"
            "h2 = h1\<lparr>heap_bytes := heap_bytes h2\<rparr>"
          using heap_write_ok [OF m(2) bq(1) fit] by blast
        have un2: "unlocked h2 s" using m(8) arg_cong [OF h2(6), of heap_sem] by (simp add: unlocked_def)
        have e2: "heap_ptr h2 = heap_ptr h" using h2(3) e by (simp add: same_heap_def)
        obtain h3 L3 where h3: "rt_free (data_addr h2 p) h2 s = Inr (Null, h3, s)" "heap_inv h3 L3" "allocated L3 = allocated L1 - {(p, n)}"
            "data_kept (allocated L1 - {(p, n)}) h2 h3" "same_heap h2 h3" "unlocked h3 s"
          using rt_free_block [OF h2(2) un2 ctx bq(2)] by blast
        have new: "(q, m) \<notin> allocated L" "(q, m) \<noteq> (p, n)"
          using m(5) disj data_addr_facts(7) [OF i1 bq(1)] by auto
        have al3: "allocated L3 = insert (q, m) (allocated L - {(p, n)})" using h3(3) m(3) new(2) by auto
        have k3: "data_kept (allocated L - {(p, n)}) h h3"
        proof (rule data_kept_trans [OF data_kept_mono [OF m(6)]])
          show "data_kept (allocated L - {(p, n)}) h1 h3"
            using data_kept_trans [OF data_kept_mono [OF h2(4)] data_kept_mono [OF h3(4)], of "allocated L - {(p, n)}"] m(3) new by auto
        qed simp
        have bytes: "heap_bytes h3 ! (unat q + 12 + k) = heap_bytes h ! (unat p + 12 + k)" if "k < min (unat ns) (unat n - unat p - 12)" for k
        proof -
          have k: "k < unat ?w" "k < unat ?N" using that w Nns(1) by simp_all
          have bq': "(q, m) \<in> allocated L1 - {(p, n)}" using bq(1) new(2) by simp
          have "heap_bytes h3 ! (unat q + 12 + k) = heap_bytes h2 ! (unat q + 12 + k)"
            by (rule data_keptD [OF h3(4) bq']) (use k(2) m(4) in simp_all)
          also have "\<dots> = ?xs ! k"
          proof -
            have lt: "unat q + 12 + k < length (heap_bytes h1)"
              using k(2) m(4) data_addr_facts(8) [OF i1 bq(1)] heap_chainD(3) [OF i1] by simp
            have "unat q + 12 + k - (unat q + 12 + unat (0 :: u32)) = k" by simp
            moreover have "unat q + 12 + unat (0 :: u32) \<le> unat q + 12 + k" "unat q + 12 + k < unat q + 12 + unat (0 :: u32) + length ?xs"
              unfolding len using k(1) by simp_all
            ultimately show ?thesis using h2(5) [rule_format, OF lt] by (simp only: simp_thms if_True)
          qed
          also have "\<dots> = heap_bytes h1 ! (unat p + 12 + k)"
            using k(1) w data_addr_facts(7,8) [OF i1 bq(2)] heap_chainD(3) [OF i1] by simp
          also have "\<dots> = heap_bytes h ! (unat p + 12 + k)" by (rule data_keptD [OF m(6) b]) (use that ad(7) in auto)
          finally show ?thesis .
        qed
        have "realloc_move ?a ?sz ?N h s = Inr (Ptr (data_addr h q), h3, s)"
          using m(1) rdp h2(1) h3(1) e e2 by (simp add: realloc_move_def)
        moreover have "same_heap h h3" using m(7) h2(3) h3(5) by (simp add: same_heap_def)
        moreover have "\<forall>(x, y) \<in> allocated L - {(p, n)}. unat y \<le> unat q \<or> unat m \<le> unat x" using m(5) by blast
        ultimately show ?thesis
          using mv h3(2,6) al3 k3 bytes m(4) Nns(1)
          by (intro disjI2 exI [of _ q] exI [of _ m] exI [of _ h3] exI [of _ L3]) simp
      qed
    qed
  qed
qed

text \<open>C38: C0: Shrinking a block in front of the lowest free block leaves its rest behind \<open>lfree\<close>: the walk of
  \<open>rt_malloc\<close> starts behind this block and does not find it.
\<close>

theorem realloc_loses_block:
  assumes inv: "heap_inv h (L1 @ (n, True) # L2)" and p: "p = ends 0 L1" and un: "unlocked h s" and ctx: "not_in_interrupt s"
    and ns: "4 dvd unat ns" "0 < unat ns" "unat ns + 24 < unat n - unat p - 12" and behind: "L2 = [] \<or> snd (hd L2)" "p < lfree h"
  shows "\<exists>h' L'. rt_realloc (data_addr h p) ns h s = Inr (Ptr (data_addr h p), h', s) \<and> heap_inv h' L' \<and>
    (p + 12 + ns, n) \<in> free L' \<and> \<not> lfree_lowest h' L' \<and>
    (\<forall>sz a h''. sz \<noteq> 0 \<longrightarrow> unat sz + 3 < 2 ^ 32 \<longrightarrow> rt_malloc sz h' s = Inr (Ptr a, h'', s) \<longrightarrow> a \<noteq> data_addr h (p + 12 + ns))"
proof -
  let ?L = "L1 @ (n, True) # L2" and ?p2 = "p + 12 + ns"
  let ?L' = "merge_layout (L1 @ [(?p2, True)]) n L2"
  note i = heap_invD [OF inv]
  have b: "(p, n) \<in> allocated ?L" using p by simp
  note ad = data_addr_facts [OF i(1) b]
  have inv': "heap_inv (sem_held h) ?L" using inv by simp
  have nlt: "unat ns + 3 < 2 ^ 32" using ns(3) unsigned_less [of n, where ?'a = nat] by simp
  have al: "align4 ns = ns"
  proof -
    have "unat (align4 ns) = unat ns" using unat_align4 [OF nlt] ns(1) by (auto elim!: dvdE)
    then show ?thesis by (simp only: word_unat_eq_iff)
  qed
  have "ns \<noteq> 0" using ns(2) by auto
  moreover have "\<not> ns > mem_size_aligned h" using ns(3) ad(8) mem_size_facts(1) [OF i(1)] by (simp add: word_less_nat_alt)
  ultimately have run: "rt_realloc (data_addr h p) ns h s = rt_realloc_locked (data_addr h p) ns (sem_held h) s"
    using ctx ad(2) al by (simp add: rt_realloc_def Let_def heap_locked_run [OF un])
  obtain h1 where h1: "realloc_in_place (data_addr (sem_held h) p) ns (sem_held h) = Inr (True, n - p - 12, h1)" "heap_inv h1 ?L'"
      "same_heap (sem_held h) h1" "unat ?p2 = unat p + 12 + unat ns" "L2 = [] \<or> snd (hd L2) \<longrightarrow> lfree h1 = lfree (sem_held h)"
    using realloc_shrink [OF inv' p ns] by blast
  let ?h = "sem_freed h h1"
  note fr = sem_freed_facts(1) [OF h1(3)] sem_freed_facts(3) [OF h1(3) un]
  have "heap_unlock h1 s = Inr (?h, s)" using h1(3) by (intro heap_unlock_run [OF un]) (simp add: same_heap_def)
  moreover have "in_heap (sem_held h) (data_addr h p)" using ad(4) by (simp add: in_heap_def)
  ultimately have r: "rt_realloc (data_addr h p) ns h s = Inr (Ptr (data_addr h p), ?h, s)"
    using run h1(1) by (simp add: rt_realloc_locked_def)
  have "merge_next n L2 = (n, False) # L2" using behind(1) by (cases L2) (auto simp: merge_next_def split: bool.splits)
  then have L': "?L' = (L1 @ [(?p2, True)]) @ (n, False) # L2" by (simp add: merge_layout_def)
  then have f: "(?p2, n) \<in> free ?L'" by simp
  have lf: "lfree ?h = lfree h" using h1(5) behind(1) by simp
  have low: "?p2 < lfree h"
  proof -
    note c = heap_chainD(7,8) [OF i(1)]
    have cc: "chain (heap_bytes h) 0 0 L1" "chain (heap_bytes h) p n L2" using c(1) p by simp_all
    consider "lfree h = heap_end h" | "lfree h \<in> free_starts 0 L1" | "lfree h \<in> free_starts n L2"
      using i(3) p by (auto simp: lfree_ok_def)
    then have "unat n \<le> unat (lfree h)"
    proof cases
      case 2
      then have "unat (lfree h) + 16 \<le> unat p" using free_starts_range(2) [OF cc(1)] p by simp
      then show ?thesis using behind(2) by (simp add: word_less_nat_alt)
    next
      case 3
      then show ?thesis using free_starts_range(1) [OF cc(2)] by (simp add: word_le_nat_alt)
    qed (use ad(8) in simp)
    then show ?thesis using h1(4) ns(3) by (simp add: word_less_nat_alt)
  qed
  have "?p2 \<in> free_starts 0 ?L'" unfolding L' by simp
  then have notlow: "\<not> lfree_lowest ?h ?L'" using low lf unfolding lfree_lowest_def by (metis leD)
  have "a \<noteq> data_addr h ?p2" if sz: "sz \<noteq> 0" "unat sz + 3 < 2 ^ 32" "rt_malloc sz ?h s = Inr (Ptr a, h'', s)" for sz a h''
  proof (rule rt_malloc_cases [OF _ fr(2) ctx sz(1,2)])
    show "heap_inv ?h ?L'" using h1(2) by simp
  next
    assume "rt_malloc sz ?h s = Inr (Null, ?h, s)"
    then show ?thesis using sz(3) by simp
  next
    fix q m h2 L2
    assume "rt_malloc sz ?h s = Inr (Ptr (data_addr ?h q), h2, s)" "lfree ?h \<le> q"
    then have q: "a = data_addr h q" "?p2 < q" using sz(3) lf low fr(1) by (auto simp: same_heap_def)
    show ?thesis
    proof
      assume "a = data_addr h ?p2"
      then have "q = ?p2" using q(1) by (metis add_left_cancel add_right_cancel)
      then show False using q(2) by blast
    qed
  qed
  then show ?thesis using r h1(2) f notlow by (intro exI [of _ ?h] exI [of _ ?L']) simp
qed

text \<open>Two used blocks, of 112 and of 12 bytes, and a free one behind them.\<close>

definition example_used_heap :: heap where
  "example_used_heap = (example_free_heap
      (put_header 0 (block_header 0 (124, True)) (put_header 124 (block_header 0 (148, True))
        (put_header 148 (block_header 124 (524, False)) (put_header 524 (block_header 148 (524, True)) (replicate 536 0))))))
    \<lparr>lfree := 148, used_mem := 148\<rparr>"

lemma example_used_heap_ok: "heap_inv example_used_heap [(124, True), (148, True), (524, False)]"
  "unlocked example_used_heap (example_wait 10 [])"
proof -
  let ?bs = "heap_bytes example_used_heap"
  have hd: "header_at ?bs 0 = block_header 0 (124, True)" "header_at ?bs 124 = block_header 0 (148, True)"
    "header_at ?bs 148 = block_header 124 (524, False)" "header_at ?bs 524 = block_header 148 (524, True)" "length ?bs = 536"
    by (simp_all add: example_used_heap_def example_free_heap_def header_put_other)
  have e: "heap_end example_used_heap = 524" "heap_ptr example_used_heap = 0x20000000" "mem_size_aligned example_used_heap = 512"
    "lfree example_used_heap = 148" "used_mem example_used_heap = 148" "heap_sem example_used_heap = \<lparr>sem_id = 1, sem_value = 1, sem_flag = 0\<rparr>"
    by (simp_all add: example_used_heap_def example_free_heap_def)
  then show "heap_inv example_used_heap [(124, True), (148, True), (524, False)]"
    using hd by (simp add: heap_inv_def heap_chain_def lfree_ok_def)
  show "unlocked example_used_heap (example_wait 10 [])" using e(6) example_wait_simps(4) [of 10 "[]"] by (simp add: unlocked_def)
qed

theorem realloc_loses_block_witness:
  "\<exists>h L. rt_realloc (data_addr example_used_heap 0) 16 example_used_heap (example_wait 10 [])
      = Inr (Ptr (data_addr example_used_heap 0), h, example_wait 10 []) \<and> (28, 124) \<in> free L \<and> heap_inv h L \<and> \<not> lfree_lowest h L"
proof -
  have i: "heap_inv example_used_heap ([] @ (124, True) # [(148, True), (524, False)])" using example_used_heap_ok(1) by simp
  have "0 < lfree example_used_heap" by (simp add: example_used_heap_def)
  then show ?thesis
    using realloc_loses_block [OF i _ example_used_heap_ok(2) example_heap_ok(4), where p = 0 and ns = 16] by auto
qed

end
