(* ===== verification/Memory_Pool.thy ===== *)
theory Memory_Pool
  imports Mailbox
begin

text \<open>
  Memory pools, \<^verbatim>\<open>rt-thread/src/mempool.c\<close>: blocks of a fixed size that threads allocate and wait
  for.

  \<^item> A block is its index in the pool. Its header holds the link to the next free block or, while
    the block is allocated, the address of the pool.
  \<^item> The waiting threads of the pool \<open>mp\<close> are the list \<open>Suspend_List (mp_id mp)\<close>; the pool counts
    them as well, in \<open>suspend_thread_count\<close>.
  \<^item> \<open>mp_rep mp f a\<close> says that the blocks \<open>f\<close> are free, in the order in which they will be handed
    out, and the blocks \<open>a\<close> allocated.
\<close>

section \<open>Operations\<close>

datatype header = Next "nat option" | Pool

record mempool =
  mp_id :: nat
  mp_static :: bool
  headers :: "header list"
  block_size :: u32
  block_list :: "nat option"
  block_total_count :: u32
  block_free_count :: u32
  suspend_thread_count :: u32

abbreviation mp_waiters :: "mempool \<Rightarrow> kernel \<Rightarrow> tid list" where
  "mp_waiters mp s \<equiv> lists s (Suspend_List (mp_id mp))"

text \<open>The loop that links the blocks, with \<open>k\<close> rounds to go, and the end of the list behind it.\<close>

fun mp_link :: "nat \<Rightarrow> nat \<Rightarrow> header list \<Rightarrow> fault + header list" where
  "mp_link offset 0 hs = (if offset = 0 then Inl Oob_Write else wr hs (offset - 1) (Next None))"
| "mp_link offset (Suc k) hs = rbind (wr hs offset (Next (Some (offset + 1)))) (mp_link (offset + 1) k)"

text \<open>\<open>hs\<close> are the headers of the pool as they are found.\<close>

definition rt_mp_init :: "nat \<Rightarrow> header list \<Rightarrow> u32 \<Rightarrow> u32 \<Rightarrow> kernel \<Rightarrow> fault + int \<times> mempool \<times> kernel" where
  "rt_mp_init n hs sz block_sz s =
     (let sz = align_down4 sz;
          block_sz = align4 block_sz
      in if block_sz + 4 = 0 then Inl Div_Zero
         else
           let total = sz div (block_sz + 4);
               s = rt_ipc_object_init n s
           in rbind (mp_link 0 (unat total) hs) (\<lambda>hs.
              Inr (RT_EOK, \<lparr>mp_id = n, mp_static = True, headers = hs, block_size = block_sz, block_list = Some 0,
                block_total_count = total, block_free_count = total, suspend_thread_count = 0\<rparr>, s)))"

text \<open>\<open>pool\<close> is what the heap gives for the blocks, if anything.\<close>

definition rt_mp_create ::
  "bool \<Rightarrow> header list option \<Rightarrow> nat \<Rightarrow> u32 \<Rightarrow> u32 \<Rightarrow> kernel \<Rightarrow> fault + mempool option \<times> kernel" where
  "rt_mp_create mem pool n block_count block_sz s =
     (if \<not> not_in_interrupt s then Inl Assert_Fail
      else if \<not> mem then Inr (None, s)
      else (case pool of
              None \<Rightarrow> Inr (None, s)
            | Some hs \<Rightarrow>
                let s = rt_ipc_object_init n s
                in rbind (mp_link 0 (unat block_count) hs) (\<lambda>hs.
                   Inr (Some \<lparr>mp_id = n, mp_static = False, headers = hs, block_size = align4 block_sz, block_list = Some 0,
                     block_total_count = block_count, block_free_count = block_count, suspend_thread_count = 0\<rparr>, s))))"

text \<open>The loop that wakes all waiting threads; as in \<open>resume_all_loop\<close>, \<open>n\<close> is their number.\<close>

fun mp_resume_all :: "nat \<Rightarrow> mempool \<Rightarrow> kernel \<Rightarrow> fault + mempool \<times> kernel" where
  "mp_resume_all 0 mp s = (if mp_waiters mp s = [] then Inr (mp, s) else Inl Endless_Loop)"
| "mp_resume_all (Suc n) mp s =
     (if mp_waiters mp s = [] then Inr (mp, s)
      else
        let t = hd (mp_waiters mp s);
            s = thr_upd t (\<lambda>r. r\<lparr>error := - RT_ERROR\<rparr>) s;
            s = snd (rt_thread_resume t s)
        in mp_resume_all n (mp\<lparr>suspend_thread_count := suspend_thread_count mp - 1\<rparr>) s)"

definition rt_mp_detach :: "mempool \<Rightarrow> kernel \<Rightarrow> fault + int \<times> mempool \<times> kernel" where
  "rt_mp_detach mp s =
     (if \<not> mp_static mp then Inl Assert_Fail
      else rbind (mp_resume_all (length (mp_waiters mp s)) mp s) (\<lambda>(mp, s). Inr (RT_EOK, mp, s)))"

definition rt_mp_delete :: "mempool \<Rightarrow> kernel \<Rightarrow> fault + int \<times> mempool \<times> kernel" where
  "rt_mp_delete mp s =
     (if \<not> not_in_interrupt s then Inl Assert_Fail
      else if mp_static mp then Inl Assert_Fail
      else rbind (mp_resume_all (length (mp_waiters mp s)) mp s) (\<lambda>(mp, s). Inr (RT_EOK, mp, s)))"

text \<open>The error number of the interrupts is not part of the model.\<close>

definition rt_set_errno :: "int \<Rightarrow> kernel \<Rightarrow> kernel" where
  "rt_set_errno e s =
     (if rt_interrupt_get_nest s \<noteq> 0 then s
      else case rt_thread_self s of None \<Rightarrow> s | Some t \<Rightarrow> thr_upd t (\<lambda>r. r\<lparr>error := e\<rparr>) s)"

text \<open>What an allocation has come to: a block or none, or the thread waits.\<close>

datatype allocation = Block nat | No_Block | Waiting

definition mp_alloc_try :: "mempool \<Rightarrow> int \<Rightarrow> kernel \<Rightarrow> fault + allocation \<times> mempool \<times> kernel" where
  "mp_alloc_try mp time s =
     (if block_free_count mp = 0 then
        if time = 0 then Inr (No_Block, mp, rt_set_errno (- RT_ETIMEOUT) s)
        else if \<not> not_in_interrupt s then Inl Assert_Fail
        else (case rt_thread_self s of
                None \<Rightarrow> Inl Null_Deref
              | Some t \<Rightarrow>
                  let s = thr_upd t (\<lambda>r. r\<lparr>error := RT_EOK\<rparr>) s
                  in rbind (rt_thread_suspend t s) (\<lambda>(_, s).
                     let s = link_first (Suspend_List (mp_id mp)) t s;
                         mp = mp\<lparr>suspend_thread_count := suspend_thread_count mp + 1\<rparr>
                     in rbind (if time > 0 then arm_timer t (word_of_int time) s else Inr s) (\<lambda>s.
                        rbind (rt_schedule s) (\<lambda>s. Inr (Waiting, mp, s)))))
      else
        let mp = mp\<lparr>block_free_count := block_free_count mp - 1\<rparr>
        in (case block_list mp of
              None \<Rightarrow> Inl Assert_Fail
            | Some i \<Rightarrow>
                rbind (rd (headers mp) i) (\<lambda>h.
                case h of
                  Pool \<Rightarrow> Inl Oob_Read
                | Next p \<Rightarrow> Inr (Block i, mp\<lparr>block_list := p, headers := (headers mp)[i := Pool]\<rparr>, s))))"

definition rt_mp_alloc :: "mempool \<Rightarrow> int \<Rightarrow> kernel \<Rightarrow> fault + allocation \<times> mempool \<times> kernel" where
  "rt_mp_alloc mp time s = mp_alloc_try mp time s"

text \<open>How the call goes on when the thread \<open>t\<close>, which started to wait at \<open>tick\<close>, is current again.\<close>

definition rt_mp_alloc_wake :: "tid \<Rightarrow> mempool \<Rightarrow> int \<Rightarrow> u32 \<Rightarrow> kernel \<Rightarrow> fault + allocation \<times> mempool \<times> kernel" where
  "rt_mp_alloc_wake t mp time tick s =
     (if error (threads s t) \<noteq> RT_EOK then Inr (No_Block, mp, s)
      else mp_alloc_try mp (time_left time tick s) s)"

text \<open>
  The pool of a block is found through its header; a header that does not hold the address of the
  pool makes the call write to some other place. So does a count of waiting threads when there is
  none: the head of the list is taken for a thread.
\<close>

definition rt_mp_free :: "mempool \<Rightarrow> nat \<Rightarrow> kernel \<Rightarrow> fault + mempool \<times> kernel" where
  "rt_mp_free mp i s =
     rbind (rd (headers mp) i) (\<lambda>h.
     if h \<noteq> Pool then Inl Oob_Write
     else
       let mp = mp\<lparr>block_free_count := block_free_count mp + 1, headers := (headers mp)[i := Next (block_list mp)],
                   block_list := Some i\<rparr>
       in if suspend_thread_count mp > 0 then
            (case mp_waiters mp s of
               [] \<Rightarrow> Inl Oob_Write
             | t # _ \<Rightarrow>
                 let s = thr_upd t (\<lambda>r. r\<lparr>error := RT_EOK\<rparr>) s;
                     s = snd (rt_thread_resume t s)
                 in rbind (rt_schedule s) (\<lambda>s. Inr (mp\<lparr>suspend_thread_count := suspend_thread_count mp - 1\<rparr>, s)))
          else Inr (mp, s))"

section \<open>Free and allocated blocks\<close>

fun free_chain :: "header list \<Rightarrow> nat option \<Rightarrow> nat list \<Rightarrow> bool" where
  "free_chain hs p [] \<longleftrightarrow> p = None"
| "free_chain hs p (i # js) \<longleftrightarrow> p = Some i \<and> i < length hs \<and> (\<exists>n. hs ! i = Next n \<and> free_chain hs n js)"

lemma free_chain_upd [simp]: "i \<notin> set js \<Longrightarrow> free_chain (hs[i := h]) p js = free_chain hs p js"
  by (induction js arbitrary: p) auto

lemma free_chain_less: "free_chain hs p js \<Longrightarrow> j \<in> set js \<Longrightarrow> j < length hs \<and> hs ! j \<noteq> Pool"
  by (induction js arbitrary: p) auto

definition mp_rep :: "mempool \<Rightarrow> nat list \<Rightarrow> nat set \<Rightarrow> bool" where
  "mp_rep mp f a \<longleftrightarrow> free_chain (headers mp) (block_list mp) f \<and> distinct f \<and> unat (block_free_count mp) = length f \<and>
     a = {i. i < length (headers mp) \<and> headers mp ! i = Pool} \<and> set f \<union> a = {..<unat (block_total_count mp)} \<and>
     length (headers mp) = unat (block_total_count mp)"

lemma mp_repD:
  assumes "mp_rep mp f a"
  shows "free_chain (headers mp) (block_list mp) f" "distinct f" "unat (block_free_count mp) = length f"
    "set f \<inter> a = {}" "set f \<union> a = {..<unat (block_total_count mp)}" "length (headers mp) = unat (block_total_count mp)"
    "i \<in> a \<longleftrightarrow> i < length (headers mp) \<and> headers mp ! i = Pool"
  using assms free_chain_less by (auto simp: mp_rep_def)

lemma mp_repI:
  assumes "free_chain (headers mp) (block_list mp) f" "distinct f" "unat (block_free_count mp) = length f"
    "\<And>i. i \<in> a \<longleftrightarrow> i < length (headers mp) \<and> headers mp ! i = Pool" "set f \<union> a = {..<unat (block_total_count mp)}"
    "length (headers mp) = unat (block_total_count mp)"
  shows "mp_rep mp f a"
  using assms unfolding mp_rep_def by blast

lemma mp_rep_count [simp]: "mp_rep (mp\<lparr>suspend_thread_count := n\<rparr>) f a = mp_rep mp f a"
  by (simp add: mp_rep_def)

text \<open>An allocation takes the first free block, and a release makes its block the first.\<close>

lemma mp_take:
  assumes rep: "mp_rep mp (i # f) a"
  shows "\<exists>mp'. (\<forall>s time. mp_alloc_try mp time s = Inr (Block i, mp', s)) \<and> mp_rep mp' f (insert i a) \<and>
    mp_id mp' = mp_id mp \<and> suspend_thread_count mp' = suspend_thread_count mp"
proof -
  note d = mp_repD [OF rep]
  obtain n where n: "headers mp ! i = Next n" "free_chain (headers mp) n f" using d(1) by auto
  let ?mp = "mp\<lparr>block_free_count := block_free_count mp - 1, block_list := n, headers := (headers mp)[i := Pool]\<rparr>"
  have i: "i < length (headers mp)" "block_list mp = Some i" "i \<notin> set f" using d(1,2) by auto
  have "1 \<le> block_free_count mp" using d(3) by (simp add: word_le_nat_alt)
  then have c: "unat (block_free_count mp - 1) = length f" using d(3) by (simp add: unat_sub)
  have ne: "block_free_count mp \<noteq> 0" using d(3) by auto
  have run: "mp_alloc_try mp time s = Inr (Block i, ?mp, s)" for time s
    using ne i n(1) by (simp add: mp_alloc_try_def)
  have a: "j \<in> insert i a \<longleftrightarrow> j < length (headers ?mp) \<and> headers ?mp ! j = Pool" for j
    using d(7) [of j] i(1) by (cases "j = i") simp_all
  have "mp_rep ?mp f (insert i a)"
    by (rule mp_repI [OF _ _ _ a]) (use n(2) i(3) c d(2,5,6) in auto)
  then show ?thesis using run by auto
qed

lemma mp_give:
  assumes rep: "mp_rep mp f a" and i: "i \<in> a"
  defines "mp' \<equiv> mp\<lparr>block_free_count := block_free_count mp + 1, headers := (headers mp)[i := Next (block_list mp)], block_list := Some i\<rparr>"
  shows "mp_rep mp' (i # f) (a - {i})" "rd (headers mp) i = Inr Pool"
proof -
  note d = mp_repD [OF rep]
  have out: "i < length (headers mp)" "headers mp ! i = Pool" "i \<notin> set f" using d(7) [of i] d(4) i by auto
  show "rd (headers mp) i = Inr Pool" using out by simp
  have "set (i # f) \<subseteq> {..<unat (block_total_count mp)}" using d(5) i by auto
  moreover have "distinct (i # f)" using d(2) out(3) by simp
  ultimately have "length (i # f) \<le> unat (block_total_count mp)" using distinct_bounded by blast
  moreover have "unat (block_total_count mp) < 2 ^ 32" using unsigned_less [of "block_total_count mp"] by simp
  ultimately have "Suc (unat (block_free_count mp)) < 2 ^ 32" using d(3) by simp
  then have c: "unat (block_free_count mp + 1) = Suc (length f)" using d(3) by (simp add: unat_word_ariths)
  have a: "j \<in> a - {i} \<longleftrightarrow> j < length (headers mp') \<and> headers mp' ! j = Pool" for j
    using d(7) [of j] out(1) by (cases "j = i") (simp_all add: mp'_def)
  have "set (i # f) \<union> (a - {i}) = {..<unat (block_total_count mp)}" using d(5) i by auto
  then show "mp_rep mp' (i # f) (a - {i})"
    by (intro mp_repI a) (use out c d(1,2,6) in \<open>auto simp: mp'_def\<close>)
qed

text \<open>The initialisation makes all blocks free.\<close>

lemma mp_link_ok:
  assumes "0 < k" "offset + k \<le> length hs"
  shows "\<exists>hs'. mp_link offset k hs = Inr hs' \<and> length hs' = length hs \<and> (\<forall>j < offset. hs' ! j = hs ! j) \<and>
    free_chain hs' (Some offset) [offset..<offset + k]"
  using assms
proof (induction k arbitrary: offset hs)
  case (Suc k)
  let ?hs = "hs[offset := Next (Some (offset + 1))]"
  have o: "offset < length hs" using Suc.prems(2) by simp
  show ?case
  proof (cases "k = 0")
    case True
    then show ?thesis using o by simp
  next
    case False
    then obtain hs' where hs': "mp_link (offset + 1) k ?hs = Inr hs'" "length hs' = length ?hs" "\<forall>j < offset + 1. hs' ! j = ?hs ! j"
        "free_chain hs' (Some (offset + 1)) [offset + 1..<offset + 1 + k]"
      using Suc.IH [of "offset + 1" ?hs] Suc.prems(2) by auto
    have "free_chain hs' (Some offset) [offset..<offset + Suc k]"
      using hs'(2-4) o by (simp add: upt_conv_Cons del: upt_Suc)
    then show ?thesis using hs' o by simp
  qed
qed simp

lemma pools_none:
  assumes "free_chain hs p js" "set js = {..<length hs}"
  shows "{i. i < length hs \<and> hs ! i = Pool} = {}"
  using assms free_chain_less [OF assms(1)] by fastforce

lemma rt_mp_init_ok:
  assumes "align4 block_sz + 4 \<noteq> 0" "cnt = align_down4 sz div (align4 block_sz + 4)" "0 < cnt" "length hs = unat cnt"
  shows "\<exists>mp. rt_mp_init n hs sz block_sz s = Inr (RT_EOK, mp, rt_ipc_object_init n s) \<and> mp_rep mp [0..<unat cnt] {} \<and>
    mp_id mp = n \<and> suspend_thread_count mp = 0"
proof -
  have "0 < unat cnt" using assms(3) by (simp add: word_less_nat_alt)
  then obtain hs' where hs': "mp_link 0 (unat cnt) hs = Inr hs'" "length hs' = length hs" "free_chain hs' (Some 0) [0..<unat cnt]"
    using mp_link_ok [of "unat cnt" 0 hs] assms(4) by auto
  have "{i. i < length hs' \<and> hs' ! i = Pool} = {}" using pools_none [OF hs'(3)] hs'(2) assms(4) by (simp add: lessThan_atLeast0)
  then show ?thesis
    using assms(1,2,4) hs' by (auto simp: rt_mp_init_def Let_def mp_rep_def lessThan_atLeast0)
qed

section \<open>Waiting threads\<close>

definition mp_counted :: "mempool \<Rightarrow> kernel \<Rightarrow> bool" where
  "mp_counted mp s \<longleftrightarrow> unat (suspend_thread_count mp) = length (mp_waiters mp s)"

lemma mp_alloc_waits:
  assumes inv: "kernel_inv 1 s" and c: "cur s = Some c" "stat_of s c = RT_THREAD_RUNNING" and nest: "rt_interrupt_nest s = 0"
    and time: "time < 0x7fffffff" "time \<noteq> 0" and empty: "block_free_count mp = 0"
  shows "\<exists>s'. mp_alloc_try mp time s = Inr (Waiting, mp\<lparr>suspend_thread_count := suspend_thread_count mp + 1\<rparr>, s') \<and>
    kernel_inv 1 s' \<and> waits_in (Suspend_List (mp_id mp)) (c # mp_waiters mp s) c (thr_upd c (\<lambda>r. r\<lparr>error := RT_EOK\<rparr>) s) s'"
proof -
  let ?s = "thr_upd c (\<lambda>r. r\<lparr>error := RT_EOK\<rparr>) s" and ?l = "Suspend_List (mp_id mp)"
  have i: "kernel_inv 1 ?s" using inv error_upd_inv by simp
  obtain s1 s2 where s2: "rt_thread_suspend c ?s = Inr (RT_EOK, s1)" "s2 = s1\<lparr>lists := (lists s1)(?l := [] @ c # mp_waiters mp s)\<rparr>"
      "lists s1 = lists ?s" "kernel_inv 1 s2" "data_frame ?s s2" "stat_of s2 c = RT_THREAD_SUSPEND"
      "\<forall>u. u \<noteq> c \<longrightarrow> stat_of s2 u = stat_of ?s u" "cur s2 = cur ?s" "rt_timer_list s2 = rt_timer_list ?s"
    using suspend_into [OF i, of c ?l "[]" "mp_waiters mp s"] c by auto
  have l2: "lists s2 = (lists ?s)(?l := c # mp_waiters mp s)" using s2(2,3) by simp
  have link: "link_first ?l c s1 = s2" using s2(2,3) by (simp add: link_first_def)
  obtain s3 s' where s': "(if time > 0 then arm_timer c (word_of_int time) s2 else Inr s2) = Inr s3" "rt_schedule s3 = Inr s'"
      "kernel_inv 1 s'" "waits_in ?l (c # mp_waiters mp s) c ?s s'"
    using go_waiting [OF i _ _ _ time(1) _ s2(4-7) l2 s2(8,9)] c by auto
  have "mp_alloc_try mp time s = Inr (Waiting, mp\<lparr>suspend_thread_count := suspend_thread_count mp + 1\<rparr>, s')"
    using empty time(2) nest c(1) s2(1) link s'(1,2)
    by (simp add: mp_alloc_try_def not_in_interrupt_def rt_interrupt_get_nest_def rt_thread_self_def split: if_splits)
  then show ?thesis using s'(3,4) by blast
qed

section \<open>Properties\<close>

text \<open>
  An allocation hands out a block that nobody has, the first free one; when there is none, it returns
  nothing at once or the thread waits, before all others that wait.
\<close>

theorem mp_alloc_cases:
  assumes inv: "kernel_inv 1 s" and rep: "mp_rep mp f a" and cnt: "mp_counted mp s" "Suc (length (mp_waiters mp s)) < 2 ^ 32"
    and c: "cur s = Some c" "stat_of s c = RT_THREAD_RUNNING" and nest: "rt_interrupt_nest s = 0" and time: "time < 0x7fffffff"
  shows "\<exists>r mp' s'. rt_mp_alloc mp time s = Inr (r, mp', s') \<and> kernel_inv 1 s' \<and> mp_counted mp' s' \<and>
    (case f of
       i # f' \<Rightarrow> r = Block i \<and> i \<notin> a \<and> s' = s \<and> mp_rep mp' f' (insert i a)
     | [] \<Rightarrow> mp_rep mp' [] a \<and>
         (if time = 0 then r = No_Block \<and> error (threads s' c) = - RT_ETIMEOUT
          else r = Waiting \<and> stat_of s' c = RT_THREAD_SUSPEND \<and> mp_waiters mp s' = c # mp_waiters mp s))"
proof (cases f)
  case (Cons i f')
  obtain mp' where "rt_mp_alloc mp time s = Inr (Block i, mp', s)" "mp_rep mp' f' (insert i a)" "mp_id mp' = mp_id mp"
      "suspend_thread_count mp' = suspend_thread_count mp"
    using mp_take [of mp i f' a] rep Cons by (auto simp: rt_mp_alloc_def)
  moreover have "i \<notin> a" using mp_repD(4) [OF rep] Cons by auto
  ultimately show ?thesis using Cons inv cnt(1) by (simp add: mp_counted_def)
next
  case Nil
  then have empty: "block_free_count mp = 0" using mp_repD(3) [OF rep] by (simp add: unat_eq_0)
  show ?thesis
  proof (cases "time = 0")
    case True
    have "kernel_inv 1 (thr_upd c (\<lambda>r. r\<lparr>error := - RT_ETIMEOUT\<rparr>) s)" using inv error_upd_inv by simp
    then show ?thesis
      using Nil True empty rep cnt(1) c(1) nest
      by (simp add: rt_mp_alloc_def mp_alloc_try_def rt_set_errno_def rt_thread_self_def rt_interrupt_get_nest_def mp_counted_def)
  next
    case False
    obtain s' where s': "mp_alloc_try mp time s = Inr (Waiting, mp\<lparr>suspend_thread_count := suspend_thread_count mp + 1\<rparr>, s')"
        "kernel_inv 1 s'" "waits_in (Suspend_List (mp_id mp)) (c # mp_waiters mp s) c (thr_upd c (\<lambda>r. r\<lparr>error := RT_EOK\<rparr>) s) s'"
      using mp_alloc_waits [OF inv c nest time False empty] by blast
    have "unat (suspend_thread_count mp + 1) = Suc (length (mp_waiters mp s))"
      using cnt by (simp add: mp_counted_def unat_word_ariths)
    moreover have "mp_rep (mp\<lparr>suspend_thread_count := suspend_thread_count mp + 1\<rparr>) [] a" using rep Nil by simp
    ultimately show ?thesis using Nil False s' by (simp add: rt_mp_alloc_def mp_counted_def waits_in_def)
  qed
qed

text \<open>Two blocks, both free; the state of \<open>example_wait\<close> with nobody waiting.\<close>

definition example_pool :: mempool where
  "example_pool = \<lparr>mp_id = 1, mp_static = True, headers = [Next (Some 1), Next None], block_size = 8, block_list = Some 0,
     block_total_count = 2, block_free_count = 2, suspend_thread_count = 0\<rparr>"

lemma example_pool_rep: "mp_rep example_pool [0, 1] {}"
proof (rule mp_repI)
  have "headers example_pool ! i \<noteq> Pool" if "i < length (headers example_pool)" for i
    using that by (cases "i = 0"; cases "i = 1") (simp_all add: example_pool_def)
  then show "i \<in> {} \<longleftrightarrow> i < length (headers example_pool) \<and> headers example_pool ! i = Pool" for i by blast
  show "set [0, 1] \<union> {} = {..<unat (block_total_count example_pool)}" by (auto simp: example_pool_def)
qed (simp_all add: example_pool_def)

text \<open>The same pool with both blocks allocated and one thread waiting.\<close>

definition example_pool_used :: mempool where
  "example_pool_used = example_pool
     \<lparr>headers := [Pool, Pool], block_list := None, block_free_count := 0, suspend_thread_count := 1\<rparr>"

lemma example_pool_used_rep: "mp_rep example_pool_used [] {0, 1}"
proof (rule mp_repI)
  show "i \<in> {0, 1} \<longleftrightarrow> i < length (headers example_pool_used) \<and> headers example_pool_used ! i = Pool" for i
    by (cases "i = 0"; cases "i = 1") (simp_all add: example_pool_used_def)
  show "set [] \<union> {0, 1} = {..<unat (block_total_count example_pool_used)}"
    by (auto simp: example_pool_used_def example_pool_def)
qed (simp_all add: example_pool_used_def example_pool_def)

theorem mp_alloc_cases_witness:
  "\<exists>mp s'. rt_mp_alloc example_pool 0 (example_wait 10 []) = Inr (Block 0, mp, s') \<and> mp_rep mp [1] {0}"
proof -
  have "mp_counted example_pool (example_wait 10 [])"
    using example_wait_simps(4) [of 10 "[]"] by (simp add: mp_counted_def example_pool_def)
  moreover have "mp_waiters example_pool (example_wait 10 []) = []"
    using example_wait_simps(4) [of 10 "[]"] by (simp add: example_pool_def)
  ultimately show ?thesis
    using mp_alloc_cases [of "example_wait 10 []" example_pool "[0, 1]" "{}" 0 0] example_pool_rep
      example_wait_ok [of 10 "[]" 1] example_wait_simps(1-3) [of 10 "[]"] by auto
qed

text \<open>C20: A release makes the block the first free one and wakes the thread that stands first, if any waits,
  with no error.
\<close>

theorem mp_free_cases:
  assumes inv: "kernel_inv m s" and rep: "mp_rep mp f a" and cnt: "mp_counted mp s" and i: "i \<in> a" and c: "cur s \<noteq> None"
  shows "\<exists>mp' s'. rt_mp_free mp i s = Inr (mp', s') \<and> kernel_inv m s' \<and> mp_counted mp' s' \<and> mp_rep mp' (i # f) (a - {i}) \<and>
    (case mp_waiters mp s of
       [] \<Rightarrow> s' = s
     | t # ts \<Rightarrow> runnable s' t \<and> error (threads s' t) = RT_EOK \<and> mp_waiters mp s' = ts \<and>
         (\<forall>u. u \<noteq> t \<longrightarrow> runnable s' u = runnable s u))"
proof -
  let ?l = "Suspend_List (mp_id mp)"
  let ?mp = "mp\<lparr>block_free_count := block_free_count mp + 1, headers := (headers mp)[i := Next (block_list mp)], block_list := Some i\<rparr>"
  note g = mp_give [OF rep i]
  have eq: "rt_mp_free mp i s =
      (if suspend_thread_count mp > 0 then
         (case mp_waiters mp s of
            [] \<Rightarrow> Inl Oob_Write
          | t # _ \<Rightarrow>
              rbind (rt_schedule (snd (rt_thread_resume t (thr_upd t (\<lambda>r. r\<lparr>error := RT_EOK\<rparr>) s))))
                (\<lambda>s. Inr (?mp\<lparr>suspend_thread_count := suspend_thread_count mp - 1\<rparr>, s)))
       else Inr (?mp, s))"
    by (simp add: rt_mp_free_def g(2) Let_def split: list.splits)
  show ?thesis
  proof (cases "mp_waiters mp s")
    case Nil
    then have "suspend_thread_count mp = 0" using cnt by (simp add: mp_counted_def unat_eq_0)
    then show ?thesis using eq g(1) inv Nil by (simp add: mp_counted_def)
  next
    case (Cons t ts)
    let ?s = "thr_upd t (\<lambda>r. r\<lparr>error := RT_EOK\<rparr>) s"
    have u: "unat (suspend_thread_count mp) = Suc (length ts)" using cnt Cons by (simp add: mp_counted_def)
    then have pos: "suspend_thread_count mp > 0" by (auto simp: word_gt_0)
    then have "1 \<le> suspend_thread_count mp" by (simp add: word_le_nat_alt u)
    then have u': "unat (suspend_thread_count mp - 1) = length ts" using u by (simp add: unat_sub)
    have inv': "kernel_inv m ?s" and l': "lists ?s ?l = t # ts" and c': "cur ?s \<noteq> None"
      using inv error_upd_inv Cons c by simp_all
    obtain s' where s': "rt_schedule (rt_ipc_list_resume ?l ?s) = Inr s'" "kernel_inv m s'" "wakes ?l t ?s s'"
      using resume_schedule_ok [OF inv' wait_list_simps(1) l' c'] by blast
    have resume: "rt_ipc_list_resume ?l ?s = snd (rt_thread_resume t ?s)"
      using l' by (simp add: rt_ipc_list_resume_def)
    have run: "rt_mp_free mp i s = Inr (?mp\<lparr>suspend_thread_count := suspend_thread_count mp - 1\<rparr>, s')"
      using eq pos Cons s'(1) resume by simp
    have w: "runnable s' t" "lists s' ?l = ts" "data_frame ?s s'" "\<forall>u. u \<noteq> t \<longrightarrow> runnable s' u = runnable ?s u"
      using s'(3) l' by (auto simp: wakes_def)
    have "error (threads s' t) = RT_EOK" using data_frameD(2) [OF w(3), of t] by simp
    moreover have "runnable ?s u = runnable s u" if "u \<noteq> t" for u using that by (simp add: runnable_def)
    ultimately show ?thesis using run g(1) s'(2) w u' Cons by (simp add: mp_counted_def)
  qed
qed

theorem mp_free_cases_witness:
  "\<exists>mp s'. rt_mp_free example_pool_used 1 (example_wait 10 [2]) = Inr (mp, s') \<and> runnable s' 2 \<and> mp_rep mp [1] ({0, 1} - {1})"
proof -
  have "mp_counted example_pool_used (example_wait 10 [2])" "mp_waiters example_pool_used (example_wait 10 [2]) = [2]"
    using example_wait_simps(4) [of 10 "[2]"] by (simp_all add: mp_counted_def example_pool_used_def example_pool_def)
  then show ?thesis
    using mp_free_cases [of 1 "example_wait 10 [2]" example_pool_used "[]" "{0, 1}" 1] example_pool_used_rep
      example_wait_ok [of 10 "[2]" 1] example_wait_simps(1) [of 10 "[2]"] by auto
qed

text \<open>C36: A thread whose wait times out leaves the list of the pool but not its count. The next release
  then finds a count without a thread and takes the head of the list for one.
\<close>

theorem mempool_timeout_corrupts:
  assumes inv: "kernel_inv m s" and w: "mp_waiters mp s = [t]" "suspend_thread_count mp = 1" "headers mp ! i = Pool"
      "i < length (headers mp)" and c: "cur s = Some c" and out: "Thread_Timer t \<notin> set (rt_timer_list s)"
  shows "\<exists>s'. rt_thread_timeout t s = Inr s' \<and> kernel_inv m s' \<and> error (threads s' t) = - RT_ETIMEOUT \<and>
    mp_waiters mp s' = [] \<and> rt_mp_alloc_wake t mp time tick s' = Inr (No_Block, mp, s') \<and> rt_mp_free mp i s' = Inl Oob_Write"
proof -
  have "stat_of s t = RT_THREAD_SUSPEND" using waiting_suspended [OF inv wait_list_simps(1), of t "mp_id mp"] w(1) by simp
  then obtain s' where s': "rt_thread_timeout t s = Inr s'" "kernel_inv m s'" "error (threads s' t) = - RT_ETIMEOUT"
      "\<forall>l. (\<forall>p. l \<noteq> Ready_Queue p) \<longrightarrow> lists s' l = removeAll t (lists s l)"
    using rt_thread_timeout_ok [OF inv _ out c] by blast
  have l: "mp_waiters mp s' = []" using s'(4) w(1) by simp
  then have "rt_mp_free mp i s' = Inl Oob_Write" using w by (simp add: rt_mp_free_def)
  moreover have "rt_mp_alloc_wake t mp time tick s' = Inr (No_Block, mp, s')"
    using s'(3) by (simp add: rt_mp_alloc_wake_def rt_err_defs)
  ultimately show ?thesis using s' l by blast
qed

theorem mempool_timeout_corrupts_witness:
  "\<exists>s'. rt_thread_timeout 2 (example_wait 10 [2]) = Inr s' \<and> rt_mp_free example_pool_used 0 s' = Inl Oob_Write"
proof -
  have "mp_waiters example_pool_used (example_wait 10 [2]) = [2]"
    using example_wait_simps(4) [of 10 "[2]"] by (simp add: example_pool_used_def example_pool_def)
  moreover have "suspend_thread_count example_pool_used = 1" "headers example_pool_used ! 0 = Pool" "0 < length (headers example_pool_used)"
    by (simp_all add: example_pool_used_def)
  ultimately show ?thesis
    using mempool_timeout_corrupts [of 1 "example_wait 10 [2]" example_pool_used 2 0 0 0 0] example_wait_ok [of 10 "[2]" 1]
      example_wait_simps(1,8) [of 10 "[2]"] by auto
qed

end
