(* ===== verification/Heap_Client.thy ===== *)
theory Heap_Client
  imports Heap_Realloc Memory_Pool
begin

text \<open>
  The two allocators from the point of view of their clients.

  \<^item> \<open>client s h g\<close>: the heap \<open>h\<close> is what a run of \<open>rt_malloc\<close>, \<open>rt_realloc\<close>, \<open>rt_free\<close> and of writes into
    blocks has made of a fresh heap, in the state \<open>s\<close> of the kernel; \<open>g\<close> has, for every block that the clients
    have, the bytes they believe to be in it. (\<open>rt_calloc\<close> is an allocation and a write.)
  \<^item> The locale \<open>allocator\<close> is the contract that the heap and the memory pools share.
\<close>

section \<open>Runs of the heap\<close>

inductive client :: "kernel \<Rightarrow> heap \<Rightarrow> (u32 \<Rightarrow> u8 list option) \<Rightarrow> bool" for s where
  client_start: "rt_system_heap_init n b e bs s0 = Inr (Some h, s) \<Longrightarrow> not_in_interrupt s0 \<Longrightarrow> 4 dvd unat b \<Longrightarrow> 4 dvd unat e \<Longrightarrow>
    unat b + 36 \<le> unat e \<Longrightarrow> unat e < 2 ^ 32 - 12 \<Longrightarrow> length bs = unat e - unat b \<Longrightarrow> client s h Map.empty"
| client_malloc: "client s h g \<Longrightarrow> sz \<noteq> 0 \<Longrightarrow> unat sz + 3 < 2 ^ 32 \<Longrightarrow> rt_malloc sz h s = Inr (Ptr a, h', s) \<Longrightarrow>
    heap_read h' a (unat sz) = Inr xs \<Longrightarrow> client s h' (g(a \<mapsto> xs))"
| client_write: "client s h g \<Longrightarrow> g a = Some ys \<Longrightarrow> unat off + length xs \<le> length ys \<Longrightarrow> heap_write (a + off) xs h = Inr h' \<Longrightarrow>
    client s h' (g(a \<mapsto> splice_at (unat off) xs ys))"
| client_realloc: "client s h g \<Longrightarrow> g a = Some ys \<Longrightarrow> ns \<noteq> 0 \<Longrightarrow> unat ns + 3 < 2 ^ 32 \<Longrightarrow> rt_realloc a ns h s = Inr (Ptr b, h', s) \<Longrightarrow>
    heap_read h' b (unat ns) = Inr xs \<Longrightarrow> client s h' ((g(a := None))(b \<mapsto> xs))"
| client_free: "client s h g \<Longrightarrow> g a = Some ys \<Longrightarrow> rt_free a h s = Inr (r, h', s) \<Longrightarrow> client s h' (g(a := None))"

text \<open>What the clients believe is so: their blocks are allocated and have these bytes.\<close>

definition agrees :: "heap \<Rightarrow> layout \<Rightarrow> (u32 \<Rightarrow> u8 list option) \<Rightarrow> bool" where
  "agrees h L g \<longleftrightarrow> (\<forall>a xs. g a = Some xs \<longrightarrow> (\<exists>p n. (p, n) \<in> allocated L \<and> a = data_addr h p \<and>
     unat p + 12 + length xs \<le> unat n \<and> (\<forall>k < length xs. heap_bytes h ! (unat p + 12 + k) = xs ! k)))"

lemma agreesD:
  assumes "agrees h L g" "g a = Some xs"
  obtains p n where "(p, n) \<in> allocated L" "a = data_addr h p" "unat p + 12 + length xs \<le> unat n"
    "\<forall>k < length xs. heap_bytes h ! (unat p + 12 + k) = xs ! k"
  using assms unfolding agrees_def by blast


text \<open>An operation that keeps the other blocks and replaces, adds or removes one.\<close>

lemma agrees_step:
  assumes ag: "agrees h L g" and k: "data_kept (allocated L - A) h h'" and sub: "allocated L - A \<subseteq> allocated L'"
    and ptr: "heap_ptr h' = heap_ptr h"
    and g': "\<And>a xs. g' a = Some xs \<Longrightarrow> g a = Some xs \<and> a \<notin> data_addr h ` fst ` A \<or> (\<exists>p n. (p, n) \<in> allocated L' \<and> a = data_addr h p \<and>
      unat p + 12 + length xs \<le> unat n \<and> (\<forall>k < length xs. heap_bytes h' ! (unat p + 12 + k) = xs ! k))"
  shows "agrees h' L' g'"
  unfolding agrees_def
proof (intro allI impI)
  fix a xs assume a: "g' a = Some xs"
  show "\<exists>p n. (p, n) \<in> allocated L' \<and> a = data_addr h' p \<and> unat p + 12 + length xs \<le> unat n \<and>
      (\<forall>k < length xs. heap_bytes h' ! (unat p + 12 + k) = xs ! k)"
  proof (cases "g a = Some xs \<and> a \<notin> data_addr h ` fst ` A")
    case True
    then obtain p n where p: "(p, n) \<in> allocated L" "a = data_addr h p" "unat p + 12 + length xs \<le> unat n"
      "\<forall>k < length xs. heap_bytes h ! (unat p + 12 + k) = xs ! k" using agreesD [OF ag] by blast
    have "(p, n) \<notin> A" using True p(2) by force
    then have m: "(p, n) \<in> allocated L - A" using p(1) by simp
    have "heap_bytes h' ! (unat p + 12 + k) = xs ! k" if "k < length xs" for k
      using data_keptD [OF k m, of "unat p + 12 + k"] p(3,4) that by simp
    then show ?thesis using m sub p(2,3) ptr by auto
  next
    case False
    then show ?thesis using g' [OF a] ptr by auto
  qed
qed

lemma data_addr_inject: "data_addr h p = data_addr h q \<longleftrightarrow> p = q"
  by (metis add_left_cancel add_right_cancel)

text \<open>The block of a client.\<close>

lemma new_block:
  assumes inv: "heap_inv h L" and b: "(p, n) \<in> allocated L" and len: "unat p + 12 + k \<le> unat n"
    and rd: "heap_read h (data_addr h p) k = Inr xs"
  shows "length xs = k" "j < length xs \<Longrightarrow> heap_bytes h ! (unat p + 12 + j) = xs ! j"
proof -
  note i = heap_invD(1) [OF inv]
  note ad = data_addr_facts(7,8) [OF i b] heap_chainD(3) [OF i]
  have "xs = take k (drop (unat p + 12) (heap_bytes h))" using heap_read_block [OF i b len] rd by simp
  then show "length xs = k" "j < length xs \<Longrightarrow> heap_bytes h ! (unat p + 12 + j) = xs ! j" using len ad by simp_all
qed

lemma client_inv:
  assumes "client s h g"
  shows "\<exists>L. heap_inv h L \<and> unlocked h s \<and> not_in_interrupt s \<and> agrees h L g"
  using assms
proof (induction rule: client.induct)
  case (client_start n b e bs s0 h)
  have le: "unat b + 24 < unat e" using client_start.hyps(5) by simp
  have inv: "heap_inv (init_heap n b e bs) [(e - b - 12, False)]"
    by (rule init_heap_ok [OF client_start.hyps(2-7)])
  have "s = rt_ipc_object_init n s0" "h = init_heap n b e bs"
    using heap_init_run(1) [OF client_start.hyps(2-4) le client_start.hyps(6,7), of n] client_start.hyps(1) by simp_all
  moreover have "unlocked (init_heap n b e bs) (rt_ipc_object_init n s0)" by (simp add: unlocked_def init_heap_def rt_ipc_object_init_def)
  moreover have "not_in_interrupt (rt_ipc_object_init n s0)"
    using client_start.hyps(2) by (simp add: not_in_interrupt_def rt_ipc_object_init_def rt_interrupt_get_nest_def)
  ultimately show ?case using inv by (auto simp: agrees_def)
next
  case (client_malloc h g sz a h' xs)
  then obtain L where L: "heap_inv h L" "unlocked h s" "not_in_interrupt s" "agrees h L g" by blast
  show ?case
  proof (rule rt_malloc_cases [OF L(1-3) client_malloc.hyps(2,3)])
    assume "rt_malloc sz h s = Inr (Null, h, s)"
    then show ?thesis using client_malloc.hyps(4) by simp
  next
    fix p n h1 L1
    assume m: "rt_malloc sz h s = Inr (Ptr (data_addr h p), h1, s)" "heap_inv h1 L1" "allocated L1 = insert (p, n) (allocated L)"
      "unat p + 12 + unat sz \<le> unat n" "\<forall>(x, y) \<in> allocated L. unat y \<le> unat p \<or> unat n \<le> unat x"
      "data_kept (allocated L) h h1" "same_heap h h1" "unlocked h1 s"
    have e: "h' = h1" "a = data_addr h p" "heap_ptr h1 = heap_ptr h" using m(1,7) client_malloc.hyps(4) by (simp_all add: same_heap_def)
    have b: "(p, n) \<in> allocated L1" using m(3) by simp
    note nb = new_block [OF m(2) b m(4), of xs]
    have "heap_read h1 (data_addr h1 p) (unat sz) = Inr xs" using client_malloc.hyps(5) e by simp
    then have nb: "length xs = unat sz" "\<And>j. j < length xs \<Longrightarrow> heap_bytes h1 ! (unat p + 12 + j) = xs ! j" using nb by blast+
    have "agrees h1 L1 (g(a \<mapsto> xs))"
    proof (rule agrees_step [OF L(4), where A = "{}"])
      fix c ys assume c: "(g(a \<mapsto> xs)) c = Some ys"
      show "g c = Some ys \<and> c \<notin> data_addr h ` fst ` {} \<or> (\<exists>p n. (p, n) \<in> allocated L1 \<and> c = data_addr h p \<and> unat p + 12 + length ys \<le> unat n \<and>
          (\<forall>k < length ys. heap_bytes h1 ! (unat p + 12 + k) = ys ! k))"
      proof (cases "c = a")
        case True
        then have "ys = xs" using c by simp
        then show ?thesis using True e(2) b m(4) nb by auto
      qed (use c in simp)
    qed (use m e in auto)
    then show ?thesis using m(2,8) L(3) e(1) by blast
  qed
next
  case (client_write h g a ys off xs h')
  then obtain L where L: "heap_inv h L" "unlocked h s" "not_in_interrupt s" "agrees h L g" by blast
  obtain p n where p: "(p, n) \<in> allocated L" "a = data_addr h p" "unat p + 12 + length ys \<le> unat n"
    "\<forall>k < length ys. heap_bytes h ! (unat p + 12 + k) = ys ! k" using agreesD [OF L(4) client_write.hyps(2)] .
  have fit: "unat off + length xs + unat p + 12 \<le> unat n" using p(3) client_write.hyps(3) by simp
  obtain h1 where w: "heap_write (data_addr h p + off) xs h = Inr h1" "heap_inv h1 L" "same_heap h h1"
      "data_kept (allocated L - {(p, n)}) h h1"
      "\<forall>k < length (heap_bytes h). heap_bytes h1 ! k =
        (if unat p + 12 + unat off \<le> k \<and> k < unat p + 12 + unat off + length xs then xs ! (k - (unat p + 12 + unat off)) else heap_bytes h ! k)"
    using heap_write_ok [OF L(1) p(1) fit] by blast
  have e: "h' = h1" "heap_ptr h1 = heap_ptr h" "unlocked h1 s"
    using w(1,3) p(2) client_write.hyps(4) L(2) by (simp_all add: same_heap_def unlocked_def)
  let ?zs = "splice_at (unat off) xs ys"
  have len: "length ?zs = length ys" using client_write.hyps(3) by simp
  note i = heap_invD(1) [OF L(1)]
  have zs: "heap_bytes h1 ! (unat p + 12 + k) = ?zs ! k" if "k < length ys" for k
  proof -
    have "unat p + 12 + k < length (heap_bytes h)"
      using that p(3) data_addr_facts(8) [OF i p(1)] heap_chainD(3) [OF i] by simp
    then show ?thesis
      using w(5) p(4) that nth_splice_at [OF client_write.hyps(3) that] by (auto simp: algebra_simps)
  qed
  have "agrees h1 L (g(a \<mapsto> ?zs))"
  proof (rule agrees_step [OF L(4) w(4)])
    fix c vs assume c: "(g(a \<mapsto> ?zs)) c = Some vs"
    show "g c = Some vs \<and> c \<notin> data_addr h ` fst ` {(p, n)} \<or> (\<exists>p n. (p, n) \<in> allocated L \<and> c = data_addr h p \<and> unat p + 12 + length vs \<le> unat n \<and>
        (\<forall>k < length vs. heap_bytes h1 ! (unat p + 12 + k) = vs ! k))"
    proof (cases "c = a")
      case True
      then have vs: "vs = ?zs" using c by simp
      then show ?thesis using True p(1-3) len zs by (intro disjI2 exI [of _ p] exI [of _ n]) auto
    qed (use c p(2) in simp)
  qed (use e in auto)
  then show ?case using w(2) e L(3) by blast
next
  case (client_realloc h g a ys ns b h' xs)
  then obtain L where L: "heap_inv h L" "unlocked h s" "not_in_interrupt s" "agrees h L g" by blast
  obtain p n where p: "(p, n) \<in> allocated L" "a = data_addr h p" "unat p + 12 + length ys \<le> unat n"
    using agreesD [OF L(4) client_realloc.hyps(2)] by metis
  obtain q m L' where r: "b = data_addr h q" "heap_inv h' L'" "allocated L' = insert (q, m) (allocated L - {(p, n)})"
      "unat q + 12 + unat ns \<le> unat m" "data_kept (allocated L - {(p, n)}) h h'" "same_heap h h'" "unlocked h' s"
    using rt_realloc_block [OF L(1-3) p(1) client_realloc.hyps(3,4)] client_realloc.hyps(5) p(2) by auto
  have e: "heap_ptr h' = heap_ptr h" using r(6) by (simp add: same_heap_def)
  have bq: "(q, m) \<in> allocated L'" using r(3) by simp
  have "heap_read h' (data_addr h' q) (unat ns) = Inr xs" using client_realloc.hyps(6) r(1) e by simp
  then have nb: "length xs = unat ns" "\<And>j. j < length xs \<Longrightarrow> heap_bytes h' ! (unat q + 12 + j) = xs ! j"
    using new_block [OF r(2) bq r(4), of xs] by blast+
  have "agrees h' L' ((g(a := None))(b \<mapsto> xs))"
  proof (rule agrees_step [OF L(4) r(5)])
    fix c vs assume c: "((g(a := None))(b \<mapsto> xs)) c = Some vs"
    show "g c = Some vs \<and> c \<notin> data_addr h ` fst ` {(p, n)} \<or> (\<exists>p n. (p, n) \<in> allocated L' \<and> c = data_addr h p \<and> unat p + 12 + length vs \<le> unat n \<and>
        (\<forall>k < length vs. heap_bytes h' ! (unat p + 12 + k) = vs ! k))"
    proof (cases "c = b")
      case True
      then have "vs = xs" using c by simp
      then show ?thesis using True r(1,4) bq nb by (intro disjI2 exI [of _ q] exI [of _ m]) auto
    qed (use c p(2) in \<open>auto split: if_splits\<close>)
  qed (use r(3) e in auto)
  then show ?case using r(2,7) L(3) by blast
next
  case (client_free h g a ys r h')
  then obtain L where L: "heap_inv h L" "unlocked h s" "not_in_interrupt s" "agrees h L g" by blast
  obtain p n where p: "(p, n) \<in> allocated L" "a = data_addr h p" using agreesD [OF L(4) client_free.hyps(2)] by metis
  obtain L' where r: "heap_inv h' L'" "allocated L' = allocated L - {(p, n)}" "data_kept (allocated L - {(p, n)}) h h'" "same_heap h h'" "unlocked h' s"
    using rt_free_block [OF L(1-3) p(1)] client_free.hyps(3) p(2) by auto
  have "agrees h' L' (g(a := None))"
    by (rule agrees_step [OF L(4) r(3)]) (use r(2,4) p(2) in \<open>auto simp: same_heap_def split: if_splits\<close>)
  then show ?case using r(1,5) L(3) by blast
qed

lemma example_client: "\<exists>h a xs s. client s h [a \<mapsto> xs] \<and> length xs = 100"
proof -
  let ?bs = "replicate 4096 (0 :: u8)"
  let ?h = "init_heap 1 0x1000 0x2000 ?bs" and ?s = "rt_ipc_object_init 1 (example_wait 10 [])"
  have run: "rt_system_heap_init 1 0x1000 0x2000 ?bs (example_wait 10 []) = Inr (Some ?h, ?s)"
    by (rule heap_init_run(1) [OF example_heap_ok(4)]) simp_all
  have cl: "client ?s ?h Map.empty" by (rule client_start [OF run example_heap_ok(4)]) simp_all
  obtain L where L: "heap_inv ?h L" "unlocked ?h ?s" "not_in_interrupt ?s" using client_inv [OF cl] by blast
  have inv: "heap_inv ?h [(4084, False)]"
    using init_heap_ok [OF example_heap_ok(4), of "0x1000" "0x2000" ?bs 1] by simp
  have f: "alloc_size 100 = 100" "align4 100 = 100" "fits ?h 100 0 4084" "lfree ?h = 0" "mem_size_aligned ?h = 4072"
    by (simp_all add: alloc_size_def align4_def MIN_SIZE_ALIGNED_def fits_def init_heap_def)
  have ne: "(100 :: u32) \<noteq> 0" "unat (100 :: u32) + 3 < 2 ^ 32" by simp_all
  show ?thesis
  proof (rule rt_malloc_cases [OF inv L(2,3) ne])
    assume "mem_size_aligned ?h < align4 100 \<or> (\<forall>(x, y) \<in> free [(4084, False)]. lfree ?h \<le> x \<longrightarrow> \<not> fits ?h (alloc_size 100) x y)"
    then show ?thesis using f by simp
  next
    fix p n h' L'
    assume m: "rt_malloc 100 ?h ?s = Inr (Ptr (data_addr ?h p), h', ?s)" "heap_inv h' L'" "allocated L' = insert (p, n) (allocated [(4084, False)])"
      "unat p + 12 + unat (100 :: u32) \<le> unat n" "same_heap ?h h'"
    have b: "(p, n) \<in> allocated L'" using m(3) by simp
    have e: "data_addr h' p = data_addr ?h p" using m(5) by (simp add: same_heap_def)
    obtain xs where rd: "heap_read h' (data_addr ?h p) (unat (100 :: u32)) = Inr xs"
      using heap_read_block [OF heap_invD(1) [OF m(2)] b m(4)] e by metis
    have c: "client ?s h' (Map.empty(data_addr ?h p \<mapsto> xs))" by (rule client_malloc [OF cl ne m(1) rd])
    have "length xs = 100" using new_block(1) [OF m(2) b m(4), of xs] rd e by simp
    then show ?thesis using c by auto
  qed
qed



text \<open>C16: A block that is reallocated keeps its bytes, up to the shorter of the two lengths.\<close>

theorem realloc_keeps_bytes:
  assumes cl: "client s h g" and g: "g a = Some xs" and ns: "ns \<noteq> 0" "unat ns + 3 < 2 ^ 32"
  shows "\<exists>r h'. rt_realloc a ns h s = Inr (r, h', s) \<and>
    (case r of
       Ptr b \<Rightarrow> \<exists>ys. heap_read h' b (unat ns) = Inr ys \<and> take (length xs) ys = take (unat ns) xs
     | Null \<Rightarrow> h' = h
     | Waits \<Rightarrow> False)"
proof -
  obtain L where L: "heap_inv h L" "unlocked h s" "not_in_interrupt s" "agrees h L g" using client_inv [OF cl] by blast
  obtain p n where p: "(p, n) \<in> allocated L" "a = data_addr h p" "unat p + 12 + length xs \<le> unat n"
    "\<forall>k < length xs. heap_bytes h ! (unat p + 12 + k) = xs ! k" using agreesD [OF L(4) g] by blast
  consider h' where "rt_realloc a ns h s = Inr (Null, h', s)" "h' = h"
    | q m h' L' where "rt_realloc a ns h s = Inr (Ptr (data_addr h q), h', s)" "heap_inv h' L'" "(q, m) \<in> allocated L'"
      "unat q + 12 + unat ns \<le> unat m" "same_heap h h'"
      "\<forall>k < min (unat ns) (unat n - unat p - 12). heap_bytes h' ! (unat q + 12 + k) = heap_bytes h ! (unat p + 12 + k)"
    using rt_realloc_block [OF L(1-3) p(1) ns] p(2) by blast
  then show ?thesis
  proof cases
    case 2
    have e: "data_addr h' q = data_addr h q" using 2(5) by (simp add: same_heap_def)
    obtain ys where ys: "heap_read h' (data_addr h q) (unat ns) = Inr ys"
      using heap_read_block [OF heap_invD(1) [OF 2(2)] 2(3,4)] e by metis
    note nb = new_block [OF 2(2,3,4), of ys, unfolded e, OF ys]
    have "take (length xs) ys = take (unat ns) xs"
    proof (rule nth_equalityI)
      show "length (take (length xs) ys) = length (take (unat ns) xs)" using nb(1) by simp
      fix k assume "k < length (take (length xs) ys)"
      then have k: "k < length xs" "k < length ys" "k < unat ns" using nb(1) by simp_all
      then have "ys ! k = heap_bytes h ! (unat p + 12 + k)" using nb(2) [OF k(2)] 2(6) [rule_format, of k] p(3) by simp
      then show "take (length xs) ys ! k = take (unat ns) xs ! k" using k p(4) by simp
    qed
    then show ?thesis using 2(1) ys by auto
  qed simp
qed

theorem realloc_keeps_bytes_witness:
  "\<exists>s h a xs r h'. client s h [a \<mapsto> xs] \<and> length xs = 100 \<and> rt_realloc a 200 h s = Inr (r, h', s)"
proof -
  obtain h a xs s where c: "client s h [a \<mapsto> xs]" "length xs = 100" using example_client by blast
  then obtain r h' where "rt_realloc a 200 h s = Inr (r, h', s)" using realloc_keeps_bytes [OF c(1), of a xs 200] by auto
  then show ?thesis using c by blast
qed

section \<open>The contract of an allocator\<close>

text \<open>
  \<open>inv s A\<close>: in the state \<open>s\<close> the blocks \<open>A\<close> are out with the clients. A block that is handed out is
  with nobody, and every block that is out can be given back.
\<close>

locale allocator =
  fixes inv :: "'s \<Rightarrow> 'b set \<Rightarrow> bool" and get :: "'s \<Rightarrow> fault + 'b option \<times> 's" and put :: "'b \<Rightarrow> 's \<Rightarrow> fault + 's"
  assumes get_ok: "inv s A \<Longrightarrow> \<exists>r s'. get s = Inr (r, s') \<and> (case r of None \<Rightarrow> inv s' A | Some b \<Rightarrow> b \<notin> A \<and> inv s' (insert b A))"
    and put_ok: "inv s A \<Longrightarrow> b \<in> A \<Longrightarrow> \<exists>s'. put b s = Inr s' \<and> inv s' (A - {b})"

text \<open>Requests of clients that hold the blocks \<open>held\<close>.\<close>

datatype request = Get | Give_Back nat

fun serve :: "('s \<Rightarrow> fault + 'b option \<times> 's) \<Rightarrow> ('b \<Rightarrow> 's \<Rightarrow> fault + 's) \<Rightarrow> request list \<Rightarrow> 'b list \<Rightarrow> 's \<Rightarrow> fault + 'b list \<times> 's" where
  "serve get put [] held s = Inr (held, s)"
| "serve get put (Get # rs) held s =
     rbind (get s) (\<lambda>(r, s). serve get put rs (case r of None \<Rightarrow> held | Some b \<Rightarrow> b # held) s)"
| "serve get put (Give_Back i # rs) held s =
     (if i < length held then rbind (put (held ! i) s) (serve get put rs (take i held @ drop (Suc i) held))
      else serve get put rs held s)"

lemma distinct_drop_one:
  assumes "distinct xs" "i < length xs"
  shows "distinct (take i xs @ drop (Suc i) xs)" "set (take i xs @ drop (Suc i) xs) = set xs - {xs ! i}"
proof -
  have "distinct (take i xs @ xs ! i # drop (Suc i) xs)" "set xs = set (take i xs @ xs ! i # drop (Suc i) xs)"
    using assms id_take_nth_drop [of i xs] by simp_all
  then show "distinct (take i xs @ drop (Suc i) xs)" "set (take i xs @ drop (Suc i) xs) = set xs - {xs ! i}" by auto
qed

context allocator begin

lemma serve_ok:
  assumes "inv s (set held)" "distinct held"
  shows "\<exists>held' s'. serve get put rs held s = Inr (held', s') \<and> distinct held' \<and> inv s' (set held')"
  using assms
proof (induction rs arbitrary: held s)
  case (Cons r rs)
  show ?case
  proof (cases r)
    case Get
    obtain b s' where g: "get s = Inr (b, s')" "case b of None \<Rightarrow> inv s' (set held) | Some b \<Rightarrow> b \<notin> set held \<and> inv s' (insert b (set held))"
      using get_ok [OF Cons.prems(1)] by blast
    then show ?thesis using Cons.IH [of s' held] Cons.IH [of s' "the b # held"] Cons.prems(2) Get by (cases b) auto
  next
    case (Give_Back i)
    show ?thesis
    proof (cases "i < length held")
      case True
      note d = distinct_drop_one [OF Cons.prems(2) True]
      obtain s' where p: "put (held ! i) s = Inr s'" "inv s' (set held - {held ! i})"
        using put_ok [OF Cons.prems(1), of "held ! i"] True by auto
      then show ?thesis using Cons.IH [OF _ d(1), of s'] d(2) Give_Back True by simp
    next
      case False
      then show ?thesis using Cons.IH [OF Cons.prems] Give_Back by simp
    qed
  qed
qed auto

end

text \<open>The heap, for requests of \<open>sz\<close> bytes.\<close>

definition heap_out :: "u32 \<Rightarrow> heap \<times> kernel \<Rightarrow> u32 set \<Rightarrow> bool" where
  "heap_out sz = (\<lambda>(h, s) A. sz \<noteq> 0 \<and> unat sz + 3 < 2 ^ 32 \<and> not_in_interrupt s \<and> unlocked h s \<and>
     (\<exists>L. heap_inv h L \<and> A = data_addr h ` fst ` allocated L))"

definition heap_get :: "u32 \<Rightarrow> heap \<times> kernel \<Rightarrow> fault + u32 option \<times> heap \<times> kernel" where
  "heap_get sz = (\<lambda>(h, s). rbind (rt_malloc sz h s) (\<lambda>(r, h, s). Inr (case r of Ptr a \<Rightarrow> Some a | _ \<Rightarrow> None, h, s)))"

definition heap_put :: "u32 \<Rightarrow> heap \<times> kernel \<Rightarrow> fault + heap \<times> kernel" where
  "heap_put a = (\<lambda>(h, s). rbind (rt_free a h s) (\<lambda>(_, h, s). Inr (h, s)))"

lemma allocated_fun:
  assumes "heap_inv h L" "(p, n) \<in> allocated L" "(p, m) \<in> allocated L"
  shows "n = m"
  using blocks_disjoint [OF heap_chainD(7) [OF heap_invD(1) [OF assms(1)]] assms(2,3)]
    data_addr_facts(7) [OF heap_invD(1) [OF assms(1)] assms(2)] data_addr_facts(7) [OF heap_invD(1) [OF assms(1)] assms(3)] by auto

interpretation heap_alloc: allocator "heap_out sz" "heap_get sz" heap_put for sz
proof
  fix hs A assume "heap_out sz hs A"
  then obtain h s L where o: "hs = (h, s)" "sz \<noteq> 0" "unat sz + 3 < 2 ^ 32" "not_in_interrupt s" "unlocked h s" "heap_inv h L"
      "A = data_addr h ` fst ` allocated L" by (auto simp: heap_out_def)
  show "\<exists>r hs'. heap_get sz hs = Inr (r, hs') \<and>
      (case r of None \<Rightarrow> heap_out sz hs' A | Some b \<Rightarrow> b \<notin> A \<and> heap_out sz hs' (insert b A))"
  proof (rule rt_malloc_cases [OF o(6,5,4,2,3)])
    assume "rt_malloc sz h s = Inr (Null, h, s)"
    then show ?thesis using o \<open>heap_out sz hs A\<close> by (simp add: heap_get_def)
  next
    fix p n h' L'
    assume m: "rt_malloc sz h s = Inr (Ptr (data_addr h p), h', s)" "heap_inv h' L'" "allocated L' = insert (p, n) (allocated L)"
      "\<forall>(x, y) \<in> allocated L. unat y \<le> unat p \<or> unat n \<le> unat x" "same_heap h h'" "unlocked h' s"
    have e: "heap_ptr h' = heap_ptr h" using m(5) by (simp add: same_heap_def)
    have b: "(p, n) \<in> allocated L'" using m(3) by simp
    have "data_addr h p \<notin> A"
    proof
      assume "data_addr h p \<in> A"
      then obtain y where y: "(p, y) \<in> allocated L" using o(7) data_addr_inject by auto
      then have "y = n" using allocated_fun [OF m(2) b, of y] m(3) by simp
      then show False using m(4) y data_addr_facts(7) [OF heap_invD(1) [OF m(2)] b] by auto
    qed
    moreover have "insert (data_addr h p) A = data_addr h' ` fst ` allocated L'" using m(3) e o(7) by simp
    then have "heap_out sz (h', s) (insert (data_addr h p) A)" using o m(2,6) by (auto simp: heap_out_def)
    ultimately show ?thesis using m(1) o(1) by (simp add: heap_get_def)
  qed
next
  fix hs A b assume "heap_out sz hs A" and b: "b \<in> A"
  then obtain h s L where o: "hs = (h, s)" "sz \<noteq> 0" "unat sz + 3 < 2 ^ 32" "not_in_interrupt s" "unlocked h s" "heap_inv h L"
      "A = data_addr h ` fst ` allocated L" by (auto simp: heap_out_def)
  obtain p n where p: "(p, n) \<in> allocated L" "b = data_addr h p" using b o(7) by auto
  obtain h' L' where f: "rt_free (data_addr h p) h s = Inr (Null, h', s)" "heap_inv h' L'" "allocated L' = allocated L - {(p, n)}"
      "same_heap h h'" "unlocked h' s"
    using rt_free_block [OF o(6,5,4) p(1)] by blast
  have e: "heap_ptr h' = heap_ptr h" using f(4) by (simp add: same_heap_def)
  have "fst ` allocated L' = fst ` allocated L - {p}"
  proof -
    have "x \<noteq> p" if "(x, y) \<in> allocated L" "(x, y) \<noteq> (p, n)" for x y using allocated_fun [OF o(6) p(1), of y] that by auto
    then show ?thesis using f(3) by force
  qed
  then have "A - {b} = data_addr h' ` fst ` allocated L'" using o(7) p(2) e data_addr_inject [of h] by auto
  then have "heap_out sz (h', s) (A - {b})" using o f(2,5) by (auto simp: heap_out_def)
  then show "\<exists>hs'. heap_put b hs = Inr hs' \<and> heap_out sz hs' (A - {b})" using f(1) p(2) o(1) by (simp add: heap_put_def)
qed

text \<open>A memory pool for which no thread waits; a request does not wait either.\<close>

definition pool_out :: "mempool \<times> kernel \<Rightarrow> nat set \<Rightarrow> bool" where
  "pool_out = (\<lambda>(mp, s) A. suspend_thread_count mp = 0 \<and> (\<exists>f. mp_rep mp f A))"

definition pool_get :: "mempool \<times> kernel \<Rightarrow> fault + nat option \<times> mempool \<times> kernel" where
  "pool_get = (\<lambda>(mp, s). rbind (rt_mp_alloc mp 0 s) (\<lambda>(r, mp, s). Inr (case r of Block i \<Rightarrow> Some i | _ \<Rightarrow> None, mp, s)))"

definition pool_put :: "nat \<Rightarrow> mempool \<times> kernel \<Rightarrow> fault + mempool \<times> kernel" where
  "pool_put i = (\<lambda>(mp, s). rt_mp_free mp i s)"

interpretation pool_alloc: allocator pool_out pool_get pool_put
proof
  fix ms A assume "pool_out ms A"
  then obtain mp s f where o: "ms = (mp, s)" "suspend_thread_count mp = 0" "mp_rep mp f A" by (auto simp: pool_out_def)
  show "\<exists>r ms'. pool_get ms = Inr (r, ms') \<and> (case r of None \<Rightarrow> pool_out ms' A | Some b \<Rightarrow> b \<notin> A \<and> pool_out ms' (insert b A))"
  proof (cases f)
    case Nil
    then have "block_free_count mp = 0" using mp_repD(3) [OF o(3)] by (simp add: unat_eq_0)
    then show ?thesis using o by (auto simp: pool_get_def rt_mp_alloc_def mp_alloc_try_def pool_out_def)
  next
    case (Cons i f')
    obtain mp' where t: "rt_mp_alloc mp 0 s = Inr (Block i, mp', s)" "mp_rep mp' f' (insert i A)" "suspend_thread_count mp' = suspend_thread_count mp"
      using mp_take [of mp i f' A] o(3) Cons by (auto simp: rt_mp_alloc_def)
    have "i \<notin> A" using mp_repD(4) [OF o(3)] Cons by auto
    then show ?thesis using t o by (auto simp: pool_get_def pool_out_def)
  qed
next
  fix ms A i assume "pool_out ms A" and i: "i \<in> A"
  then obtain mp s f where o: "ms = (mp, s)" "suspend_thread_count mp = 0" "mp_rep mp f A" by (auto simp: pool_out_def)
  note g = mp_give [OF o(3) i]
  show "\<exists>ms'. pool_put i ms = Inr ms' \<and> pool_out ms' (A - {i})"
    using o g by (auto simp: pool_put_def pool_out_def rt_mp_free_def)
qed

text \<open>
  C0: Whatever the order in which clients ask a heap for blocks and give them back: no request fails with
  a fault, and no block is with two clients.
\<close>

theorem heap_serves:
  assumes "heap_inv h [(e, False)]" "unlocked h s" "not_in_interrupt s" "sz \<noteq> 0" "unat sz + 3 < 2 ^ 32"
  shows "\<exists>held h' s'. serve (heap_get sz) heap_put rs [] (h, s) = Inr (held, h', s') \<and> distinct held"
proof -
  have "heap_out sz (h, s) (set [])" using assms by (auto simp: heap_out_def intro!: exI [of _ "[(e, False)]"])
  then show ?thesis using heap_alloc.serve_ok [of sz "(h, s)" "[]" rs] by auto
qed

theorem heap_serves_witness:
  "\<exists>held h' s'. serve (heap_get 100) heap_put [Get, Get, Give_Back 1, Get] [] (example_heap, example_wait 10 []) = Inr (held, h', s') \<and> distinct held"
  using heap_serves [OF example_heap_ok(1,3,4), where sz = 100] by (simp del: serve.simps)

text \<open>The same holds of the blocks of a memory pool.\<close>

theorem pool_serves:
  assumes "mp_rep mp f {}" "suspend_thread_count mp = 0"
  shows "\<exists>held mp' s'. serve pool_get pool_put rs [] (mp, s) = Inr (held, mp', s') \<and> distinct held \<and> (\<exists>f'. mp_rep mp' f' (set held))"
proof -
  have "pool_out (mp, s) (set [])" using assms by (auto simp: pool_out_def)
  then obtain held mp' s' where "serve pool_get pool_put rs [] (mp, s) = Inr (held, mp', s')" "distinct held" "pool_out (mp', s') (set held)"
    using pool_alloc.serve_ok [of "(mp, s)" "[]" rs] by auto
  then show ?thesis by (auto simp: pool_out_def)
qed

theorem pool_serves_witness:
  "\<exists>held mp' s'. serve pool_get pool_put [Get, Get, Get, Give_Back 0] [] (example_pool, example_wait 10 []) = Inr (held, mp', s') \<and> distinct held"
proof -
  have "suspend_thread_count example_pool = 0" by (simp add: example_pool_def)
  then show ?thesis using pool_serves [OF example_pool_rep] by blast
qed

end
