(* ===== verification/Kservice.thy ===== *)
theory Kservice
  imports Heap
begin

text \<open>
  Memory and string functions of the kernel, \<^verbatim>\<open>rt-thread/src/kservice.c\<close>.

  \<^item> A function that writes acts on the memory, a list of bytes; an address is an index into it, and index 0 is
    aligned to words.
  \<^item> A pointer that is only read through and moved forward is the list of the bytes from it on.
  \<^item> \<open>char\<close> is unsigned, as on this target. A count is a number below \<open>2 ^ 32\<close>.
  \<^item> \<open>bytes_moved\<close> and \<open>put_bytes\<close> say what a copy and a fill have to do; \<open>cstr\<close> is the string up to its 0.
\<close>

section \<open>Operations\<close>

type_synonym memory = "u8 list"

text \<open>Accesses to aligned words.\<close>

definition put_word :: "nat \<Rightarrow> u32 \<Rightarrow> memory \<Rightarrow> fault + memory" where
  "put_word a w mem = (if a + 4 \<le> length mem then Inr (splice_at a (le32 w) mem) else Inl Oob_Write)"

definition get_word :: "nat \<Rightarrow> memory \<Rightarrow> fault + u32" where
  "get_word a mem = (if a + 4 \<le> length mem then Inr (of_le32 (drop a mem)) else Inl Oob_Read)"

fun set_bytes :: "nat \<Rightarrow> nat \<Rightarrow> u8 \<Rightarrow> memory \<Rightarrow> fault + memory" where
  "set_bytes 0 m d mem = Inr mem"
| "set_bytes (Suc count) m d mem = rbind (wr mem m d) (set_bytes count (m + 1) d)"

fun set_blocks :: "nat \<Rightarrow> nat \<Rightarrow> u32 \<Rightarrow> memory \<Rightarrow> fault + nat \<times> nat \<times> memory" where
  "set_blocks count a w mem =
     (if count \<ge> 4 * 4 then
        rbind (put_word a w mem) (\<lambda>mem.
        rbind (put_word (a + 4) w mem) (\<lambda>mem.
        rbind (put_word (a + 8) w mem) (\<lambda>mem.
        rbind (put_word (a + 12) w mem) (\<lambda>mem.
        set_blocks (count - 4 * 4) (a + 16) w mem))))
      else Inr (count, a, mem))"

fun set_words :: "nat \<Rightarrow> nat \<Rightarrow> u32 \<Rightarrow> memory \<Rightarrow> fault + nat \<times> nat \<times> memory" where
  "set_words count a w mem =
     (if count \<ge> 4 then rbind (put_word a w mem) (set_words (count - 4) (a + 4) w) else Inr (count, a, mem))"

definition rt_memset :: "nat \<Rightarrow> u32 \<Rightarrow> nat \<Rightarrow> memory \<Rightarrow> fault + memory" where
  "rt_memset s c count mem =
     (let d = c AND 0xff
      in rbind (if \<not> count < 4 \<and> s mod 4 = 0 then
                  let buffer = push_bit 8 d OR d;
                      buffer = buffer OR push_bit 16 buffer
                  in rbind (set_blocks count s buffer mem) (\<lambda>(count, m, mem). set_words count m buffer mem)
                else Inr (count, s, mem))
           (\<lambda>(count, m, mem). set_bytes count m (ucast d) mem))"

definition copy_word :: "nat \<Rightarrow> nat \<Rightarrow> memory \<Rightarrow> fault + memory" where
  "copy_word d s mem = rbind (get_word s mem) (\<lambda>w. put_word d w mem)"

fun copy_bytes :: "nat \<Rightarrow> nat \<Rightarrow> nat \<Rightarrow> memory \<Rightarrow> fault + memory" where
  "copy_bytes 0 d s mem = Inr mem"
| "copy_bytes (Suc len) d s mem = rbind (rd mem s) (\<lambda>x. rbind (wr mem d x) (copy_bytes len (d + 1) (s + 1)))"

fun copy_blocks :: "nat \<Rightarrow> nat \<Rightarrow> nat \<Rightarrow> memory \<Rightarrow> fault + nat \<times> nat \<times> nat \<times> memory" where
  "copy_blocks len d s mem =
     (if len \<ge> 16 then
        rbind (copy_word d s mem) (\<lambda>mem.
        rbind (copy_word (d + 4) (s + 4) mem) (\<lambda>mem.
        rbind (copy_word (d + 8) (s + 8) mem) (\<lambda>mem.
        rbind (copy_word (d + 12) (s + 12) mem) (\<lambda>mem.
        copy_blocks (len - 16) (d + 16) (s + 16) mem))))
      else Inr (len, d, s, mem))"

fun copy_words :: "nat \<Rightarrow> nat \<Rightarrow> nat \<Rightarrow> memory \<Rightarrow> fault + nat \<times> nat \<times> nat \<times> memory" where
  "copy_words len d s mem =
     (if len \<ge> 4 then rbind (copy_word d s mem) (copy_words (len - 4) (d + 4) (s + 4)) else Inr (len, d, s, mem))"

definition rt_memcpy :: "nat \<Rightarrow> nat \<Rightarrow> nat \<Rightarrow> memory \<Rightarrow> fault + memory" where
  "rt_memcpy dst src count mem =
     rbind (if \<not> count < 16 \<and> src mod 4 = 0 \<and> dst mod 4 = 0 then
              rbind (copy_blocks count dst src mem) (\<lambda>(len, d, s, mem). copy_words len d s mem)
            else Inr (count, dst, src, mem))
       (\<lambda>(len, d, s, mem). copy_bytes len d s mem)"

text \<open>The loop from the end; \<open>d\<close> and \<open>s\<close> point behind the bytes that are left.\<close>

fun copy_down :: "nat \<Rightarrow> nat \<Rightarrow> nat \<Rightarrow> memory \<Rightarrow> fault + memory" where
  "copy_down 0 d s mem = Inr mem"
| "copy_down (Suc n) d s mem = rbind (rd mem (s - 1)) (\<lambda>x. rbind (wr mem (d - 1) x) (copy_down n (d - 1) (s - 1)))"

definition rt_memmove :: "nat \<Rightarrow> nat \<Rightarrow> nat \<Rightarrow> memory \<Rightarrow> fault + memory" where
  "rt_memmove dest src n mem =
     (if src < dest \<and> dest < src + n then copy_down n (dest + n) (src + n) mem else copy_bytes n dest src mem)"

fun rt_memcmp :: "u8 list \<Rightarrow> u8 list \<Rightarrow> nat \<Rightarrow> fault + int" where
  "rt_memcmp su1 su2 0 = Inr 0"
| "rt_memcmp (x # su1) (y # su2) (Suc count) =
     (let res = uint x - uint y in if res \<noteq> 0 then Inr res else rt_memcmp su1 su2 count)"
| "rt_memcmp _ _ (Suc count) = Inl Oob_Read"

fun rt_strlen :: "u8 list \<Rightarrow> fault + nat" where
  "rt_strlen [] = Inl Oob_Read"
| "rt_strlen (x # s) = (if x = 0 then Inr 0 else rbind (rt_strlen s) (\<lambda>n. Inr (Suc n)))"

text \<open>\<open>k\<close> is how far the pointer is from the begin.\<close>

fun strnlen_loop :: "nat \<Rightarrow> nat \<Rightarrow> u8 list \<Rightarrow> fault + nat" where
  "strnlen_loop maxlen k [] = Inl Oob_Read"
| "strnlen_loop maxlen k (x # sc) = (if x \<noteq> 0 \<and> k < maxlen then strnlen_loop maxlen (Suc k) sc else Inr k)"

definition rt_strnlen :: "u8 list \<Rightarrow> nat \<Rightarrow> fault + nat" where
  "rt_strnlen s maxlen = strnlen_loop maxlen 0 s"

text \<open>The place of the occurrence in the source string, if there is one.\<close>

fun strstr_loop :: "nat \<Rightarrow> nat \<Rightarrow> nat \<Rightarrow> u8 list \<Rightarrow> u8 list \<Rightarrow> fault + nat option" where
  "strstr_loop 0 l2 k s1 s2 = Inr None"
| "strstr_loop (Suc l1) l2 k s1 s2 =
     (if Suc l1 \<ge> l2 then
        rbind (rt_memcmp s1 s2 l2) (\<lambda>r. if r = 0 then Inr (Some k) else strstr_loop l1 l2 (Suc k) (tl s1) s2)
      else Inr None)"

definition rt_strstr :: "u8 list \<Rightarrow> u8 list \<Rightarrow> fault + nat option" where
  "rt_strstr s1 s2 =
     rbind (rt_strlen s2) (\<lambda>l2.
     if l2 = 0 then Inr (Some 0) else rbind (rt_strlen s1) (\<lambda>l1. strstr_loop l1 l2 0 s1 s2))"

definition lower :: "int \<Rightarrow> int" where
  "lower c = (if c \<ge> 65 \<and> c \<le> 90 then c + 32 else c)"

fun rt_strcasecmp :: "u8 list \<Rightarrow> u8 list \<Rightarrow> fault + u32" where
  "rt_strcasecmp (x # a) (y # b) =
     (let ca = lower (uint x); cb = lower (uint y)
      in if ca = cb \<and> ca \<noteq> 0 then rt_strcasecmp a b else Inr (word_of_int (ca - cb)))"
| "rt_strcasecmp _ _ = Inl Oob_Read"

fun strncpy_loop :: "nat \<Rightarrow> nat \<Rightarrow> u8 list \<Rightarrow> memory \<Rightarrow> fault + memory" where
  "strncpy_loop 0 d s mem = Inr mem"
| "strncpy_loop (Suc n) d [] mem = Inl Oob_Read"
| "strncpy_loop (Suc n) d (x # s) mem =
     rbind (wr mem d x) (\<lambda>mem. if x = 0 then set_bytes n (d + 1) 0 mem else strncpy_loop n (d + 1) s mem)"

definition rt_strncpy :: "nat \<Rightarrow> u8 list \<Rightarrow> nat \<Rightarrow> memory \<Rightarrow> fault + memory" where
  "rt_strncpy dst src n mem = strncpy_loop n dst src mem"

fun rt_strncmp :: "u8 list \<Rightarrow> u8 list \<Rightarrow> nat \<Rightarrow> fault + int" where
  "rt_strncmp cs ct 0 = Inr 0"
| "rt_strncmp (x # cs) (y # ct) (Suc count) =
     (let res = s8 (uint x - uint y) in if res \<noteq> 0 \<or> x = 0 then Inr res else rt_strncmp cs ct count)"
| "rt_strncmp _ _ (Suc count) = Inl Oob_Read"

fun rt_strcmp :: "u8 list \<Rightarrow> u8 list \<Rightarrow> fault + int" where
  "rt_strcmp (x # cs) (y # ct) = (if x \<noteq> 0 \<and> x = y then rt_strcmp cs ct else Inr (uint x - uint y))"
| "rt_strcmp _ _ = Inl Oob_Read"


section \<open>Fills\<close>

definition put_bytes :: "nat \<Rightarrow> u8 list \<Rightarrow> memory \<Rightarrow> fault + memory" where
  "put_bytes a xs mem = (if xs = [] \<or> a + length xs \<le> length mem then Inr (splice_at a xs mem) else Inl Oob_Write)"

lemma splice_at_Nil [simp]: "splice_at a [] mem = mem"
  by (simp add: splice_at_def)

lemma splice_at_append:
  assumes "a + length xs + length ys \<le> length mem"
  shows "splice_at (a + length xs) ys (splice_at a xs mem) = splice_at a (xs @ ys) mem"
  using assms by (intro nth_equalityI) (auto simp: nth_splice_at nth_append)

lemma put_bytes_append: "rbind (put_bytes a xs mem) (put_bytes (a + length xs) ys) = put_bytes a (xs @ ys) mem"
  using splice_at_append [of a xs ys mem] by (cases ys) (auto simp: put_bytes_def)

lemma put_bytes_step:
  "b = a + length xs \<Longrightarrow>
    rbind (put_bytes a xs mem) (\<lambda>mem. rbind (put_bytes b ys mem) f) = rbind (put_bytes a (xs @ ys) mem) f"
  by (simp add: put_bytes_append [symmetric] rbind_assoc)

lemma wr_put: "wr mem a x = put_bytes a [x] mem"
  by (simp add: wr_def put_bytes_def splice_at_def upd_conv_take_nth_drop)

lemma length_le32 [simp]: "length (le32 w) = 4"
  by (simp add: le32_def)

lemma put_word_put: "put_word a w mem = put_bytes a (le32 w) mem"
  by (auto simp: put_word_def put_bytes_def le32_def)

lemma set_bytes_put: "set_bytes n a d = put_bytes a (replicate n d)"
proof (induction n arbitrary: a)
  case (Suc n)
  show ?case
  proof (rule ext)
    show "set_bytes (Suc n) a d mem = put_bytes a (replicate (Suc n) d) mem" for mem
      using put_bytes_append [of a "[d]" mem "replicate n d"] by (simp add: wr_put Suc.IH)
  qed
qed (simp add: put_bytes_def fun_eq_iff)

declare set_blocks.simps [simp del] set_words.simps [simp del] copy_blocks.simps [simp del] copy_words.simps [simp del]

lemma replicate_split: "k \<le> n \<Longrightarrow> replicate k x @ replicate (n - k) x = replicate n x"
  by (simp add: replicate_add [symmetric])

lemma set_words_put:
  assumes w: "le32 w = replicate 4 d"
  shows "rbind (set_words n a w mem) (\<lambda>(n, a, mem). set_bytes n a d mem) = put_bytes a (replicate n d) mem"
proof (induction n arbitrary: a mem rule: less_induct)
  case (less n)
  show ?case
  proof (cases "n \<ge> 4")
    case True
    have "rbind (set_words n a w mem) (\<lambda>(n, a, mem). set_bytes n a d mem) =
        rbind (put_bytes a (replicate 4 d) mem) (\<lambda>mem. rbind (set_words (n - 4) (a + 4) w mem) (\<lambda>(n, a, mem). set_bytes n a d mem))"
      using True by (simp add: set_words.simps [of n] put_word_put w rbind_assoc)
    also have "\<dots> = put_bytes a (replicate n d) mem"
      using less [of "n - 4" "a + 4"] True put_bytes_append [of a "replicate 4 d" mem "replicate (n - 4) d"]
      by (simp add: replicate_split)
    finally show ?thesis .
  qed (simp add: set_words.simps set_bytes_put)
qed

lemma set_blocks_put:
  assumes w: "le32 w = replicate 4 d"
  shows "rbind (set_blocks n a w mem) (\<lambda>(n, a, mem). rbind (set_words n a w mem) (\<lambda>(n, a, mem). set_bytes n a d mem)) =
    put_bytes a (replicate n d) mem"
proof (induction n arbitrary: a mem rule: less_induct)
  case (less n)
  let ?f = "\<lambda>(n, a, mem). rbind (set_words n a w mem) (\<lambda>(n, a, mem). set_bytes n a d mem)"
  show ?case
  proof (cases "n \<ge> 16")
    case True
    have four: "rbind (put_bytes a (replicate 4 d) mem) (\<lambda>mem. rbind (put_bytes (a + 4) (replicate 4 d) mem) (\<lambda>mem.
        rbind (put_bytes (a + 8) (replicate 4 d) mem) (\<lambda>mem. rbind (put_bytes (a + 12) (replicate 4 d) mem) f))) =
      rbind (put_bytes a (replicate 16 d) mem) f" for f :: "memory \<Rightarrow> fault + nat \<times> nat \<times> memory"
      by (simp add: put_bytes_step replicate_add [symmetric])
    have "rbind (set_blocks n a w mem) ?f = rbind (put_bytes a (replicate 16 d) mem) (\<lambda>mem. rbind (set_blocks (n - 16) (a + 16) w mem) ?f)"
      using True four by (simp add: set_blocks.simps [of n] put_word_put w rbind_assoc)
    also have "\<dots> = put_bytes a (replicate n d) mem"
      using less [of "n - 16" "a + 16"] True put_bytes_append [of a "replicate 16 d" mem "replicate (n - 16) d"]
      by (simp add: replicate_split)
    finally show ?thesis .
  qed (simp add: set_blocks.simps set_words_put [OF w])
qed

lemma bit_0xff: "bit (0xff :: u32) m \<longleftrightarrow> m < 8"
  using bit_mask_iff [where ?'a = "32 word", of 8 m] by (auto simp: mask_numeral)

lemma u8_bit: "n < LENGTH(8) \<Longrightarrow> bit (ucast (drop_bit k (w :: u32)) :: u8) n \<longleftrightarrow> bit w (k + n)"
  by (simp add: bit_ucast_iff bit_drop_bit_eq)

lemma memset_word:
  fixes c :: u32
  defines "d \<equiv> c AND 0xff"
  defines "b \<equiv> push_bit 8 d OR d"
  shows "le32 (b OR push_bit 16 b) = replicate 4 (ucast d)"
proof -
  have d: "bit d m \<longleftrightarrow> m < 8 \<and> bit c m" for m
    unfolding d_def by (auto simp: bit_and_iff bit_0xff simp del: bit_numeral_word_iff)
  have b: "bit (b OR push_bit 16 b) m \<longleftrightarrow> bit d (m mod 8)" if "m < 32" for m
  proof -
    consider "m < 8" | "8 \<le> m" "m < 16" | "16 \<le> m" "m < 24" | "24 \<le> m" using that by linarith
    then show ?thesis
      using that by cases (auto simp: b_def bit_simps d le_mod_geq mod_less_twice)
  qed
  define w where "w = b OR push_bit 16 b"
  have byte: "ucast (drop_bit k w) = (ucast d :: u8)" if "8 dvd k" "k < 32" for k
  proof (rule bit_word_eqI)
    fix n assume n: "n < LENGTH(8)"
    then have "k + n < 32" "(k + n) mod 8 = n" using that by (auto simp: mod_add_left_eq elim!: dvdE)
    then show "bit (ucast (drop_bit k w) :: u8) n = bit (ucast d :: u8) n"
      using b [of "k + n"] u8_bit [OF n, of k w] u8_bit [OF n, of 0 d] by (simp add: w_def)
  qed
  have "replicate 4 x = [x, x, x, x]" for x :: u8 by (simp add: numeral_eq_Suc)
  then show ?thesis using byte [of 0] byte [of 8] byte [of 16] byte [of 24] by (simp add: le32_def w_def [symmetric])
qed

text \<open>
  C0: \<open>rt_memset\<close>, with its loops over blocks and words, does for every address and count what a loop over
  bytes does, also when it leaves the memory.
\<close>

theorem memset_fills: "rt_memset s c count mem = put_bytes s (replicate count (ucast c)) mem"
proof -
  have d: "ucast (c AND 0xff) = (ucast c :: u8)"
    by (rule bit_word_eqI) (simp add: bit_ucast_iff bit_and_iff bit_0xff del: bit_numeral_word_iff)
  show ?thesis
    using set_blocks_put [OF memset_word [of c], of count s mem]
    by (cases "\<not> count < 4 \<and> s mod 4 = 0") (simp_all add: rt_memset_def Let_def d set_bytes_put rbind_assoc split_def)
qed


section \<open>Copies\<close>

definition bytes_moved :: "nat \<Rightarrow> nat \<Rightarrow> nat \<Rightarrow> memory \<Rightarrow> memory" where
  "bytes_moved d s n mem = splice_at d (take n (drop s mem)) mem"

lemma length_bytes_moved [simp]: "d + n \<le> length mem \<Longrightarrow> s + n \<le> length mem \<Longrightarrow> length (bytes_moved d s n mem) = length mem"
  by (simp add: bytes_moved_def)

lemma nth_bytes_moved:
  assumes "d + n \<le> length mem" "s + n \<le> length mem" "k < length mem"
  shows "bytes_moved d s n mem ! k = (if d \<le> k \<and> k < d + n then mem ! (s + (k - d)) else mem ! k)"
  using assms by (auto simp: bytes_moved_def nth_splice_at)

text \<open>A copy in two steps, from the front and from the end.\<close>

lemma bytes_moved_append:
  assumes "d + (k + n) \<le> length mem" "s + (k + n) \<le> length mem" "d \<le> s \<or> s + (k + n) \<le> d"
  shows "bytes_moved (d + k) (s + k) n (bytes_moved d s k mem) = bytes_moved d s (k + n) mem"
  using assms by (intro nth_equalityI) (auto simp: nth_bytes_moved)

lemma bytes_moved_Suc_down:
  assumes "d + Suc n \<le> length mem" "s + Suc n \<le> length mem" "s \<le> d"
  shows "bytes_moved d s n (mem[d + n := mem ! (s + n)]) = bytes_moved d s (Suc n) mem"
  using assms by (intro nth_equalityI) (auto simp: nth_bytes_moved nth_list_update less_Suc_eq)

lemma bytes_moved_1: "d < length mem \<Longrightarrow> s < length mem \<Longrightarrow> bytes_moved d s 1 mem = mem[d := mem ! s]"
  by (intro nth_equalityI) (auto simp: nth_bytes_moved nth_list_update)

lemma copy_bytes_moves:
  assumes "d + n \<le> length mem" "s + n \<le> length mem" "d \<le> s \<or> s + n \<le> d"
  shows "copy_bytes n d s mem = Inr (bytes_moved d s n mem)"
  using assms
proof (induction n arbitrary: d s mem)
  case (Suc n)
  have "copy_bytes (Suc n) d s mem = copy_bytes n (d + 1) (s + 1) (bytes_moved d s 1 mem)"
    using Suc.prems by (simp add: bytes_moved_1 [simplified])
  also have "\<dots> = Inr (bytes_moved d s (Suc n) mem)"
    using Suc.IH [of "d + 1" "bytes_moved d s 1 mem" "s + 1"] Suc.prems bytes_moved_append [of d 1 n mem s] by auto
  finally show ?case .
qed (simp add: bytes_moved_def)

lemma copy_down_moves:
  assumes "d + n \<le> length mem" "s + n \<le> length mem" "s \<le> d"
  shows "copy_down n (d + n) (s + n) mem = Inr (bytes_moved d s n mem)"
  using assms
proof (induction n arbitrary: mem)
  case (Suc n)
  then show ?case using bytes_moved_Suc_down [of d n mem s] by simp
qed (simp add: bytes_moved_def)

lemma le32_of_le32: "le32 (of_le32 (a # b # c # d # xs)) = [a, b, c, d]"
proof -
  have u8: "bit x m \<Longrightarrow> m < 8" for x :: u8 and m using bit_imp_le_length [of x m] by simp
  have b: "bit (of_le32 (a # b # c # d # xs)) m \<longleftrightarrow>
      m < 32 \<and> (bit a m \<or> 8 \<le> m \<and> bit b (m - 8) \<or> 16 \<le> m \<and> bit c (m - 16) \<or> 24 \<le> m \<and> bit d (m - 24))" for m
    by (auto simp: of_le32_def bit_simps dest: u8)
  show ?thesis
    by (simp add: le32_def; intro conjI bit_word_eqI) (auto simp: bit_ucast_iff bit_drop_bit_eq b dest: u8)
qed

lemma copy_word_moves:
  assumes "d + 4 \<le> length mem" "s + 4 \<le> length mem"
  shows "copy_word d s mem = Inr (bytes_moved d s 4 mem)"
proof -
  have "\<exists>a b c e xs. ys = a # b # c # e # xs" if "4 \<le> length ys" for ys :: memory
    using that by (auto simp: numeral_eq_Suc Suc_le_length_iff)
  then obtain a b c e xs where x: "drop s mem = a # b # c # e # xs" using assms(2) by (metis le_diff_conv2 add_leD2 add.commute length_drop)
  then have "le32 (of_le32 (drop s mem)) = take 4 (drop s mem)" by (simp add: le32_of_le32)
  then show ?thesis using assms by (simp add: copy_word_def get_word_def put_word_def bytes_moved_def)
qed

lemma copy_words_moves:
  assumes "d + n \<le> length mem" "s + n \<le> length mem" "d \<le> s \<or> s + n \<le> d"
  shows "rbind (copy_words n d s mem) (\<lambda>(n, d, s, mem). copy_bytes n d s mem) = Inr (bytes_moved d s n mem)"
  using assms
proof (induction n arbitrary: d s mem rule: less_induct)
  case (less n)
  show ?case
  proof (cases "n \<ge> 4")
    case True
    let ?mem = "bytes_moved d s 4 mem"
    have "rbind (copy_words n d s mem) (\<lambda>(n, d, s, mem). copy_bytes n d s mem) =
        rbind (copy_words (n - 4) (d + 4) (s + 4) ?mem) (\<lambda>(n, d, s, mem). copy_bytes n d s mem)"
      using True less.prems by (simp add: copy_words.simps [of n] copy_word_moves)
    also have "\<dots> = Inr (bytes_moved d s n mem)"
      using less.IH [of "n - 4" "d + 4" ?mem "s + 4"] less.prems True bytes_moved_append [of d 4 "n - 4" mem s] by fastforce
    finally show ?thesis .
  next
    case False
    then show ?thesis using less.prems by (simp add: copy_words.simps copy_bytes_moves)
  qed
qed

lemma copy_blocks_moves:
  assumes "d + n \<le> length mem" "s + n \<le> length mem" "d \<le> s \<or> s + n \<le> d"
  shows "rbind (copy_blocks n d s mem) (\<lambda>(n, d, s, mem). rbind (copy_words n d s mem) (\<lambda>(n, d, s, mem). copy_bytes n d s mem)) =
    Inr (bytes_moved d s n mem)"
  using assms
proof (induction n arbitrary: d s mem rule: less_induct)
  case (less n)
  let ?f = "\<lambda>(n, d, s, mem). rbind (copy_words n d s mem) (\<lambda>(n, d, s, mem). copy_bytes n d s mem)"
  show ?case
  proof (cases "n \<ge> 16")
    case True
    let ?m1 = "bytes_moved d s 4 mem" and ?m2 = "bytes_moved d s 8 mem" and ?m3 = "bytes_moved d s 12 mem"
    have m: "bytes_moved (d + 4) (s + 4) 4 ?m1 = ?m2" "bytes_moved (d + 8) (s + 8) 4 ?m2 = ?m3"
      "bytes_moved (d + 12) (s + 12) 4 ?m3 = bytes_moved d s 16 mem"
      using less.prems True bytes_moved_append [of d 4 4 mem s] bytes_moved_append [of d 8 4 mem s]
        bytes_moved_append [of d 12 4 mem s] by auto
    have "copy_word d s mem = Inr ?m1" "copy_word (d + 4) (s + 4) ?m1 = Inr ?m2" "copy_word (d + 8) (s + 8) ?m2 = Inr ?m3"
      "copy_word (d + 12) (s + 12) ?m3 = Inr (bytes_moved d s 16 mem)"
      using less.prems True by (simp_all add: copy_word_moves m)
    then have "rbind (copy_blocks n d s mem) ?f = rbind (copy_blocks (n - 16) (d + 16) (s + 16) (bytes_moved d s 16 mem)) ?f"
      using True by (simp add: copy_blocks.simps [of n])
    also have "\<dots> = Inr (bytes_moved d s n mem)"
      using less.IH [of "n - 16" "d + 16" "bytes_moved d s 16 mem" "s + 16"] less.prems True
        bytes_moved_append [of d 16 "n - 16" mem s] by fastforce
    finally show ?thesis .
  next
    case False
    then show ?thesis using less.prems by (simp add: copy_blocks.simps copy_words_moves)
  qed
qed

text \<open>
  C0: \<open>rt_memcpy\<close> moves the bytes when the areas do not overlap or the destination lies first, with its blocks of
  words as with single bytes.
\<close>

theorem memcpy_moves:
  assumes "dst + count \<le> length mem" "src + count \<le> length mem" "dst \<le> src \<or> src + count \<le> dst"
  shows "rt_memcpy dst src count mem = Inr (bytes_moved dst src count mem)"
  using copy_blocks_moves [OF assms] copy_bytes_moves [OF assms]
  by (cases "\<not> count < 16 \<and> src mod 4 = 0 \<and> dst mod 4 = 0") (simp_all add: rt_memcpy_def rbind_assoc split_def)

text \<open>C0: \<open>rt_memmove\<close> moves the bytes however the areas overlap.\<close>

theorem memmove_moves:
  assumes "dest + n \<le> length mem" "src + n \<le> length mem"
  shows "rt_memmove dest src n mem = Inr (bytes_moved dest src n mem)"
proof (cases "src < dest \<and> dest < src + n")
  case True
  then show ?thesis using assms by (simp add: rt_memmove_def copy_down_moves)
next
  case False
  then have "dest \<le> src \<or> src + n \<le> dest" by auto
  then show ?thesis using False assms by (auto simp: rt_memmove_def copy_bytes_moves)
qed


section \<open>Comparison\<close>

lemma u8_uint_eq: "uint (x :: u8) = uint y \<longleftrightarrow> x = y"
  by (simp add: word_uint_eq_iff)

lemma u8_uint_less: "uint (x :: u8) < uint y \<longleftrightarrow> x < y"
  by (simp add: word_less_def)

lemma u8_uint_zero: "0 < uint (x :: u8) \<longleftrightarrow> x \<noteq> 0"
  using u8_uint_less [of 0 x] by (simp add: word_neq_0_conv)

text \<open>C0: \<open>rt_memcmp\<close> has the sign of the lexicographic order of the bytes.\<close>

theorem memcmp_compares:
  assumes "count \<le> length su1" "count \<le> length su2"
  shows "\<exists>r. rt_memcmp su1 su2 count = Inr r \<and> (r = 0 \<longleftrightarrow> take count su1 = take count su2) \<and>
    (r < 0 \<longleftrightarrow> ord_class.lexordp (take count su1) (take count su2))"
  using assms
proof (induction su1 su2 count rule: rt_memcmp.induct)
  case (2 x su1 y su2 count)
  then show ?case by (auto simp: Let_def u8_uint_less u8_uint_eq)
qed auto

text \<open>The string that a pointer stands for.\<close>

definition cstr :: "u8 list \<Rightarrow> u8 list" where
  "cstr s = takeWhile (\<lambda>x. x \<noteq> 0) s"

lemma cstr_simps [simp]: "cstr [] = []" "cstr (x # s) = (if x = 0 then [] else x # cstr s)"
  by (simp_all add: cstr_def)

lemma strlen_cstr: "rt_strlen s = (if 0 \<in> set s then Inr (length (cstr s)) else Inl Oob_Read)"
  by (induction s) auto

lemma cstr_split: "0 \<in> set s \<Longrightarrow> \<exists>s'. s = cstr s @ 0 # s'"
  by (induction s) auto

lemma no_zero_cstr: "0 \<notin> set (cstr s)"
  by (induction s) auto

text \<open>\<open>rt_strnlen\<close> has the length of the string, at most \<open>maxlen\<close>, when it may look at one byte more.\<close>

lemma strnlen_loop_ok:
  "0 \<in> set s \<or> maxlen < k + length s \<Longrightarrow> k \<le> maxlen \<Longrightarrow> strnlen_loop maxlen k s = Inr (min (k + length (cstr s)) maxlen)"
  by (induction s arbitrary: k) auto

lemma strnlen_ok: "0 \<in> set s \<or> maxlen < length s \<Longrightarrow> rt_strnlen s maxlen = Inr (min (length (cstr s)) maxlen)"
  using strnlen_loop_ok [of s maxlen 0] by (simp add: rt_strnlen_def)

lemma strnlen_loop_overread: "0 \<notin> set s \<Longrightarrow> k + length s \<le> maxlen \<Longrightarrow> strnlen_loop maxlen k s = Inl Oob_Read"
  by (induction s arbitrary: k) auto

text \<open>
  C0: On an area of \<open>maxlen\<close> bytes without a 0, which the function is made for, \<open>rt_strnlen\<close> reads the byte
  behind it.
\<close>

theorem strnlen_overread: "0 \<notin> set s \<Longrightarrow> length s = maxlen \<Longrightarrow> rt_strnlen s maxlen = Inl Oob_Read"
  using strnlen_loop_overread [of s 0 maxlen] by (simp add: rt_strnlen_def)

theorem strnlen_overread_witness: "rt_strnlen [82, 84] 2 = Inl Oob_Read"
  using strnlen_overread [of "[82, 84]" 2] by simp

lemma take_eq_split: "take n a = take n b \<longleftrightarrow> (n = 0 \<or> a = [] \<and> b = [] \<or> (\<exists>x a' b'. a = x # a' \<and> b = x # b' \<and> take (n - 1) a' = take (n - 1) b'))"
  by (cases n; cases a; cases b) auto

lemma strcmp_zero:
  assumes "0 \<in> set s" "0 \<in> set t"
  shows "\<exists>r. rt_strcmp s t = Inr r \<and> (r = 0 \<longleftrightarrow> cstr s = cstr t) \<and> (r < 0 \<longleftrightarrow> ord_class.lexordp (cstr s) (cstr t))"
  using assms
proof (induction s t rule: rt_strcmp.induct)
  case (1 x cs y ct)
  show ?case
  proof (cases "x \<noteq> 0 \<and> x = y")
    case True
    then show ?thesis using 1 by auto
  next
    case False
    then show ?thesis
      by (auto simp: u8_uint_less u8_uint_eq u8_uint_zero word_neq_0_conv [symmetric])
  qed
qed auto

lemma s8_mod: "s8 i = (i + 128) mod 256 - 128"
  by (simp add: s8_def signed_take_bit_eq_take_bit_shift take_bit_eq_mod)

lemma s8_cases:
  assumes "- 256 < i" "i < 256"
  shows "s8 i = (if i < - 128 then i + 256 else if i < 128 then i else i - 256)"
proof -
  have "(i + 128) mod 256 = (i + 128 - 256) mod 256" "(i + 128) mod 256 = (i + 128 + 256) mod 256"
    by (simp_all only: minus_mod_self2 mod_add_self2)
  then show ?thesis
    using assms mod_pos_pos_trivial [of "i + 128" 256] mod_pos_pos_trivial [of "i + 128 - 256" 256]
      mod_pos_pos_trivial [of "i + 128 + 256" 256] by (auto simp: s8_mod)
qed

lemma s8_zero: "- 256 < i \<Longrightarrow> i < 256 \<Longrightarrow> s8 i = 0 \<longleftrightarrow> i = 0"
  using s8_cases [of i] by auto

lemma u8_uint: "0 \<le> uint (x :: u8)" "uint (x :: u8) < 256"
  using uint_lt2p [of x] by simp_all

text \<open>\<open>rt_strncmp\<close> is 0 if and only if the strings agree in the first \<open>n\<close> characters.\<close>

lemma strncmp_equal:
  assumes "0 \<in> set s \<or> n \<le> length s" "0 \<in> set t \<or> n \<le> length t"
  shows "\<exists>r. rt_strncmp s t n = Inr r \<and> (r = 0 \<longleftrightarrow> take n (cstr s) = take n (cstr t))"
  using assms
proof (induction s t n rule: rt_strncmp.induct)
  case (2 x cs y ct n)
  show ?case
  proof (cases "x = y")
    case True
    then show ?thesis using 2 by (auto simp: Let_def s8_def)
  next
    case False
    have "- 256 < uint x - uint y" "uint x - uint y < 256" using u8_uint [of x] u8_uint [of y] by linarith+
    then have "s8 (uint x - uint y) \<noteq> 0" using False s8_zero [of "uint x - uint y"] by (simp add: u8_uint_eq)
    then show ?thesis using False by auto
  qed
qed auto

text \<open>
  C0: The result of \<open>rt_strncmp\<close> is cut to eight bits; when the first difference is 128 or more, it has the
  wrong sign, the opposite of that of \<open>rt_strcmp\<close>.
\<close>

theorem strncmp_wrong_sign:
  assumes "0 \<notin> set xs" "length xs < n" "uint y + 128 \<le> uint x"
  shows "\<exists>r r'. rt_strncmp (xs @ x # cs) (xs @ y # ct) n = Inr r \<and> r < 0 \<and> rt_strcmp (xs @ x # cs) (xs @ y # ct) = Inr r' \<and> 0 < r'"
  using assms
proof (induction xs arbitrary: n)
  case Nil
  have "uint x - uint y < 256" using u8_uint [of x] u8_uint [of y] by linarith
  then have "s8 (uint x - uint y) < 0" using Nil(3) using s8_cases [of "uint x - uint y"] by auto
  then show ?case using Nil by (cases n) (auto simp: Let_def)
next
  case (Cons a xs)
  then obtain m where m: "n = Suc m" by (cases n) auto
  have "s8 (uint a - uint a) = 0" by (simp add: s8_def)
  then show ?case using Cons.IH [of m] Cons.prems m by (auto simp: Let_def)
qed


lemma lower_range: "0 \<le> lower (uint (x :: u8))" "lower (uint x) < 256"
  using u8_uint [of x] by (auto simp: lower_def)

lemma strcasecmp_zero:
  assumes "0 \<in> set s" "0 \<in> set t"
  shows "\<exists>r. rt_strcasecmp s t = Inr r \<and> (r = 0 \<longleftrightarrow> map (lower \<circ> uint) (cstr s) = map (lower \<circ> uint) (cstr t))"
  using assms
proof (induction s t rule: rt_strcasecmp.induct)
  case (1 x a y b)
  let ?x = "lower (uint x)" and ?y = "lower (uint y)"
  have z: "lower (uint w) = 0 \<longleftrightarrow> w = 0" for w :: u8 using u8_uint_eq [of w 0] u8_uint [of w] by (auto simp: lower_def)
  show ?case
  proof (cases "?x = ?y")
    case True
    then show ?thesis using 1 z [of x] z [of y] by (auto simp: Let_def)
  next
    case False
    have "- 256 \<le> ?x - ?y" "?x - ?y \<le> 256" using lower_range [of x] lower_range [of y] by linarith+
    moreover have w: "(word_of_int k :: u32) = 0 \<longleftrightarrow> k = 0" if "- 256 \<le> k" "k \<le> 256" for k
      using that by (auto simp: word_of_int_eq_0_iff dest: zdvd_imp_le)
    ultimately have "(word_of_int (?x - ?y) :: u32) \<noteq> 0" using False w [of "?x - ?y"] by (metis eq_iff_diff_eq_0)
    then show ?thesis using False z [of x] z [of y] by (auto simp: Let_def)
  qed
qed auto

section \<open>Strings\<close>

lemma strncpy_loop_put:
  "0 \<in> set s \<or> n \<le> length s \<Longrightarrow> strncpy_loop n d s = put_bytes d (take n (cstr s @ replicate n 0))"
proof (induction n arbitrary: d s)
  case (Suc n)
  then obtain x s' where s: "s = x # s'" by (cases s) auto
  show ?case
  proof (rule ext)
    fix mem
    show "strncpy_loop (Suc n) d s mem = put_bytes d (take (Suc n) (cstr s @ replicate (Suc n) 0)) mem"
    proof (cases "x = 0")
      case True
      then show ?thesis using put_bytes_append [of d "[0]" mem "replicate n 0"] s by (simp add: wr_put set_bytes_put)
    next
      case False
      then have "strncpy_loop n (d + 1) s' = put_bytes (d + 1) (take n (cstr s' @ replicate n 0))" using Suc s by auto
      moreover have "take (n - k) (0 # replicate n 0) = replicate (n - k) (0 :: u8)" for k
        using take_replicate [of "n - k" "Suc n" "0 :: u8"] by (simp add: min_def)
      ultimately show ?thesis
        using put_bytes_append [of d "[x]" mem "take n (cstr s' @ replicate n 0)"] s False by (simp add: wr_put min_def)
    qed
  qed
qed (simp add: put_bytes_def fun_eq_iff)

text \<open>
  \<open>rt_strncpy\<close> writes exactly \<open>n\<close> bytes: the string up to its 0 or the first \<open>n\<close> characters of it, and zeros
  behind.
\<close>

lemma strncpy_put:
  assumes "0 \<in> set src \<or> n \<le> length src"
  shows "rt_strncpy dst src n mem = put_bytes dst (take n (cstr src @ replicate n 0)) mem"
  using strncpy_loop_put [OF assms] by (simp add: rt_strncpy_def)

lemma memcmp_prefix:
  assumes "n \<le> length s1" "n \<le> length s2"
  shows "\<exists>r. rt_memcmp s1 s2 n = Inr r \<and> (r = 0 \<longleftrightarrow> take n s1 = take n s2)"
  using assms by (induction s1 s2 n rule: rt_memcmp.induct) (auto simp: Let_def u8_uint_eq)

lemma strstr_loop_ok:
  assumes s2: "s2 = b @ 0 # t2" "b \<noteq> []" and s1: "s1 = a @ 0 # t1"
  shows "\<exists>r. strstr_loop (length a) (length b) k s1 s2 = Inr r \<and>
    (case r of Some i \<Rightarrow> k \<le> i \<and> take (length b) (drop (i - k) a) = b \<and> (\<forall>j < i - k. take (length b) (drop j a) \<noteq> b)
     | None \<Rightarrow> \<forall>j. take (length b) (drop j a) \<noteq> b)"
  using s1
proof (induction a arbitrary: k s1)
  case Nil
  then show ?case using s2(2) by auto
next
  case (Cons x a)
  show ?case
  proof (cases "length b \<le> Suc (length a)")
    case False
    then have "length (take (length b) (drop j (x # a))) \<noteq> length b" for j by simp
    then have "take (length b) (drop j (x # a)) \<noteq> b" for j by metis
    then show ?thesis using False by auto
  next
    case True
    have "length b \<le> length s1" "length b \<le> length s2" using True Cons.prems s2 by simp_all
    then obtain r where r: "rt_memcmp s1 s2 (length b) = Inr r" "r = 0 \<longleftrightarrow> take (length b) s1 = take (length b) s2"
      using memcmp_prefix by blast
    have eq: "take (length b) s1 = take (length b) (x # a)" "take (length b) s2 = b"
      using True Cons.prems s2 take_append [of "length b" "x # a" "0 # t1"] by simp_all
    show ?thesis
    proof (cases "r = 0")
      case True
      then show ?thesis using r eq \<open>length b \<le> Suc (length a)\<close> by (intro exI [of _ "Some k"]) auto
    next
      case False
      obtain q where q: "strstr_loop (length a) (length b) (Suc k) (tl s1) s2 = Inr q"
          "case q of Some i \<Rightarrow> Suc k \<le> i \<and> take (length b) (drop (i - Suc k) a) = b \<and> (\<forall>j < i - Suc k. take (length b) (drop j a) \<noteq> b)
           | None \<Rightarrow> \<forall>j. take (length b) (drop j a) \<noteq> b"
        using Cons.IH [of "tl s1" "Suc k"] Cons.prems by auto
      have run: "strstr_loop (length (x # a)) (length b) k s1 s2 = Inr q" using r q(1) False \<open>length b \<le> Suc (length a)\<close> by simp
      have ne: "take (length b) (x # a) \<noteq> b" using r False eq by simp
      show ?thesis
      proof (cases q)
        case None
        have "take (length b) (drop j (x # a)) \<noteq> b" for j using q(2) None ne by (cases j) auto
        then show ?thesis using run None by auto
      next
        case (Some i)
        then have i: "i - k = Suc (i - Suc k)" "Suc k \<le> i" using q(2) by auto
        have "take (length b) (drop j (x # a)) \<noteq> b" if "j < i - k" for j using q(2) Some ne that i by (cases j) auto
        then show ?thesis using run Some q(2) i by auto
      qed
    qed
  qed
qed

text \<open>C0: \<open>rt_strstr\<close> finds the first occurrence of one string in the other, and nothing when there is none.\<close>

theorem strstr_finds_first:
  assumes "0 \<in> set s1" "0 \<in> set s2"
  shows "\<exists>r. rt_strstr s1 s2 = Inr r \<and>
    (case r of
       Some i \<Rightarrow> take (length (cstr s2)) (drop i (cstr s1)) = cstr s2 \<and> (\<forall>j < i. take (length (cstr s2)) (drop j (cstr s1)) \<noteq> cstr s2)
     | None \<Rightarrow> \<forall>j. take (length (cstr s2)) (drop j (cstr s1)) \<noteq> cstr s2)"
proof (cases "cstr s2 = []")
  case True
  then show ?thesis using assms by (simp add: rt_strstr_def strlen_cstr)
next
  case False
  obtain t1 t2 where "s1 = cstr s1 @ 0 # t1" "s2 = cstr s2 @ 0 # t2" using assms cstr_split by blast
  from strstr_loop_ok [OF this(2) False this(1), of 0] show ?thesis
    using assms False by (auto simp: rt_strstr_def strlen_cstr split: option.splits)
qed

end
