(* ===== verification/Object.thy ===== *)
theory Object
  imports Kservice Heap_Realloc
begin

text \<open>
  The object container, \<^verbatim>\<open>rt-thread/src/object.c\<close>, and \<open>rt_thread_find\<close> of \<^verbatim>\<open>thread.c\<close>.

  \<^item> An object is its address. The fields that all objects share are a record; the name is the array of
    \<open>RT_NAME_MAX\<close> bytes. A list is in the order from its head; a new object stands first.
  \<^item> The sizes of the kinds of objects, which the compiler decides, are an argument.
  \<^item> \<open>object_inv\<close> says that every list has objects of its type only, once each; \<open>heap_objects\<close> that the objects that
    were not static are allocated blocks of the heap.
\<close>

section \<open>Operations\<close>

definition RT_NAME_MAX :: nat where "RT_NAME_MAX = 8"
definition RT_Object_Class_Null :: u8 where "RT_Object_Class_Null = 0"
definition RT_Object_Class_Thread :: u8 where "RT_Object_Class_Thread = 1"
definition RT_Object_Class_Device :: u8 where "RT_Object_Class_Device = 9"
definition RT_Object_Class_Unknown :: u8 where "RT_Object_Class_Unknown = 12"
definition RT_Object_Class_Static :: u8 where "RT_Object_Class_Static = 0x80"

lemmas object_class_defs = RT_Object_Class_Null_def RT_Object_Class_Thread_def RT_Object_Class_Device_def
  RT_Object_Class_Unknown_def RT_Object_Class_Static_def

text \<open>The types of the table, from threads to timers; modules are not configured.\<close>

definition rt_object_container :: "u8 list" where
  "rt_object_container = [1, 2, 3, 4, 5, 6, 7, 8, 9, 10]"

record rt_object =
  obj_name :: "u8 list"
  obj_type :: u8
  obj_flag :: u8

record objects =
  objs :: "u32 \<Rightarrow> rt_object"
  object_list :: "u8 \<Rightarrow> u32 list"

definition obj_upd :: "u32 \<Rightarrow> (rt_object \<Rightarrow> rt_object) \<Rightarrow> objects \<Rightarrow> objects" where
  "obj_upd x f os = os\<lparr>objs := (objs os)(x := f (objs os x))\<rparr>"

definition obj_link :: "u8 \<Rightarrow> u32 \<Rightarrow> objects \<Rightarrow> objects" where
  "obj_link c x os = os\<lparr>object_list := (object_list os)(c := x # object_list os c)\<rparr>"

definition obj_unlink :: "u32 \<Rightarrow> objects \<Rightarrow> objects" where
  "obj_unlink x os = os\<lparr>object_list := (\<lambda>c. removeAll x (object_list os c))\<rparr>"

definition rt_object_get_information :: "u8 \<Rightarrow> u8 option" where
  "rt_object_get_information type = List.find (\<lambda>c. c = type) rt_object_container"

definition copy_name :: "u32 \<Rightarrow> u8 list \<Rightarrow> objects \<Rightarrow> fault + objects" where
  "copy_name x name os =
     rbind (rt_strncpy 0 name RT_NAME_MAX (obj_name (objs os x))) (\<lambda>n. Inr (obj_upd x (\<lambda>r. r\<lparr>obj_name := n\<rparr>) os))"

definition rt_object_init :: "u32 \<Rightarrow> u8 \<Rightarrow> u8 list \<Rightarrow> objects \<Rightarrow> fault + objects" where
  "rt_object_init x type name os =
     (case rt_object_get_information type of
        None \<Rightarrow> Inl Assert_Fail
      | Some c \<Rightarrow>
          let os = obj_upd x (\<lambda>r. r\<lparr>obj_type := type OR RT_Object_Class_Static\<rparr>) os
          in rbind (copy_name x name os) (\<lambda>os. Inr (obj_link c x os)))"

definition rt_object_detach :: "u32 \<Rightarrow> objects \<Rightarrow> objects" where
  "rt_object_detach x os = obj_unlink x (obj_upd x (\<lambda>r. r\<lparr>obj_type := 0\<rparr>) os)"

definition rt_object_allocate ::
  "(u8 \<Rightarrow> u32) \<Rightarrow> u8 \<Rightarrow> u8 list \<Rightarrow> objects \<Rightarrow> heap \<Rightarrow> kernel \<Rightarrow> fault + heap_result \<times> objects \<times> heap \<times> kernel" where
  "rt_object_allocate object_size type name os h s =
     (if \<not> not_in_interrupt s then Inl Assert_Fail
      else case rt_object_get_information type of
        None \<Rightarrow> Inl Assert_Fail
      | Some c \<Rightarrow>
          rbind (rt_malloc (object_size c) h s) (\<lambda>(r, h, s).
          case r of
            Ptr x \<Rightarrow>
              rbind (heap_write x (replicate (unat (object_size c)) 0) h) (\<lambda>h.
              let os = obj_upd x (\<lambda>_. \<lparr>obj_name = replicate RT_NAME_MAX 0, obj_type = type, obj_flag = 0\<rparr>) os
              in rbind (copy_name x name os) (\<lambda>os. Inr (Ptr x, obj_link c x os, h, s)))
          | _ \<Rightarrow> Inr (r, os, h, s)))"

definition rt_object_delete :: "u32 \<Rightarrow> objects \<Rightarrow> heap \<Rightarrow> kernel \<Rightarrow> fault + heap_result \<times> objects \<times> heap \<times> kernel" where
  "rt_object_delete x os h s =
     (if obj_type (objs os x) AND RT_Object_Class_Static \<noteq> 0 then Inl Assert_Fail
      else rbind (rt_free x h s) (\<lambda>(r, h, s). Inr (r, rt_object_detach x os, h, s)))"

definition rt_object_is_systemobject :: "u32 \<Rightarrow> objects \<Rightarrow> bool" where
  "rt_object_is_systemobject x os \<longleftrightarrow> obj_type (objs os x) AND RT_Object_Class_Static \<noteq> 0"

definition rt_object_get_type :: "u32 \<Rightarrow> objects \<Rightarrow> u8" where
  "rt_object_get_type x os = obj_type (objs os x) AND NOT RT_Object_Class_Static"

text \<open>The loop over the list of a type.\<close>

fun name_search :: "u8 list \<Rightarrow> u32 list \<Rightarrow> objects \<Rightarrow> fault + u32 option" where
  "name_search name [] os = Inr None"
| "name_search name (x # xs) os =
     rbind (rt_strncmp (obj_name (objs os x)) name RT_NAME_MAX) (\<lambda>r. if r = 0 then Inr (Some x) else name_search name xs os)"

definition rt_object_find :: "u8 list option \<Rightarrow> u8 \<Rightarrow> objects \<Rightarrow> kernel \<Rightarrow> fault + u32 option \<times> kernel" where
  "rt_object_find name type os s =
     (case name of
        None \<Rightarrow> Inr (None, s)
      | Some name \<Rightarrow>
          if type > RT_Object_Class_Unknown then Inr (None, s)
          else if \<not> not_in_interrupt s then Inl Assert_Fail
          else
            let s = rt_enter_critical s
            in (case rt_object_get_information type of
                  None \<Rightarrow> Inl Assert_Fail
                | Some c \<Rightarrow>
                    rbind (name_search name (object_list os c) os) (\<lambda>r.
                    rbind (rt_exit_critical s) (\<lambda>s. Inr (r, s)))))"

text \<open>
  The search that \<open>rt_thread_find\<close> and \<open>rt_device_find\<close> have in common: the scheduler is locked only if
  there is a current thread.
\<close>

definition class_find :: "u8 \<Rightarrow> u8 list \<Rightarrow> objects \<Rightarrow> kernel \<Rightarrow> fault + u32 option \<times> kernel" where
  "class_find type name os s =
     (let s = (if rt_thread_self s \<noteq> None then rt_enter_critical s else s)
      in (case rt_object_get_information type of
            None \<Rightarrow> Inl Assert_Fail
          | Some c \<Rightarrow>
              rbind (name_search name (object_list os c) os) (\<lambda>r.
              if rt_thread_self s \<noteq> None then rbind (rt_exit_critical s) (\<lambda>s. Inr (r, s)) else Inr (r, s))))"

definition rt_thread_find :: "u8 list \<Rightarrow> objects \<Rightarrow> kernel \<Rightarrow> fault + u32 option \<times> kernel" where
  "rt_thread_find = class_find RT_Object_Class_Thread"

section \<open>Names\<close>

text \<open>The part of a name that counts, and whether a name can be read as far as that.\<close>

definition key :: "u8 list \<Rightarrow> u8 list" where
  "key name = take RT_NAME_MAX (cstr name)"

definition readable :: "u8 list \<Rightarrow> bool" where
  "readable name \<longleftrightarrow> 0 \<in> set name \<or> RT_NAME_MAX \<le> length name"

definition stored_name :: "u8 list \<Rightarrow> u8 list" where
  "stored_name name = take RT_NAME_MAX (cstr name @ replicate RT_NAME_MAX 0)"

lemma length_stored_name [simp]: "length (stored_name name) = RT_NAME_MAX"
  by (simp add: stored_name_def)

lemma cstr_id: "0 \<notin> set xs \<Longrightarrow> cstr (xs @ ys) = xs @ cstr ys"
  by (induction xs) auto

lemma cstr_replicate [simp]: "cstr (replicate n 0) = []"
  by (cases n) simp_all

lemma key_stored_name [simp]: "key (stored_name name) = key name"
proof -
  let ?n = RT_NAME_MAX
  have "stored_name name = take ?n (cstr name) @ replicate (?n - length (cstr name)) 0" by (simp add: stored_name_def)
  moreover have "0 \<notin> set (take ?n (cstr name))" using no_zero_cstr [of name] by (meson in_set_takeD)
  ultimately show ?thesis by (simp add: key_def cstr_id)
qed

lemma copy_name_run:
  assumes "length (obj_name (objs os x)) = RT_NAME_MAX" "readable name"
  shows "copy_name x name os = Inr (obj_upd x (\<lambda>r. r\<lparr>obj_name := stored_name name\<rparr>) os)"
proof -
  have "put_bytes 0 (stored_name name) (obj_name (objs os x)) = Inr (stored_name name)"
    using assms(1) by (simp add: put_bytes_def splice_at_def)
  then show ?thesis
    using strncpy_put [of name RT_NAME_MAX 0] assms(2) by (simp add: copy_name_def readable_def stored_name_def)
qed

lemma name_search_run:
  assumes "\<forall>x \<in> set xs. length (obj_name (objs os x)) = RT_NAME_MAX" "readable name"
  shows "name_search name xs os = Inr (List.find (\<lambda>x. key (obj_name (objs os x)) = key name) xs)"
  using assms(1)
proof (induction xs)
  case (Cons x xs)
  obtain r where "rt_strncmp (obj_name (objs os x)) name RT_NAME_MAX = Inr r" "r = 0 \<longleftrightarrow> key (obj_name (objs os x)) = key name"
    using strncmp_equal [of "obj_name (objs os x)" RT_NAME_MAX name] Cons.prems assms(2) by (auto simp: key_def readable_def)
  then show ?case using Cons by simp
qed simp

section \<open>The container\<close>

lemma information: "rt_object_get_information c = (if c \<in> set rt_object_container then Some c else None)"
  by (auto simp: rt_object_get_information_def find_None_iff find_Some_iff2 rt_object_container_def)

definition object_inv :: "objects \<Rightarrow> bool" where
  "object_inv os \<longleftrightarrow> (\<forall>c x. x \<in> set (object_list os c) \<longrightarrow> c \<in> set rt_object_container \<and> rt_object_get_type x os = c \<and>
     length (obj_name (objs os x)) = RT_NAME_MAX) \<and> (\<forall>c. distinct (object_list os c))"

definition registered :: "u32 \<Rightarrow> objects \<Rightarrow> bool" where
  "registered x os \<longleftrightarrow> (\<exists>c. x \<in> set (object_list os c))"

lemma object_invD:
  assumes "object_inv os" "x \<in> set (object_list os c)"
  shows "c \<in> set rt_object_container" "rt_object_get_type x os = c" "length (obj_name (objs os x)) = RT_NAME_MAX"
  using assms by (auto simp: object_inv_def)

lemma obj_simps [simp]:
  "objs (obj_upd x f os) y = (if y = x then f (objs os x) else objs os y)" "object_list (obj_upd x f os) = object_list os"
  "objs (obj_link c x os) = objs os" "object_list (obj_link c x os) c' = (if c' = c then x # object_list os c else object_list os c')"
  "objs (obj_unlink x os) = objs os" "object_list (obj_unlink x os) c = removeAll x (object_list os c)"
  by (simp_all add: obj_upd_def obj_link_def obj_unlink_def)

text \<open>The two ways in which an object is entered have this in common.\<close>

lemma enter_inv:
  assumes inv: "object_inv os" and new: "\<not> registered x os" and c: "c \<in> set rt_object_container"
    and r: "obj_type r AND NOT RT_Object_Class_Static = c" "length (obj_name r) = RT_NAME_MAX"
  shows "object_inv (obj_link c x (obj_upd x (\<lambda>_. r) os))"
  using assms by (auto simp: object_inv_def registered_def rt_object_get_type_def)

lemma container_types:
  assumes "c \<in> set rt_object_container"
  shows "c AND NOT RT_Object_Class_Static = c" "(c OR RT_Object_Class_Static) AND NOT RT_Object_Class_Static = c"
    "c AND RT_Object_Class_Static = 0" "(c OR RT_Object_Class_Static) AND RT_Object_Class_Static \<noteq> 0"
    "\<not> RT_Object_Class_Unknown < c" "c \<noteq> 0"
  using assms by (auto simp: rt_object_container_def object_class_defs)

lemma rt_object_init_run:
  assumes "length (obj_name (objs os x)) = RT_NAME_MAX" "readable name" "c \<in> set rt_object_container"
  shows "rt_object_init x c name os =
    Inr (obj_link c x (obj_upd x (\<lambda>_. (objs os x)\<lparr>obj_name := stored_name name, obj_type := c OR RT_Object_Class_Static\<rparr>) os))"
  using assms by (simp add: rt_object_init_def information copy_name_run Let_def)
    (cases "objs os x"; simp add: obj_upd_def obj_link_def)

text \<open>
  C0: An object that is initialised stands in the container with its type, as a static object. A search by any
  name that agrees in the first eight characters finds it, other searches find what they found before.
\<close>

theorem object_found_after_init:
  assumes "object_inv os" "\<not> registered x os" "c \<in> set rt_object_container" "length (obj_name (objs os x)) = RT_NAME_MAX"
    and "readable name" "readable q"
  shows "\<exists>os'. rt_object_init x c name os = Inr os' \<and> object_inv os' \<and> rt_object_get_type x os' = c \<and> rt_object_is_systemobject x os' \<and>
    name_search q (object_list os' c) os' = (if key q = key name then Inr (Some x) else name_search q (object_list os c) os) \<and>
    (\<forall>c'. c' \<noteq> c \<longrightarrow> object_list os' c' = object_list os c')"
proof -
  let ?r = "(objs os x)\<lparr>obj_name := stored_name name, obj_type := c OR RT_Object_Class_Static\<rparr>"
  let ?os = "obj_link c x (obj_upd x (\<lambda>_. ?r) os)"
  note ct = container_types [OF assms(3)]
  have inv: "object_inv ?os" using enter_inv [OF assms(1-3)] ct by simp
  have nx: "x \<notin> set (object_list os c)" using assms(2) by (auto simp: registered_def)
  have "\<forall>y \<in> set (object_list os c). length (obj_name (objs os y)) = RT_NAME_MAX" using object_invD(3) [OF assms(1)] by blast
  then have before: "name_search q (object_list os c) os = Inr (List.find (\<lambda>y. key (obj_name (objs os y)) = key q) (object_list os c))"
    using assms(6) by (rule name_search_run)
  have "\<forall>y \<in> set (object_list ?os c). length (obj_name (objs ?os y)) = RT_NAME_MAX" using object_invD(3) [OF inv] by blast
  then have "name_search q (object_list ?os c) ?os = Inr (List.find (\<lambda>y. key (obj_name (objs ?os y)) = key q) (object_list ?os c))"
    using assms(6) by (rule name_search_run)
  moreover have "List.find (\<lambda>y. key (obj_name (objs ?os y)) = key q) (object_list os c) =
      List.find (\<lambda>y. key (obj_name (objs os y)) = key q) (object_list os c)"
    using nx by (intro find_cong) auto
  ultimately have "name_search q (object_list ?os c) ?os = (if key q = key name then Inr (Some x) else name_search q (object_list os c) os)"
    using before by auto
  then show ?thesis
    using rt_object_init_run [OF assms(4,5,3)] inv ct by (auto simp: rt_object_get_type_def rt_object_is_systemobject_def)
qed

text \<open>After a detach the object is in no list, has no type and is not a system object any more.\<close>

lemma rt_object_detach_ok:
  assumes "object_inv os"
  shows "object_inv (rt_object_detach x os)" "\<not> registered x (rt_object_detach x os)"
    "rt_object_get_type x (rt_object_detach x os) = RT_Object_Class_Null" "\<not> rt_object_is_systemobject x (rt_object_detach x os)"
    "object_list (rt_object_detach x os) c = removeAll x (object_list os c)" "y \<noteq> x \<Longrightarrow> objs (rt_object_detach x os) y = objs os y"
  using assms
  by (auto simp: rt_object_detach_def object_inv_def registered_def rt_object_get_type_def rt_object_is_systemobject_def
      object_class_defs distinct_removeAll)

section \<open>Searches\<close>

definition found :: "u8 list \<Rightarrow> u8 \<Rightarrow> objects \<Rightarrow> u32 option" where
  "found name c os = List.find (\<lambda>x. key (obj_name (objs os x)) = key name) (object_list os c)"

lemma name_search_found:
  assumes "object_inv os" "readable name"
  shows "name_search name (object_list os c) os = Inr (found name c os)"
  unfolding found_def by (rule name_search_run) (use object_invD(3) [OF assms(1)] assms(2) in auto)

lemma find_split: "List.find P xs = Some x \<Longrightarrow> \<exists>ys zs. xs = ys @ x # zs \<and> P x \<and> (\<forall>y \<in> set ys. \<not> P y)"
proof (induction xs)
  case (Cons a xs)
  show ?case
  proof (cases "P a")
    case True
    then have "a # xs = [] @ x # xs \<and> P x \<and> (\<forall>y \<in> set []. \<not> P y)" using Cons.prems by simp
    then show ?thesis by blast
  next
    case False
    then obtain ys zs where "a # xs = (a # ys) @ x # zs \<and> P x \<and> (\<forall>y \<in> set (a # ys). \<not> P y)" using Cons by auto
    then show ?thesis by blast
  qed
qed simp

lemma found_cases:
  "found name c os = None \<longleftrightarrow> (\<forall>x \<in> set (object_list os c). key (obj_name (objs os x)) \<noteq> key name)"
  "found name c os = Some x \<Longrightarrow> \<exists>xs ys. object_list os c = xs @ x # ys \<and> key (obj_name (objs os x)) = key name \<and>
     (\<forall>y \<in> set xs. key (obj_name (objs os y)) \<noteq> key name)"
  using find_split [of "\<lambda>x. key (obj_name (objs os x)) = key name" "object_list os c" x] by (auto simp: found_def find_None_iff)

lemma enter_kernel:
  "kernel_inv m s \<Longrightarrow> kernel_inv m (rt_enter_critical s)" "cur (rt_enter_critical s) = cur s"
  "rt_interrupt_nest (rt_enter_critical s) = rt_interrupt_nest s"
  by (simp_all add: rt_enter_critical_inv) (simp_all add: rt_enter_critical_def)

lemma class_find_run:
  assumes "object_inv os" "readable name" "c \<in> set rt_object_container" "kernel_inv m s"
  shows "\<exists>s'. class_find c name os s = Inr (found name c os, s') \<and> kernel_inv m s' \<and> (cur s \<noteq> None \<longrightarrow> cur s' \<noteq> None) \<and>
    rt_interrupt_nest s' = rt_interrupt_nest s"
proof (cases "cur s")
  case None
  then show ?thesis
    using assms by (simp add: class_find_def rt_thread_self_def information name_search_found Let_def)
next
  case (Some t)
  obtain s' where "rt_exit_critical (rt_enter_critical s) = Inr s'" "kernel_inv m s'" "cur s' \<noteq> None" "rt_interrupt_nest s' = rt_interrupt_nest s"
    using rt_exit_critical_ok [of m "rt_enter_critical s"] enter_kernel assms(4) Some by auto
  then show ?thesis
    using assms(1-3) Some by (simp add: class_find_def rt_thread_self_def information name_search_found enter_kernel Let_def)
qed

text \<open>
  C0: A search by name returns the object of the type that was entered last among those whose names agree with
  it in the first eight characters, or none. The kernel stays in order.
\<close>

theorem object_find_returns_latest:
  assumes "object_inv os" "readable name" "c \<in> set rt_object_container" "kernel_inv m s" "cur s \<noteq> None" "rt_interrupt_nest s = 0"
  shows "\<exists>s'. rt_object_find (Some name) c os s = Inr (found name c os, s') \<and> kernel_inv m s' \<and> cur s' \<noteq> None \<and>
    (case found name c os of
       None \<Rightarrow> \<forall>x \<in> set (object_list os c). key (obj_name (objs os x)) \<noteq> key name
     | Some x \<Rightarrow> \<exists>xs ys. object_list os c = xs @ x # ys \<and> key (obj_name (objs os x)) = key name \<and>
         (\<forall>y \<in> set xs. key (obj_name (objs os y)) \<noteq> key name))"
proof -
  obtain s' where "rt_exit_critical (rt_enter_critical s) = Inr s'" "kernel_inv m s'" "cur s' \<noteq> None"
    using rt_exit_critical_ok [of m "rt_enter_critical s"] enter_kernel assms(4,5) by auto
  moreover have "case found name c os of
       None \<Rightarrow> \<forall>x \<in> set (object_list os c). key (obj_name (objs os x)) \<noteq> key name
     | Some x \<Rightarrow> \<exists>xs ys. object_list os c = xs @ x # ys \<and> key (obj_name (objs os x)) = key name \<and>
         (\<forall>y \<in> set xs. key (obj_name (objs os y)) \<noteq> key name)"
    using found_cases [of name c os] by (auto split: option.splits)
  ultimately show ?thesis
    using assms container_types(5) [OF assms(3)]
    by (simp add: rt_object_find_def information name_search_found not_in_interrupt_def rt_interrupt_get_nest_def Let_def)
qed

section \<open>Objects in the heap\<close>

text \<open>
  Every registered object lies outside the heap or inside an allocated block; one that is not static has a
  block of its own that is large enough.
\<close>

definition in_block :: "heap \<Rightarrow> u32 \<Rightarrow> u32 \<times> u32 \<Rightarrow> bool" where
  "in_block h x b \<longleftrightarrow> unat (heap_ptr h) + unat (fst b) + 12 \<le> unat x \<and> unat x < unat (heap_ptr h) + unat (snd b)"

definition heap_objects :: "(u8 \<Rightarrow> u32) \<Rightarrow> objects \<Rightarrow> heap \<Rightarrow> layout \<Rightarrow> bool" where
  "heap_objects object_size os h L \<longleftrightarrow> (\<forall>c. \<forall>x \<in> set (object_list os c).
     (in_heap h x \<longrightarrow> (\<exists>b \<in> allocated L. in_block h x b)) \<and>
     (\<not> rt_object_is_systemobject x os \<longrightarrow>
       (\<exists>p n. (p, n) \<in> allocated L \<and> x = data_addr h p \<and> unat p + 12 + unat (object_size c) \<le> unat n)))"

text \<open>
  C0: The allocation of an object returns null and changes nothing, or a new object of the type with a block of
  its own, whose name can be searched.
\<close>

theorem object_allocate_cases:
  assumes inv: "object_inv os" "heap_inv h L" "heap_objects object_size os h L" and un: "unlocked h s" and ctx: "not_in_interrupt s"
    and c: "c \<in> set rt_object_container" "object_size c \<noteq> 0" "unat (object_size c) + 3 < 2 ^ 32" and name: "readable name"
  shows "\<exists>r os' h'. rt_object_allocate object_size c name os h s = Inr (r, os', h', s) \<and>
    (case r of
       Null \<Rightarrow> os' = os \<and> h' = h
     | Ptr x \<Rightarrow> \<not> registered x os \<and> object_inv os' \<and> object_list os' c = x # object_list os c \<and> key (obj_name (objs os' x)) = key name \<and>
         \<not> rt_object_is_systemobject x os' \<and> (\<exists>L'. heap_inv h' L' \<and> heap_objects object_size os' h' L' \<and> unlocked h' s)
     | Waits \<Rightarrow> False)"
proof -
  note ct = container_types [OF c(1)]
  show ?thesis
  proof (rule rt_malloc_cases [OF inv(2) un ctx c(2,3)])
    assume "rt_malloc (object_size c) h s = Inr (Null, h, s)"
    then show ?thesis using ctx c(1) by (auto simp: rt_object_allocate_def information)
  next
    fix p n h1 L1
    assume m: "rt_malloc (object_size c) h s = Inr (Ptr (data_addr h p), h1, s)" "heap_inv h1 L1"
      "allocated L1 = insert (p, n) (allocated L)" "unat p + 12 + unat (object_size c) \<le> unat n"
      "\<forall>(x, y) \<in> allocated L. unat y \<le> unat p \<or> unat n \<le> unat x" "same_heap h h1" "unlocked h1 s"
    let ?x = "data_addr h p"
    have b: "(p, n) \<in> allocated L1" using m(3) by simp
    have ptr: "heap_ptr h1 = heap_ptr h" "heap_end h1 = heap_end h" using m(6) by (simp_all add: same_heap_def)
    have x1: "data_addr h1 p = ?x" using ptr by simp
    have ux: "unat ?x = unat (heap_ptr h) + unat p + 12" "in_heap h ?x"
      using data_addr_facts(1,4) [OF heap_invD(1) [OF m(2)] b] ptr x1 by (simp_all add: in_heap_def)
    obtain h2 where w: "heap_write ?x (replicate (unat (object_size c)) 0) h1 = Inr h2" "heap_inv h2 L1" "same_heap h1 h2"
      using heap_write_ok [OF m(2) b, of 0 "replicate (unat (object_size c)) 0"] m(4) x1 by auto
    have ptr2: "heap_ptr h2 = heap_ptr h" "heap_end h2 = heap_end h" and un2: "unlocked h2 s"
      using w(3) ptr m(7) by (simp_all add: same_heap_def unlocked_def)
    have pos: "0 < unat (object_size c)" using c(2) unat_eq_0 [of "object_size c"] by simp
    have new: "\<not> registered ?x os"
    proof
      assume "registered ?x os"
      then obtain y z where yz: "(y, z) \<in> allocated L" "in_block h ?x (y, z)"
        using inv(3) ux(2) unfolding registered_def heap_objects_def by fastforce
      then have "unat y \<le> unat p" "unat p + 12 < unat z" using ux(1) by (simp_all add: in_block_def)
      then show False using m(4,5) yz(1) by fastforce
    qed
    let ?r = "\<lparr>obj_name = stored_name name, obj_type = c, obj_flag = 0\<rparr>"
    let ?os = "obj_link c ?x (obj_upd ?x (\<lambda>_. ?r) os)"
    have upd: "obj_upd ?x (\<lambda>r. r\<lparr>obj_name := stored_name name\<rparr>) (obj_upd ?x (\<lambda>_. \<lparr>obj_name = replicate RT_NAME_MAX 0, obj_type = c, obj_flag = 0\<rparr>) os) =
        obj_upd ?x (\<lambda>_. ?r) os"
      by (simp add: obj_upd_def)
    have run: "rt_object_allocate object_size c name os h s = Inr (Ptr ?x, ?os, h2, s)"
      using m(1) w(1) ctx c(1) name by (simp add: rt_object_allocate_def information copy_name_run upd Let_def)
    have oi: "object_inv ?os" using enter_inv [OF inv(1) new c(1), of ?r] ct by simp
    have ho: "heap_objects object_size ?os h2 L1"
      unfolding heap_objects_def
    proof (intro allI ballI)
      fix c' y assume y: "y \<in> set (object_list ?os c')"
      show "(in_heap h2 y \<longrightarrow> (\<exists>b \<in> allocated L1. in_block h2 y b)) \<and> (\<not> rt_object_is_systemobject y ?os \<longrightarrow>
          (\<exists>p n. (p, n) \<in> allocated L1 \<and> y = data_addr h2 p \<and> unat p + 12 + unat (object_size c') \<le> unat n))"
      proof (cases "y = ?x")
        case True
        then have "c' = c" using y new by (auto simp: registered_def split: if_splits)
        moreover have "in_block h2 ?x (p, n)" using ux m(4) pos ptr2 by (simp add: in_block_def)
        moreover have "?x = data_addr h2 p" using ptr2 by simp
        ultimately show ?thesis using True b m(4) by blast
      next
        case False
        then have yc: "y \<in> set (object_list os c')" using y by (auto split: if_splits)
        have same: "in_heap h2 y = in_heap h y" "in_block h2 y = in_block h y"
          using ptr2 by (simp_all add: in_heap_def in_block_def fun_eq_iff)
        have sys: "rt_object_is_systemobject y ?os = rt_object_is_systemobject y os" using False by (simp add: rt_object_is_systemobject_def)
        have "(in_heap h y \<longrightarrow> (\<exists>b \<in> allocated L. in_block h y b)) \<and> (\<not> rt_object_is_systemobject y os \<longrightarrow>
            (\<exists>p n. (p, n) \<in> allocated L \<and> y = data_addr h p \<and> unat p + 12 + unat (object_size c') \<le> unat n))"
          using inv(3) yc unfolding heap_objects_def by blast
        then show ?thesis unfolding same sys ptr2(1) m(3) by blast
      qed
    qed
    have "\<not> rt_object_is_systemobject ?x ?os" using ct(3) by (simp add: rt_object_is_systemobject_def)
    moreover have "object_list ?os c = ?x # object_list os c" "key (obj_name (objs ?os ?x)) = key name" by simp_all
    moreover have "\<exists>L'. heap_inv h2 L' \<and> heap_objects object_size ?os h2 L' \<and> unlocked h2 s" using w(2) ho un2 by blast
    ultimately show ?thesis using run new oi by (intro exI conjI) (rule run, simp only: heap_result.case, blast)
  qed
qed

text \<open>
  C0: The deletion of an object that is not static takes it out of the container and gives back its block; other
  objects stay as they are, as long as none was placed inside of it.
\<close>

theorem object_delete_frees:
  assumes inv: "object_inv os" "heap_inv h L" "heap_objects object_size os h L" and un: "unlocked h s" and ctx: "not_in_interrupt s"
    and x: "x \<in> set (object_list os c)" "\<not> rt_object_is_systemobject x os"
    and alone: "\<forall>c. \<forall>y \<in> set (object_list os c). \<forall>b \<in> allocated L. in_block h x b \<longrightarrow> in_block h y b \<longrightarrow> y = x"
  shows "\<exists>h' L' b. rt_object_delete x os h s = Inr (Null, rt_object_detach x os, h', s) \<and> object_inv (rt_object_detach x os) \<and>
    \<not> registered x (rt_object_detach x os) \<and> heap_inv h' L' \<and> b \<in> allocated L \<and> allocated L' = allocated L - {b} \<and>
    heap_objects object_size (rt_object_detach x os) h' L' \<and> unlocked h' s"
proof -
  obtain p n where p: "(p, n) \<in> allocated L" "x = data_addr h p" using inv(3) x unfolding heap_objects_def by blast
  obtain h' L' where f: "rt_free x h s = Inr (Null, h', s)" "heap_inv h' L'" "allocated L' = allocated L - {(p, n)}" "same_heap h h'" "unlocked h' s"
    using rt_free_block [OF inv(2) un ctx p(1)] p(2) by blast
  let ?os = "rt_object_detach x os"
  have run: "rt_object_delete x os h s = Inr (Null, ?os, h', s)" using f(1) x(2) by (simp add: rt_object_delete_def rt_object_is_systemobject_def)
  have xb: "in_block h x (p, n)"
    using data_addr_facts(1,7) [OF heap_invD(1) [OF inv(2)] p(1)] p(2) by (simp add: in_block_def)
  have ptr: "heap_ptr h' = heap_ptr h" "heap_end h' = heap_end h" using f(4) by (simp_all add: same_heap_def)
  have "heap_objects object_size ?os h' L'"
    unfolding heap_objects_def
  proof (intro allI ballI)
    fix c' y assume "y \<in> set (object_list ?os c')"
    then have y: "y \<noteq> x" "y \<in> set (object_list os c')" by (auto simp: rt_object_detach_ok(5) [OF inv(1)])
    have ny: "\<not> in_block h y (p, n)" using alone y p(1) xb by blast
    have same: "in_heap h' y = in_heap h y" "in_block h' y = in_block h y" "data_addr h' = data_addr h"
      using ptr by (simp_all add: in_heap_def in_block_def fun_eq_iff)
    have sys: "rt_object_is_systemobject y ?os = rt_object_is_systemobject y os"
      using rt_object_detach_ok(6) [OF inv(1) y(1)] by (simp add: rt_object_is_systemobject_def)
    have "(q, m) \<noteq> (p, n)" if "y = data_addr h q" "(q, m) \<in> allocated L" for q m using that y(1) p(2) by auto
    then show "(in_heap h' y \<longrightarrow> (\<exists>b \<in> allocated L'. in_block h' y b)) \<and> (\<not> rt_object_is_systemobject y ?os \<longrightarrow>
        (\<exists>p n. (p, n) \<in> allocated L' \<and> y = data_addr h' p \<and> unat p + 12 + unat (object_size c') \<le> unat n))"
      using inv(3) y(2) ny unfolding heap_objects_def same(1,2) sys f(3) ptr(1) by blast
  qed
  then show ?thesis using run f p(1) rt_object_detach_ok(1,2) [OF inv(1)] by blast
qed

end
