(* ===== verification/Device.thy ===== *)
theory Device
  imports Object Memory_Pool
begin

text \<open>
  Devices, \<^verbatim>\<open>rt-thread/src/device.c\<close>: registration by name, opening and closing with a count, and the calls that
  are handed on to a driver.

  \<^item> A device is an object of the container; its other fields are a record. Its driver is a record of function
    pointers, which may be null (\<open>None\<close>); a driver acts on the device and on a state of its own, \<open>'d\<close>, with the
    hardware. A buffer or argument it is given is a value of \<open>'b\<close> and comes back changed.
  \<^item> The locale \<open>driver\<close> is what a driver promises; \<open>dev_inv\<close> is what \<^verbatim>\<open>device.c\<close> keeps on top of it.
  \<^item> The wait queue of a device, which only the file system uses, is left out.
\<close>

section \<open>Operations\<close>

definition RT_DEVICE_FLAG_RDWR :: u16 where "RT_DEVICE_FLAG_RDWR = 0x003"
definition RT_DEVICE_FLAG_STANDALONE :: u16 where "RT_DEVICE_FLAG_STANDALONE = 0x008"
definition RT_DEVICE_FLAG_ACTIVATED :: u16 where "RT_DEVICE_FLAG_ACTIVATED = 0x010"
definition RT_DEVICE_OFLAG_CLOSE :: u16 where "RT_DEVICE_OFLAG_CLOSE = 0x000"
definition RT_DEVICE_OFLAG_OPEN :: u16 where "RT_DEVICE_OFLAG_OPEN = 0x008"
definition RT_DEVICE_OFLAG_MASK :: u16 where "RT_DEVICE_OFLAG_MASK = 0xf0f"

record device =
  flag :: u16
  open_flag :: u16
  ref_count :: u8
  rx_indicate :: "nat option"
  tx_complete :: "nat option"

record ('b, 'd) device_ops =
  device_init :: "(device \<times> 'd \<Rightarrow> fault + int \<times> device \<times> 'd) option"
  device_open :: "(u16 \<Rightarrow> device \<times> 'd \<Rightarrow> fault + int \<times> device \<times> 'd) option"
  device_close :: "(device \<times> 'd \<Rightarrow> fault + int \<times> device \<times> 'd) option"
  device_read :: "(int \<Rightarrow> 'b \<Rightarrow> u32 \<Rightarrow> device \<times> 'd \<Rightarrow> fault + u32 \<times> 'b \<times> device \<times> 'd) option"
  device_write :: "(int \<Rightarrow> 'b \<Rightarrow> u32 \<Rightarrow> device \<times> 'd \<Rightarrow> fault + u32 \<times> device \<times> 'd) option"
  device_control :: "(int \<Rightarrow> 'b \<Rightarrow> device \<times> 'd \<Rightarrow> fault + int \<times> 'b \<times> device \<times> 'd) option"

definition activated :: "device \<Rightarrow> bool" where
  "activated dv \<longleftrightarrow> flag dv AND RT_DEVICE_FLAG_ACTIVATED \<noteq> 0"

definition is_open :: "device \<Rightarrow> bool" where
  "is_open dv \<longleftrightarrow> open_flag dv AND RT_DEVICE_OFLAG_OPEN \<noteq> 0"

definition standalone :: "device \<Rightarrow> bool" where
  "standalone dv \<longleftrightarrow> flag dv AND RT_DEVICE_FLAG_STANDALONE \<noteq> 0"

definition activate :: "device \<Rightarrow> device" where
  "activate dv = dv\<lparr>flag := flag dv OR RT_DEVICE_FLAG_ACTIVATED\<rparr>"

text \<open>The address 0 is the null pointer.\<close>

definition rt_device_find :: "u8 list \<Rightarrow> objects \<Rightarrow> kernel \<Rightarrow> fault + u32 option \<times> kernel" where
  "rt_device_find = class_find RT_Object_Class_Device"

definition rt_device_register ::
  "u32 \<Rightarrow> u8 list \<Rightarrow> u16 \<Rightarrow> objects \<Rightarrow> device \<Rightarrow> kernel \<Rightarrow> fault + int \<times> objects \<times> device \<times> kernel" where
  "rt_device_register x name flags os dv s =
     (if x = 0 then Inr (- RT_ERROR, os, dv, s)
      else
        rbind (rt_device_find name os s) (\<lambda>(r, s).
        if r \<noteq> None then Inr (- RT_ERROR, os, dv, s)
        else rbind (rt_object_init x RT_Object_Class_Device name os) (\<lambda>os.
             Inr (RT_EOK, os, dv\<lparr>flag := flags, ref_count := 0, open_flag := 0\<rparr>, s))))"

definition rt_device_unregister :: "u32 \<Rightarrow> objects \<Rightarrow> fault + int \<times> objects" where
  "rt_device_unregister x os =
     (if rt_object_get_type x os \<noteq> RT_Object_Class_Device then Inl Assert_Fail
      else if \<not> rt_object_is_systemobject x os then Inl Assert_Fail
      else Inr (RT_EOK, rt_object_detach x os))"

text \<open>
  \<open>sizeof\<close> is the size of \<open>struct rt_device\<close>. The device that was made has no type yet, and no flags.
\<close>

definition rt_device_create ::
  "u32 \<Rightarrow> u32 \<Rightarrow> objects \<Rightarrow> heap \<Rightarrow> kernel \<Rightarrow> fault + heap_result \<times> objects \<times> heap \<times> kernel" where
  "rt_device_create sizeof attach_size os h s =
     rbind (rt_malloc (align4 sizeof + align4 attach_size) h s) (\<lambda>(r, h, s).
     case r of
       Ptr x \<Rightarrow>
         rbind (heap_write x (replicate (unat sizeof) 0) h) (\<lambda>h.
         Inr (Ptr x, obj_upd x (\<lambda>_. \<lparr>obj_name = replicate RT_NAME_MAX 0, obj_type = 0, obj_flag = 0\<rparr>) os, h, s))
     | _ \<Rightarrow> Inr (r, os, h, s))"

definition rt_device_destroy :: "u32 \<Rightarrow> objects \<Rightarrow> heap \<Rightarrow> kernel \<Rightarrow> fault + heap_result \<times> objects \<times> heap \<times> kernel" where
  "rt_device_destroy x os h s =
     (if rt_object_get_type x os \<noteq> RT_Object_Class_Device then Inl Assert_Fail
      else if rt_object_is_systemobject x os then Inl Assert_Fail
      else rbind (rt_free x h s) (\<lambda>(r, h, s). Inr (r, rt_object_detach x os, h, s)))"

definition rt_device_init :: "('b, 'd) device_ops \<Rightarrow> device \<times> 'd \<Rightarrow> fault + int \<times> device \<times> 'd" where
  "rt_device_init D = (\<lambda>(dv, d).
     case device_init D of
       None \<Rightarrow> Inr (RT_EOK, dv, d)
     | Some f \<Rightarrow>
         if activated dv then Inr (RT_EOK, dv, d)
         else rbind (f (dv, d)) (\<lambda>(r, dv, d). if r \<noteq> RT_EOK then Inr (r, dv, d) else Inr (r, activate dv, d)))"

text \<open>The part of \<open>rt_device_open\<close> that initialises a device on its first use.\<close>

definition open_init :: "('b, 'd) device_ops \<Rightarrow> device \<times> 'd \<Rightarrow> fault + int \<times> device \<times> 'd" where
  "open_init D = (\<lambda>(dv, d).
     if activated dv then Inr (RT_EOK, dv, d)
     else rbind (case device_init D of None \<Rightarrow> Inr (RT_EOK, dv, d) | Some f \<Rightarrow> f (dv, d)) (\<lambda>(r, dv, d).
          if r \<noteq> RT_EOK then Inr (r, dv, d) else Inr (r, activate dv, d)))"

definition rt_device_open ::
  "('b, 'd) device_ops \<Rightarrow> u32 \<Rightarrow> objects \<Rightarrow> u16 \<Rightarrow> device \<times> 'd \<Rightarrow> fault + int \<times> device \<times> 'd" where
  "rt_device_open D x os oflag st =
     (if rt_object_get_type x os \<noteq> RT_Object_Class_Device then Inl Assert_Fail
      else
        rbind (open_init D st) (\<lambda>(r, dv, d).
        if r \<noteq> RT_EOK then Inr (r, dv, d)
        else if standalone dv \<and> is_open dv then Inr (- RT_EBUSY, dv, d)
        else
          rbind (case device_open D of
                   Some f \<Rightarrow> f oflag (dv, d)
                 | None \<Rightarrow> Inr (RT_EOK, dv\<lparr>open_flag := oflag AND RT_DEVICE_OFLAG_MASK\<rparr>, d)) (\<lambda>(r, dv, d).
          if r = RT_EOK \<or> r = - RT_ENOSYS then
            let dv = dv\<lparr>open_flag := open_flag dv OR RT_DEVICE_OFLAG_OPEN, ref_count := ref_count dv + 1\<rparr>
            in if ref_count dv = 0 then Inl Assert_Fail else Inr (r, dv, d)
          else Inr (r, dv, d))))"

definition rt_device_close :: "('b, 'd) device_ops \<Rightarrow> u32 \<Rightarrow> objects \<Rightarrow> device \<times> 'd \<Rightarrow> fault + int \<times> device \<times> 'd" where
  "rt_device_close D x os = (\<lambda>(dv, d).
     if rt_object_get_type x os \<noteq> RT_Object_Class_Device then Inl Assert_Fail
     else if ref_count dv = 0 then Inr (- RT_ERROR, dv, d)
     else
       let dv = dv\<lparr>ref_count := ref_count dv - 1\<rparr>
       in if ref_count dv \<noteq> 0 then Inr (RT_EOK, dv, d)
          else
            rbind (case device_close D of None \<Rightarrow> Inr (RT_EOK, dv, d) | Some f \<Rightarrow> f (dv, d)) (\<lambda>(r, dv, d).
            if r = RT_EOK \<or> r = - RT_ENOSYS then Inr (r, dv\<lparr>open_flag := RT_DEVICE_OFLAG_CLOSE\<rparr>, d) else Inr (r, dv, d)))"

definition rt_device_read ::
  "('b, 'd) device_ops \<Rightarrow> u32 \<Rightarrow> objects \<Rightarrow> int \<Rightarrow> 'b \<Rightarrow> u32 \<Rightarrow> device \<times> 'd \<Rightarrow> kernel \<Rightarrow>
     fault + u32 \<times> 'b \<times> (device \<times> 'd) \<times> kernel" where
  "rt_device_read D x os pos buffer sz st s =
     (if rt_object_get_type x os \<noteq> RT_Object_Class_Device then Inl Assert_Fail
      else if ref_count (fst st) = 0 then Inr (0, buffer, st, rt_set_errno (- RT_ERROR) s)
      else case device_read D of
             Some f \<Rightarrow> rbind (f pos buffer sz st) (\<lambda>(n, buffer, st). Inr (n, buffer, st, s))
           | None \<Rightarrow> Inr (0, buffer, st, rt_set_errno (- RT_ENOSYS) s))"

definition rt_device_write ::
  "('b, 'd) device_ops \<Rightarrow> u32 \<Rightarrow> objects \<Rightarrow> int \<Rightarrow> 'b \<Rightarrow> u32 \<Rightarrow> device \<times> 'd \<Rightarrow> kernel \<Rightarrow> fault + u32 \<times> (device \<times> 'd) \<times> kernel" where
  "rt_device_write D x os pos buffer sz st s =
     (if rt_object_get_type x os \<noteq> RT_Object_Class_Device then Inl Assert_Fail
      else if ref_count (fst st) = 0 then Inr (0, st, rt_set_errno (- RT_ERROR) s)
      else case device_write D of
             Some f \<Rightarrow> rbind (f pos buffer sz st) (\<lambda>(n, st). Inr (n, st, s))
           | None \<Rightarrow> Inr (0, st, rt_set_errno (- RT_ENOSYS) s))"

definition rt_device_control ::
  "('b, 'd) device_ops \<Rightarrow> u32 \<Rightarrow> objects \<Rightarrow> int \<Rightarrow> 'b \<Rightarrow> device \<times> 'd \<Rightarrow> fault + int \<times> 'b \<times> device \<times> 'd" where
  "rt_device_control D x os cmd arg st =
     (if rt_object_get_type x os \<noteq> RT_Object_Class_Device then Inl Assert_Fail
      else case device_control D of
             Some f \<Rightarrow> f cmd arg st
           | None \<Rightarrow> Inr (- RT_ENOSYS, arg, st))"

definition rt_device_set_rx_indicate :: "u32 \<Rightarrow> objects \<Rightarrow> nat option \<Rightarrow> device \<Rightarrow> fault + int \<times> device" where
  "rt_device_set_rx_indicate x os rx_ind dv =
     (if rt_object_get_type x os \<noteq> RT_Object_Class_Device then Inl Assert_Fail else Inr (RT_EOK, dv\<lparr>rx_indicate := rx_ind\<rparr>))"

definition rt_device_set_tx_complete :: "u32 \<Rightarrow> objects \<Rightarrow> nat option \<Rightarrow> device \<Rightarrow> fault + int \<times> device" where
  "rt_device_set_tx_complete x os tx_done dv =
     (if rt_object_get_type x os \<noteq> RT_Object_Class_Device then Inl Assert_Fail else Inr (RT_EOK, dv\<lparr>tx_complete := tx_done\<rparr>))"

section \<open>Registration\<close>

lemmas device_flag_defs = RT_DEVICE_FLAG_RDWR_def RT_DEVICE_FLAG_STANDALONE_def RT_DEVICE_FLAG_ACTIVATED_def
  RT_DEVICE_OFLAG_CLOSE_def RT_DEVICE_OFLAG_OPEN_def RT_DEVICE_OFLAG_MASK_def

definition device_names_unique :: "objects \<Rightarrow> bool" where
  "device_names_unique os \<longleftrightarrow> (\<forall>x \<in> set (object_list os RT_Object_Class_Device). \<forall>y \<in> set (object_list os RT_Object_Class_Device).
     key (obj_name (objs os x)) = key (obj_name (objs os y)) \<longrightarrow> x = y)"

lemma device_class: "RT_Object_Class_Device \<in> set rt_object_container"
  by (simp add: rt_object_container_def RT_Object_Class_Device_def)

lemma device_not_null: "RT_Object_Class_Null \<noteq> RT_Object_Class_Device"
  by (simp add: object_class_defs)

text \<open>
  C0: A device is registered if no device has its name, in the first eight characters; then it is found by the
  name, searches for others are as before, and names stay unique. Otherwise nothing is changed.
\<close>

theorem device_register_cases:
  assumes inv: "object_inv os" "device_names_unique os" "kernel_inv m s" and x: "x \<noteq> 0" "\<not> registered x os"
    and name: "length (obj_name (objs os x)) = RT_NAME_MAX" "readable name"
  shows "\<exists>r os' dv' s'. rt_device_register x name flags os dv s = Inr (r, os', dv', s') \<and> kernel_inv m s' \<and>
    object_inv os' \<and> device_names_unique os' \<and>
    (if found name RT_Object_Class_Device os = None
     then r = RT_EOK \<and> ref_count dv' = 0 \<and> \<not> is_open dv' \<and>
       (\<forall>q. found q RT_Object_Class_Device os' = (if key q = key name then Some x else found q RT_Object_Class_Device os))
     else r = - RT_ERROR \<and> os' = os \<and> dv' = dv)"
proof -
  let ?c = RT_Object_Class_Device
  obtain s' where s': "rt_device_find name os s = Inr (found name ?c os, s')" "kernel_inv m s'"
    using class_find_run [OF inv(1) name(2) device_class inv(3)] by (auto simp: rt_device_find_def)
  show ?thesis
  proof (cases "found name ?c os")
    case None
    let ?r = "(objs os x)\<lparr>obj_name := stored_name name, obj_type := ?c OR RT_Object_Class_Static\<rparr>"
    let ?os = "obj_link ?c x (obj_upd x (\<lambda>_. ?r) os)" and ?dv = "dv\<lparr>flag := flags, ref_count := 0, open_flag := 0\<rparr>"
    have nx: "x \<notin> set (object_list os ?c)" using x(2) by (auto simp: registered_def)
    have i: "object_inv ?os" using enter_inv [OF inv(1) x(2) device_class] container_types(2) [OF device_class] by simp
    have "List.find (\<lambda>y. key (obj_name (objs ?os y)) = key q) (object_list os ?c) =
        List.find (\<lambda>y. key (obj_name (objs os y)) = key q) (object_list os ?c)" for q
      using nx by (intro find_cong) auto
    then have f: "found q ?c ?os = (if key q = key name then Some x else found q ?c os)" for q by (auto simp: found_def)
    have "\<forall>y \<in> set (object_list os ?c). key (obj_name (objs os y)) \<noteq> key name" using None found_cases(1) by blast
    then have "device_names_unique ?os" using inv(2) nx unfolding device_names_unique_def by auto
    moreover have "rt_device_register x name flags os dv s = Inr (RT_EOK, ?os, ?dv, s')"
      using s'(1) None x(1) by (simp add: rt_device_register_def rt_object_init_run [OF name device_class])
    ultimately show ?thesis using s'(2) i f None by (simp add: is_open_def)
  next
    case (Some y)
    then have "rt_device_register x name flags os dv s = Inr (- RT_ERROR, os, dv, s')"
      using s'(1) x(1) by (simp add: rt_device_register_def)
    then show ?thesis using s'(2) inv Some by auto
  qed
qed

text \<open>
  C0: \<open>rt_device_destroy\<close> fails its assertion on every device that was made by \<open>rt_device_create\<close>: as it is, after it
  was registered, and after it was unregistered again.
\<close>

theorem device_destroy_never_succeeds:
  assumes create: "rt_device_create sizeof attach_size os h s = Inr (Ptr x, os1, h1, s1)"
    and register: "rt_device_register x name flags os1 dv s1 = Inr (RT_EOK, os2, dv2, s2)"
    and unregister: "rt_device_unregister x os2 = Inr (RT_EOK, os3)"
  shows "rt_device_destroy x os1 h' s' = Inl Assert_Fail \<and> rt_device_destroy x os2 h' s' = Inl Assert_Fail \<and>
    rt_device_destroy x os3 h' s' = Inl Assert_Fail"
proof -
  have "obj_type (objs os1 x) = 0"
    using create unfolding rt_device_create_def
    by (cases "rt_malloc (align4 sizeof + align4 attach_size) h s") (auto simp: rbind_eq_Inr split: heap_result.split_asm prod.split_asm)
  then have 1: "rt_object_get_type x os1 \<noteq> RT_Object_Class_Device" by (simp add: rt_object_get_type_def object_class_defs)
  have "obj_type (objs os2 x) = RT_Object_Class_Device OR RT_Object_Class_Static"
    using register
    by (auto simp: rt_device_register_def rt_object_init_def copy_name_def information device_class rbind_eq_Inr Let_def
        RT_ERROR_def RT_EOK_def split: if_splits)
  then have 2: "rt_object_is_systemobject x os2"
    using container_types(4) [OF device_class] by (simp add: rt_object_is_systemobject_def)
  have "os3 = rt_object_detach x os2" using unregister by (auto simp: rt_device_unregister_def split: if_splits)
  then have 3: "rt_object_get_type x os3 \<noteq> RT_Object_Class_Device"
    by (simp add: rt_object_detach_def rt_object_get_type_def object_class_defs)
  show ?thesis using 1 2 3 by (simp add: rt_device_destroy_def)
qed

section \<open>Opening and closing\<close>

text \<open>What a driver leaves alone.\<close>

definition kept :: "device \<Rightarrow> device \<Rightarrow> bool" where
  "kept dv dv' \<longleftrightarrow> flag dv' = flag dv \<and> ref_count dv' = ref_count dv"

definition dev_inv :: "device \<Rightarrow> bool" where
  "dev_inv dv \<longleftrightarrow> (ref_count dv \<noteq> 0 \<longrightarrow> is_open dv \<and> activated dv) \<and> (standalone dv \<longrightarrow> ref_count dv \<le> 1)"

datatype 'b dev_request = Open u16 | Close | Read int 'b u32 | Write int 'b u32 | Control int 'b

text \<open>The requests of all users of one device, in the order in which they come.\<close>

fun dev_call :: "('b, 'd) device_ops \<Rightarrow> u32 \<Rightarrow> objects \<Rightarrow> 'b dev_request \<Rightarrow> (device \<times> 'd) \<times> kernel \<Rightarrow> fault + (device \<times> 'd) \<times> kernel" where
  "dev_call D x os (Open oflag) (st, s) = rbind (rt_device_open D x os oflag st) (\<lambda>(_, st). Inr (st, s))"
| "dev_call D x os Close (st, s) = rbind (rt_device_close D x os st) (\<lambda>(_, st). Inr (st, s))"
| "dev_call D x os (Read pos buffer sz) (st, s) = rbind (rt_device_read D x os pos buffer sz st s) (\<lambda>(_, _, st, s). Inr (st, s))"
| "dev_call D x os (Write pos buffer sz) (st, s) = rbind (rt_device_write D x os pos buffer sz st s) (\<lambda>(_, st, s). Inr (st, s))"
| "dev_call D x os (Control cmd arg) (st, s) = rbind (rt_device_control D x os cmd arg st) (\<lambda>(_, _, st). Inr (st, s))"

fun dev_run :: "('b, 'd) device_ops \<Rightarrow> u32 \<Rightarrow> objects \<Rightarrow> 'b dev_request list \<Rightarrow> (device \<times> 'd) \<times> kernel \<Rightarrow> fault + (device \<times> 'd) \<times> kernel" where
  "dev_run D x os [] st = Inr st"
| "dev_run D x os (r # rs) st = rbind (dev_call D x os r st) (dev_run D x os rs)"

lemma keptD: "kept dv dv' \<Longrightarrow> ref_count dv' = ref_count dv" "kept dv dv' \<Longrightarrow> activated dv' = activated dv"
  "kept dv dv' \<Longrightarrow> standalone dv' = standalone dv"
  by (simp_all add: kept_def activated_def standalone_def)

lemma or_and_absorb: "(w OR m) AND m = (m :: u16)"
  by (rule bit_word_eqI) (auto simp: bit_or_iff bit_and_iff)

lemma is_open_or: "(w OR RT_DEVICE_OFLAG_OPEN) AND RT_DEVICE_OFLAG_OPEN \<noteq> 0"
  by (simp add: or_and_absorb) (simp add: RT_DEVICE_OFLAG_OPEN_def)

lemma activate_simps: "activated (activate dv)" "standalone (activate dv) = standalone dv" "ref_count (activate dv) = ref_count dv"
  "open_flag (activate dv) = open_flag dv" "is_open (activate dv) = is_open dv"
proof -
  have "RT_DEVICE_FLAG_ACTIVATED AND RT_DEVICE_FLAG_STANDALONE = 0" "RT_DEVICE_FLAG_ACTIVATED \<noteq> 0" by (simp_all add: device_flag_defs)
  then show "activated (activate dv)" "standalone (activate dv) = standalone dv" "ref_count (activate dv) = ref_count dv"
    "open_flag (activate dv) = open_flag dv" "is_open (activate dv) = is_open dv"
    by (simp_all add: activate_def activated_def standalone_def is_open_def or_and_absorb bit.conj_disj_distrib2)
qed

lemma ref_wrap: "(n :: u8) + 1 = 0 \<longleftrightarrow> n = 255"
  using unat_u8_less [of n] by (auto simp: word_unat_eq_iff unat_word_ariths dest: dvd_imp_le)

lemma ref_add: "n \<noteq> 255 \<Longrightarrow> unat (n + 1) = unat (n :: u8) + 1"
  using unat_u8_less [of n] by (auto simp: word_unat_eq_iff unat_word_ariths)

lemma ref_sub: "unat ((n :: u8) - (if n = 0 then 0 else 1)) \<le> unat n"
  by (auto simp: unat_minus_one)

lemma ref_le_1: "(n :: u8) \<le> 1 \<longleftrightarrow> n = 0 \<or> n = 1"
  by (auto simp: word_le_nat_alt word_unat_eq_iff)

locale driver =
  fixes D :: "('b, 'd) device_ops" and ok :: "'d \<Rightarrow> bool"
  assumes init_law: "device_init D = Some f \<Longrightarrow> ok d \<Longrightarrow>
      \<exists>r dv' d'. f (dv, d) = Inr (r, dv', d') \<and> ok d' \<and> kept dv dv' \<and> open_flag dv' = open_flag dv"
    and open_law: "device_open D = Some g \<Longrightarrow> ok d \<Longrightarrow> \<exists>r dv' d'. g oflag (dv, d) = Inr (r, dv', d') \<and> ok d' \<and> kept dv dv' \<and>
      (is_open dv \<longrightarrow> is_open dv')"
    and close_law: "device_close D = Some f \<Longrightarrow> ok d \<Longrightarrow>
      \<exists>r dv' d'. f (dv, d) = Inr (r, dv', d') \<and> ok d' \<and> kept dv dv' \<and> open_flag dv' = open_flag dv"
    and read_law: "device_read D = Some i \<Longrightarrow> ok d \<Longrightarrow>
      \<exists>n b' dv' d'. i pos b sz (dv, d) = Inr (n, b', dv', d') \<and> ok d' \<and> kept dv dv' \<and> open_flag dv' = open_flag dv"
    and write_law: "device_write D = Some j \<Longrightarrow> ok d \<Longrightarrow>
      \<exists>n dv' d'. j pos b sz (dv, d) = Inr (n, dv', d') \<and> ok d' \<and> kept dv dv' \<and> open_flag dv' = open_flag dv"
    and control_law: "device_control D = Some k \<Longrightarrow> ok d \<Longrightarrow>
      \<exists>r b' dv' d'. k cmd b (dv, d) = Inr (r, b', dv', d') \<and> ok d' \<and> kept dv dv' \<and> open_flag dv' = open_flag dv"
begin

lemma open_init_ok:
  assumes "ok d" "dev_inv dv"
  shows "\<exists>r dv' d'. open_init D (dv, d) = Inr (r, dv', d') \<and> ok d' \<and> dev_inv dv' \<and> ref_count dv' = ref_count dv \<and>
    standalone dv' = standalone dv \<and> is_open dv' = is_open dv \<and> (r = RT_EOK \<longrightarrow> activated dv')"
proof (cases "activated dv")
  case True
  then show ?thesis using assms by (simp add: open_init_def)
next
  case False
  show ?thesis
  proof (cases "device_init D")
    case None
    then show ?thesis using assms False by (simp add: open_init_def activate_simps dev_inv_def)
  next
    case (Some f)
    obtain r dv' d' where f: "f (dv, d) = Inr (r, dv', d')" "ok d'" "kept dv dv'" "open_flag dv' = open_flag dv"
      using init_law [OF Some assms(1)] by blast
    have "dev_inv dv'" "dev_inv (activate dv')" using assms(2) keptD [OF f(3)] f(4) by (simp_all add: dev_inv_def activate_simps is_open_def)
    then show ?thesis
      using f keptD [OF f(3)] False Some by (cases "r = RT_EOK") (simp_all add: open_init_def activate_simps is_open_def)
  qed
qed

lemma open_ok:
  assumes "ok d" "dev_inv dv" "rt_object_get_type x os = RT_Object_Class_Device" "ref_count dv \<noteq> 255"
  shows "\<exists>r dv' d'. rt_device_open D x os oflag (dv, d) = Inr (r, dv', d') \<and> ok d' \<and> dev_inv dv' \<and>
    (ref_count dv' = ref_count dv \<and> r \<noteq> RT_EOK \<or> ref_count dv' = ref_count dv + 1 \<and> is_open dv')"
proof -
  obtain r dv1 d1 where i: "open_init D (dv, d) = Inr (r, dv1, d1)" "ok d1" "dev_inv dv1" "ref_count dv1 = ref_count dv"
    "standalone dv1 = standalone dv" "is_open dv1 = is_open dv" "r = RT_EOK \<longrightarrow> activated dv1" using open_init_ok [OF assms(1,2)] by blast
  consider (refused) "r \<noteq> RT_EOK" | (busy) "r = RT_EOK" "standalone dv1 \<and> is_open dv1" | (go) "r = RT_EOK" "\<not> (standalone dv1 \<and> is_open dv1)"
    by blast
  then show ?thesis
  proof cases
    case refused
    then show ?thesis using i assms(3) by (simp add: rt_device_open_def)
  next
    case busy
    then show ?thesis using i assms(3) by (simp add: rt_device_open_def rt_err_defs)
  next
    case go
    let ?op = "case device_open D of Some f \<Rightarrow> f oflag (dv1, d1) | None \<Rightarrow> Inr (RT_EOK, dv1\<lparr>open_flag := oflag AND RT_DEVICE_OFLAG_MASK\<rparr>, d1)"
    obtain r2 dv2 d2 where o: "?op = Inr (r2, dv2, d2)" "ok d2" "kept dv1 dv2" "device_open D \<noteq> None \<longrightarrow> is_open dv1 \<longrightarrow> is_open dv2"
      "device_open D = None \<longrightarrow> r2 = RT_EOK"
    proof (cases "device_open D")
      case None
      then show ?thesis using that i(2) by (simp add: kept_def)
    next
      case (Some g)
      then show ?thesis using that open_law [OF Some i(2), of oflag dv1] by fastforce
    qed
    note k = keptD [OF o(3)]
    let ?dv = "dv2\<lparr>open_flag := open_flag dv2 OR RT_DEVICE_OFLAG_OPEN, ref_count := ref_count dv2 + 1\<rparr>"
    have ne: "ref_count ?dv \<noteq> 0" using assms(4) i(4) k(1) ref_wrap [of "ref_count dv"] by simp
    show ?thesis
    proof (cases "r2 = RT_EOK \<or> r2 = - RT_ENOSYS")
      case True
      have run: "rt_device_open D x os oflag (dv, d) = Inr (r2, ?dv, d2)"
        using i(1) go assms(3) o(1) True ne by (auto simp add: rt_device_open_def Let_def)
      have "is_open ?dv" by (simp add: is_open_def) (simp add: RT_DEVICE_OFLAG_OPEN_def)
      moreover have "standalone dv2 \<longrightarrow> ref_count dv2 = 0" using go(2) i(3) k by (auto simp: dev_inv_def)
      ultimately have "dev_inv ?dv" using i(7) go(1) k by (simp add: dev_inv_def standalone_def activated_def)
      then show ?thesis using run o(2) i(4) k(1) \<open>is_open ?dv\<close> by simp
    next
      case False
      have run: "rt_device_open D x os oflag (dv, d) = Inr (r2, dv2, d2)"
        using i(1) go assms(3) o(1) False by (auto simp add: rt_device_open_def Let_def)
      have "dev_inv dv2" using i(3) k o(4,5) False by (auto simp: dev_inv_def)
      then show ?thesis using run o(2) i(4) k(1) False by auto
    qed
  qed
qed

lemma close_ok:
  assumes "ok d" "dev_inv dv" "rt_object_get_type x os = RT_Object_Class_Device"
  shows "\<exists>r dv' d'. rt_device_close D x os (dv, d) = Inr (r, dv', d') \<and> ok d' \<and> dev_inv dv' \<and> ref_count dv' = ref_count dv - (if ref_count dv = 0 then 0 else 1)"
proof -
  let ?dv = "dv\<lparr>ref_count := 0\<rparr>"
  consider (shut) "ref_count dv = 0" | (more) "ref_count dv \<noteq> 0" "ref_count dv \<noteq> 1" | (last) "ref_count dv = 1" by blast
  then show ?thesis
  proof cases
    case shut
    then show ?thesis using assms by (simp add: rt_device_close_def)
  next
    case more
    have "ref_count dv - 1 \<noteq> 0" using more by simp
    moreover have "\<not> standalone dv" using more assms(2) unfolding dev_inv_def by (metis ref_le_1)
    ultimately show ?thesis
      using more assms by (simp add: rt_device_close_def Let_def dev_inv_def is_open_def activated_def standalone_def)
  next
    case last
    let ?cl = "case device_close D of None \<Rightarrow> Inr (RT_EOK, ?dv, d) | Some f \<Rightarrow> f (?dv, d)"
    obtain r dv2 d2 where c: "?cl = Inr (r, dv2, d2)" "ok d2" "kept ?dv dv2"
    proof (cases "device_close D")
      case None
      then show ?thesis using that assms(1) by (simp add: kept_def)
    next
      case (Some f)
      then show ?thesis using that close_law [OF Some assms(1), of ?dv] by fastforce
    qed
    note k = keptD [OF c(3)]
    have "ref_count dv2 = 0" using k last by simp
    then show ?thesis
      using c(1,2) last assms(3)
      by (cases "r = RT_EOK \<or> r = - RT_ENOSYS") (simp_all add: rt_device_close_def Let_def dev_inv_def)
  qed
qed

lemma io_ok:
  assumes "ok d" "dev_inv dv" "rt_object_get_type x os = RT_Object_Class_Device"
  shows "\<exists>n b' dv' d' s'. rt_device_read D x os pos b sz (dv, d) s = Inr (n, b', (dv', d'), s') \<and> ok d' \<and> dev_inv dv' \<and> ref_count dv' = ref_count dv"
    "\<exists>n dv' d' s'. rt_device_write D x os pos b sz (dv, d) s = Inr (n, (dv', d'), s') \<and> ok d' \<and> dev_inv dv' \<and> ref_count dv' = ref_count dv"
    "\<exists>r b' dv' d'. rt_device_control D x os cmd b (dv, d) = Inr (r, b', dv', d') \<and> ok d' \<and> dev_inv dv' \<and> ref_count dv' = ref_count dv"
proof -
  have kept_inv: "dev_inv dv' \<and> ref_count dv' = ref_count dv" if "kept dv dv'" "open_flag dv' = open_flag dv" for dv'
    using assms(2) keptD [OF that(1)] that(2) by (simp add: dev_inv_def is_open_def)
  show "\<exists>n b' dv' d' s'. rt_device_read D x os pos b sz (dv, d) s = Inr (n, b', (dv', d'), s') \<and> ok d' \<and> dev_inv dv' \<and> ref_count dv' = ref_count dv"
  proof (cases "device_read D")
    case (Some i)
    obtain n b' dv' d' where "i pos b sz (dv, d) = Inr (n, b', dv', d')" "ok d'" "kept dv dv'" "open_flag dv' = open_flag dv"
      using read_law [OF Some assms(1)] by blast
    then show ?thesis using assms kept_inv Some by (simp add: rt_device_read_def)
  qed (use assms in \<open>simp add: rt_device_read_def\<close>)
  show "\<exists>n dv' d' s'. rt_device_write D x os pos b sz (dv, d) s = Inr (n, (dv', d'), s') \<and> ok d' \<and> dev_inv dv' \<and> ref_count dv' = ref_count dv"
  proof (cases "device_write D")
    case (Some j)
    obtain n dv' d' where "j pos b sz (dv, d) = Inr (n, dv', d')" "ok d'" "kept dv dv'" "open_flag dv' = open_flag dv"
      using write_law [OF Some assms(1)] by blast
    then show ?thesis using assms kept_inv Some by (simp add: rt_device_write_def)
  qed (use assms in \<open>simp add: rt_device_write_def\<close>)
  show "\<exists>r b' dv' d'. rt_device_control D x os cmd b (dv, d) = Inr (r, b', dv', d') \<and> ok d' \<and> dev_inv dv' \<and> ref_count dv' = ref_count dv"
  proof (cases "device_control D")
    case (Some k)
    obtain r b' dv' d' where "k cmd b (dv, d) = Inr (r, b', dv', d')" "ok d'" "kept dv dv'" "open_flag dv' = open_flag dv"
      using control_law [OF Some assms(1)] by blast
    then show ?thesis using assms kept_inv Some by (simp add: rt_device_control_def)
  qed (use assms in \<open>simp add: rt_device_control_def\<close>)
qed

lemma call_ok:
  assumes "ok d" "dev_inv dv" "rt_object_get_type x os = RT_Object_Class_Device" "unat (ref_count dv) + 1 < 256"
  shows "\<exists>dv' d' s'. dev_call D x os r ((dv, d), s) = Inr ((dv', d'), s') \<and> ok d' \<and> dev_inv dv' \<and> unat (ref_count dv') \<le> unat (ref_count dv) + 1"
proof (cases r)
  case (Open oflag)
  have "ref_count dv \<noteq> 255" using assms(4) by auto
  then show ?thesis using open_ok [OF assms(1-3), of oflag] Open ref_add [of "ref_count dv"] by fastforce
next
  case Close
  then show ?thesis using close_ok [OF assms(1-3)] ref_sub [of "ref_count dv"] by fastforce
next
  case (Read pos b sz)
  then show ?thesis using io_ok(1) [OF assms(1-3), of pos b sz s] by fastforce
next
  case (Write pos b sz)
  then show ?thesis using io_ok(2) [OF assms(1-3), of pos b sz s] by fastforce
next
  case (Control cmd b)
  then show ?thesis using io_ok(3) [OF assms(1-3), of cmd b] by fastforce
qed

lemma run_ok:
  assumes "ok d" "dev_inv dv" "rt_object_get_type x os = RT_Object_Class_Device" "unat (ref_count dv) + length rs < 256"
  shows "\<exists>dv' d' s'. dev_run D x os rs ((dv, d), s) = Inr ((dv', d'), s') \<and> ok d' \<and> dev_inv dv'"
  using assms
proof (induction rs arbitrary: dv d s)
  case (Cons r rs)
  obtain dv1 d1 s1 where 1: "dev_call D x os r ((dv, d), s) = Inr ((dv1, d1), s1)" "ok d1" "dev_inv dv1" "unat (ref_count dv1) \<le> unat (ref_count dv) + 1"
    using call_ok [OF Cons.prems(1-3)] Cons.prems(4) by fastforce
  have "unat (ref_count dv1) + length rs < 256" using 1(4) Cons.prems(4) by simp
  then show ?case using Cons.IH [OF 1(2,3) assms(3)] 1(1) by simp
qed simp

end

section \<open>Properties\<close>

text \<open>
  C0: Whatever requests the users of a device make, with a driver that keeps its contract: no request fails with
  a fault, a device that is in use is open and initialised, and a stand-alone device has at most one user. (Up to
  255 requests; the count of users has eight bits, and the assertion behind it fails at 256.)
\<close>

theorem device_requests_consistent:
  assumes "driver D ok" "ok d" "dev_inv dv" "rt_object_get_type x os = RT_Object_Class_Device"
    and "unat (ref_count dv) + length rs < 256"
  shows "\<exists>dv' d' s'. dev_run D x os rs ((dv, d), s) = Inr ((dv', d'), s') \<and> ok d' \<and>
    (ref_count dv' \<noteq> 0 \<longrightarrow> is_open dv' \<and> activated dv') \<and> (standalone dv' \<longrightarrow> ref_count dv' \<le> 1)"
  using driver.run_ok [OF assms] by (auto simp: dev_inv_def)

text \<open>
  C0: When the driver fails to close a stand-alone device, its user is counted off but the device stays open:
  from then on every request to open it is refused as busy and every request to close it as an error.
\<close>

theorem standalone_close_failure:
  assumes dv: "standalone dv" "is_open dv" "activated dv" "ref_count dv = 1"
    and os: "rt_object_get_type x os = RT_Object_Class_Device"
    and f: "device_close D = Some f" "f (dv\<lparr>ref_count := 0\<rparr>, d) = Inr (e, dv1, d1)" "e \<noteq> RT_EOK" "e \<noteq> - RT_ENOSYS"
    and k: "kept (dv\<lparr>ref_count := 0\<rparr>) dv1" "open_flag dv1 = open_flag dv"
  shows "rt_device_close D x os (dv, d) = Inr (e, dv1, d1) \<and>
    (\<forall>oflag. rt_device_open D x os oflag (dv1, d1) = Inr (- RT_EBUSY, dv1, d1)) \<and>
    rt_device_close D x os (dv1, d1) = Inr (- RT_ERROR, dv1, d1)"
proof -
  have "ref_count dv1 = 0" "standalone dv1" "is_open dv1" "activated dv1"
    using dv k keptD [OF k(1)] by (simp_all add: is_open_def standalone_def activated_def)
  then show ?thesis
    using dv(4) os f by (simp add: rt_device_close_def rt_device_open_def open_init_def Let_def)
qed

text \<open>Reading and writing a device that is not open does not reach the driver.\<close>

lemma closed_device_io:
  assumes "ref_count dv = 0" "rt_object_get_type x os = RT_Object_Class_Device"
  shows "rt_device_read D x os pos b sz (dv, d) s = Inr (0, b, (dv, d), rt_set_errno (- RT_ERROR) s)"
    "rt_device_write D x os pos b sz (dv, d) s = Inr (0, (dv, d), rt_set_errno (- RT_ERROR) s)"
  using assms by (simp_all add: rt_device_read_def rt_device_write_def)

end
