(* ===== verification/Spec2Isabelle.thy ===== *)
theory Spec2Isabelle
  imports Protocol_Properties Roc_Robot Command_Ps2 Kernel_Steps Semaphore Mutex Event Message_Queue Heap_Client Device
begin

text \<open>
  A verification development for a robot car: the application
  (\<^verbatim>\<open>application/roc_car/applications\<close>), the robot package it is built on
  (\<^verbatim>\<open>application/roc_car/packages/rt-robot-latest\<close>), and the part of the RT-Thread kernel that
  runs them (\<^verbatim>\<open>rt-thread/src\<close> and the ring buffer of \<^verbatim>\<open>rt-thread/components/drivers\<close>), in the
  configuration \<^verbatim>\<open>application/roc_car/rtconfig.h\<close>.

  \<^bold>\<open>The program.\<close> A phone sends frames over a TCP connection. The receiving thread
  (\<^verbatim>\<open>tcprecv.c\<close>) puts the bytes into a ring buffer. The control loop (\<^verbatim>\<open>main.c\<close>) takes bytes out of
  it, searches for a frame and checks it (\<^verbatim>\<open>protocol_parser.c\<close>), and calls the moves of
  \<^verbatim>\<open>roc_robot.c\<close>, which set the PWM channels and direction pins of four motors. The robot package
  has motors, encoders, controllers, wheels, kinematics and a chassis for closed-loop control, and a
  PS2 game pad that sends commands. The threads, their delays, locks and messages are those of the
  kernel: a scheduler by priority, timers driven by the tick interrupt, and the IPC objects.

  \<^bold>\<open>Theories.\<close>
  \<^item> \<open>Prelude\<close>: widths of integers, faults, \<open>rbind\<close>, lists. A fault is a value of the sum type
    \<open>fault + 'a\<close>: a null pointer, an access out of bounds, a signed overflow, a division by zero,
    a shift by the width of the word, a loop without end, a failed assertion.
  \<^item> \<open>Ring_Buffer\<close>: \<^verbatim>\<open>ringbuffer.c\<close>, \<^verbatim>\<open>ringbuffer.h\<close>. A record with the storage, the 15-bit indices
    and the mirror bits; \<open>rb_contents\<close> is the queue of bytes it stands for and \<open>rb_inv\<close> its
    invariant. The lemmas show what every operation does to the queue.
  \<^item> \<open>Protocol_Parser\<close>, \<open>Protocol_Properties\<close>: \<^verbatim>\<open>protocol.h\<close>, \<^verbatim>\<open>protocol_parser.c\<close>. The parser record
    is the global \<open>pareser_package\<close>; a pass of the receiver is a loop with fuel, and twice the
    number of stored bytes is shown to be enough. \<open>encode_body\<close> is a sender; the properties are
    the round trip from the sender to the parsed fields, the checksum, and the cases in which
    frames are lost or memory is read out of bounds.
  \<^item> \<open>Hardware\<close>: pins, PWM channels, memory and delays as events (\<open>hw_event\<close>), and the board
    they act on. \<^verbatim>\<open>rt_tick_from_millisecond\<close> of \<^verbatim>\<open>clock.c\<close>.
  \<^item> \<open>Motor\<close>, \<open>Encoder\<close>, \<open>Controller\<close>: \<^verbatim>\<open>motor/*.c\<close>, \<^verbatim>\<open>encoder/*.c\<close>, \<^verbatim>\<open>controller/*.c\<close>. Objects are
    records, calls through function pointers a case distinction on the creator. Floating-point
    arithmetic is an argument (\<open>fops\<close>); properties that need exact arithmetic take the rational
    numbers for it, and the locale \<open>float_cmp\<close> has what any comparison has.
  \<^item> \<open>Chassis\<close>: \<^verbatim>\<open>wheel/wheel.c\<close>, \<^verbatim>\<open>kinematics/kinematics.c\<close>, \<^verbatim>\<open>chassis/chassis.c\<close>; forward and inverse
    kinematics are inverse to each other.
  \<^item> \<open>Command_Ps2\<close>: \<^verbatim>\<open>protocol/command.c\<close>, \<^verbatim>\<open>protocol/ps2.c\<close>.
  \<^item> \<open>Roc_Robot\<close>: \<^verbatim>\<open>roc_robot.c\<close>, the loop of \<^verbatim>\<open>main.c\<close> and the inner loop of \<^verbatim>\<open>tcprecv.c\<close>, over all of the
    above.
  \<^item> \<open>Scheduler\<close>: \<^verbatim>\<open>scheduler.c\<close>, \<open>__rt_ffs\<close> of \<^verbatim>\<open>kservice.c\<close>. The record \<open>kernel\<close> is the state of the kernel: the control
    blocks of all threads, every list of threads, the bits of the ready queues, the current
    thread, the locks, the tick and the timers. \<open>sched_inv\<close> is the invariant of the scheduler.
  \<^item> \<open>Timer\<close>: \<^verbatim>\<open>timer.c\<close>. \<open>ahead\<close> is how many ticks a timer is away, with the wrap-around of the
    tick; \<open>timers_ok\<close> says that the list is in that order and within half the range.
  \<^item> \<open>Thread\<close>: \<^verbatim>\<open>thread.c\<close>. \<open>kernel_inv\<close> joins the invariants; every operation keeps it.
  \<^item> \<open>Tick\<close>: \<^verbatim>\<open>clock.c\<close>, \<^verbatim>\<open>irq.c\<close> and \<open>rt_timer_check\<close>. The functions of object timers are an argument
    under the contract of the locale \<open>timer_callback\<close>, which is interpreted on a function that
    resumes a thread, as the kernel's own timers do. The loop has fuel: more than the number of
    timers is enough when no period is 0, and no fuel is enough when one is.
  \<^item> \<open>Ipc\<close>: the shared part of \<^verbatim>\<open>ipc.c\<close>: waiting lists and waking.
  \<^item> \<open>Idle\<close>: \<^verbatim>\<open>idle.c\<close>: the hooks, and the clean-up of closed threads. The clean-up function of a thread is an
    argument. Fuel: one round more than there are closed threads is enough.
  \<^item> \<open>Kernel_Steps\<close>: the calls and the tick as a step relation, and what holds in all states that
    are reached.
  \<^item> \<open>Semaphore\<close>, \<open>Mutex\<close>, \<open>Event\<close>, \<open>Mailbox\<close>, \<open>Message_Queue\<close>: the rest of \<^verbatim>\<open>ipc.c\<close>. Each has its
    object as a record, its operations, and an abstract view: a count with a queue, ownership with inherited
    priority, flags with the threads they satisfy, a queue of words, a queue of blocks.
  \<^item> \<open>Memory_Pool\<close>: \<^verbatim>\<open>mempool.c\<close>. A pool of equal blocks; the free list is threaded through the memory of the
    blocks, and \<open>mp_rep\<close> says that it has every block that was not given out.
  \<^item> \<open>Heap\<close>: \<^verbatim>\<open>mem.c\<close>, the first-fit heap. The region is a list of bytes; a block header is 12 bytes of it, decoded
    and encoded byte by byte (\<open>header_at\<close>, \<open>put_header\<close>). \<open>layout\<close> is the abstract view: the list of blocks with
    their states; \<open>heap_inv\<close> relates the two, and says where \<open>lfree\<close> points. \<open>Heap_Blocks\<close> has the steps on
    headers (split, mark, merge, \<open>plug_holes\<close>) and the loops as steps on layouts, \<open>Heap_Properties\<close> the calls
    \<open>rt_malloc\<close>, \<open>rt_free\<close> and \<open>rt_system_heap_init\<close>, \<open>Heap_Realloc\<close> \<open>rt_realloc\<close> and \<open>rt_calloc\<close>. The walks have
    fuel: a walk steps over at least one byte of the region each time, so one more than the number of bytes is enough; the
    case in which the code itself does not end is a theorem.
  \<^item> \<open>Heap_Client\<close>: any sequence of calls of clients that keep to their blocks (\<open>client\<close>) against a map of private
    blocks, and the locale \<open>allocator\<close>, the contract that the heap and a pool have in common, with an
    interpretation on each.

  \<^bold>\<open>Conventions.\<close>
  \<^item> A critical section is atomic. A call that blocks is split at its context switch: the call
    gives the outcome \<open>Blocked\<close>, and the rest of its function, which runs when the thread is
    current again, is a definition of its own, named \<open>..._wake\<close>; \<open>mb_reach\<close> and \<open>sem_reach\<close> put
    the parts together in every order. The message queue lets interrupts in while it copies a
    message; \<open>mq_run\<close> interleaves the pieces of its calls.
  \<^item> Threads, IPC objects and timers are numbers; a list node that is removed is removed from whatever list it
    is in (\<open>unlink\<close>), as \<open>rt_list_remove\<close> does.
  \<^item> In the theories that do not build on \<open>Heap\<close>, what the heap answers is an argument; so is what uninitialised memory
    holds. The heap's semaphore is one of \<open>Semaphore\<close>; a call that would block on it ends in \<open>Waits\<close>, and the
    calls are atomic otherwise.

  \<^bold>\<open>Properties.\<close> The text block before each property states it. They fall into these groups: the
  path from bytes to motors (ring buffer, protocol, control loop, moves); the robot package (quadrature,
  PID law, bounds, kinematics); the invariant of the kernel and what follows from it in every reachable state
  (scheduling, timers, sleeping); the IPC objects (conservation, order, inheritance, no lost wake-up, refinement
  of their abstract views); and behaviour of the code that contradicts its purpose, proved as it
  is.

  \<^bold>\<open>Not modelled.\<close>
  \<^item> Code that the configuration leaves out: SMP, more than 32 priorities, signals, modules, the
    soft timer thread.
  \<^item> Hooks, debug output, the stack of a thread and the overflow check: they do not act on the
    modelled state. The context switch itself is the change of the current thread.
  \<^item> The other heap allocators (\<^verbatim>\<open>memheap.c\<close>, \<^verbatim>\<open>slab.c\<close>), which the configuration does not take for the heap, and the commands that
    print the heap (\<open>list_mem\<close>, \<open>memcheck\<close>, \<open>memtrace\<close>).
  \<^item> The object container, devices, file systems, network stacks, the shell,
    processor and board ports, the vendor HAL, and the storage packages; the modelled code
    reaches them through calls whose results are arguments or which are recorded as events.
  \<^item> Start-up: \<open>main\<close>, \<open>ps2_init\<close> and the set-up of the socket only create threads and pins.
\<close>

end
